(* ===== verification/Prelude.thy ===== *)
theory Prelude
  imports Main "HOL-Library.Word"
begin

text \<open>
  What every component shares: the types that stand for the C++ ones, the result type of code
  that can go wrong, the parts of the C and C++ standard library the code uses on strings and
  memory, and the collections of facts the proofs are built from.

  \<^item> \<open>std::string\<close> and every \<open>char\<close> buffer is a HOL \<^typ>\<open>string\<close>, a list of 8-bit characters.
  \<^item> A value of type \<open>int\<close> or \<open>int32_t\<close> is an \<^typ>\<open>int\<close>; where the code can leave the range of
    32 bits the model says what happens: signed arithmetic goes through \<open>int_chk\<close> (overflow is
    undefined behaviour), a conversion goes through \<open>to_int32\<close> (it wraps).
  \<^item> \<open>uint64_t\<close> and \<open>size_t\<close> values whose wrap-around matters are 64-bit words.
  \<^item> Undefined behaviour, an uncaught exception and a call of \<open>exit\<close> are values of type
    \<open>fault\<close>: a computation returns a \<open>'a res\<close>, \<^const>\<open>Inl\<close> of the fault or
    \<^const>\<open>Inr\<close> of the result.
\<close>

section \<open>Results and faults\<close>

datatype fault =
    BadRead          \<comment> \<open>a read outside the object (undefined behaviour)\<close>
  | BadWrite         \<comment> \<open>a write outside the object (undefined behaviour)\<close>
  | IntOverflow      \<comment> \<open>signed overflow (undefined behaviour)\<close>
  | LengthError      \<comment> \<open>\<open>std::length_error\<close> or \<open>std::out_of_range\<close> thrown and not caught\<close>
  | EmptyCall        \<comment> \<open>an empty \<open>std::function\<close> called: \<open>std::bad_function_call\<close>\<close>
  | DivByZero        \<comment> \<open>integer division by zero (undefined behaviour)\<close>
  | NullPointer      \<comment> \<open>a null pointer dereferenced (undefined behaviour)\<close>
  | UseAfterFree     \<comment> \<open>a destroyed object used (undefined behaviour)\<close>
  | Exit             \<comment> \<open>the process ends through \<open>exit\<close> or a failed assertion\<close>

type_synonym 'a res = "fault + 'a"

named_theorems res_simps \<open>unfolding of fallible computations\<close>
named_theorems mem_simps \<open>reads of known parts of a buffer\<close>
named_theorems len_simps \<open>lengths of serialised data\<close>

fun bind_res :: "'e + 'a \<Rightarrow> ('a \<Rightarrow> 'e + 'b) \<Rightarrow> 'e + 'b" where
  "bind_res (Inl e) f = Inl e"
| "bind_res (Inr x) f = f x"

lemma case_Some_Inr:
  "(case x of None \<Rightarrow> False | Some (Inl _) \<Rightarrow> False | Some (Inr s) \<Rightarrow> P s) \<longleftrightarrow> (\<exists>s. x = Some (Inr s) \<and> P s)"
  by (auto split: option.splits sum.splits)

lemma bind_res_Inr [res_simps]:
  "bind_res r f = Inr y \<longleftrightarrow> (\<exists>x. r = Inr x \<and> f x = Inr y)"
  by (cases r) auto

lemma bind_res_Inl:
  "bind_res r f = Inl e \<longleftrightarrow> r = Inl e \<or> (\<exists>x. r = Inr x \<and> f x = Inl e)"
  by (cases r) auto

lemma bind_res_cong [fundef_cong]:
  "r = r' \<Longrightarrow> (\<And>x. r' = Inr x \<Longrightarrow> f x = g x) \<Longrightarrow> bind_res r f = bind_res r' g"
  by (cases r') auto

lemma bind_res_InrE:
  assumes "bind_res r f = Inr y"
  obtains x where "r = Inr x" "f x = Inr y"
  using assms by (cases r) auto

lemma if_NoneE:
  assumes "(if b then Inr None else r) = Inr (Some m)"
  obtains "\<not> b" "r = Inr (Some m)"
  using assms by (auto split: if_splits)

section \<open>Integers\<close>

definition int_chk :: "int \<Rightarrow> int res" where
  "int_chk x = (if - (2 ^ 31) \<le> x \<and> x < 2 ^ 31 then Inr x else Inl IntOverflow)"

definition to_int32 :: "int \<Rightarrow> int" where
  "to_int32 x = sint (word_of_int x :: 32 word)"

lemma int_chk_ok [simp]: "- (2 ^ 31) \<le> x \<Longrightarrow> x < 2 ^ 31 \<Longrightarrow> int_chk x = Inr x"
  by (simp add: int_chk_def)

lemma int_chk_Inr [res_simps]: "int_chk x = Inr y \<longleftrightarrow> y = x \<and> - (2 ^ 31) \<le> x \<and> x < 2 ^ 31"
  by (auto simp: int_chk_def)

lemma to_int32_ok [simp]: "- (2 ^ 31) \<le> x \<Longrightarrow> x < 2 ^ 31 \<Longrightarrow> to_int32 x = x"
  by (simp add: to_int32_def sint_sbintrunc' signed_take_bit_int_eq_self)

lemma to_int32_wrap: "2 ^ 31 \<le> x \<Longrightarrow> x < 2 ^ 32 \<Longrightarrow> to_int32 x < 0"
proof -
  assume x: "2 ^ 31 \<le> x" "x < 2 ^ 32"
  have "to_int32 x = to_int32 (x - 2 ^ 32)"
  proof -
    have "(word_of_int x :: 32 word) = word_of_int (x - 2 ^ 32)"
      by (simp add: word_of_int_eq_iff take_bit_eq_mod)
    then show ?thesis by (simp only: to_int32_def)
  qed
  also have "\<dots> = x - 2 ^ 32" using x by (intro to_int32_ok) simp_all
  finally show ?thesis using x by simp
qed

lemma to_int32_less: "to_int32 x < 2 ^ 31"
  using sint_lt [of "word_of_int x :: 32 word"] by (simp add: to_int32_def)

lemma to_int32_le: "0 \<le> x \<Longrightarrow> to_int32 x \<le> x"
  using to_int32_less [of x] by (cases "x < 2 ^ 31") auto

section \<open>Memory: strings read through a pointer\<close>

abbreviation NUL :: char where
  "NUL \<equiv> CHR 0x00"

text \<open>
  The object behind \<open>s.c_str()\<close> has \<open>s.size() + 1\<close> bytes, the last of them zero. A read of
  \<open>n\<close> bytes at index \<open>k\<close> is defined when it stays inside.
\<close>

definition c_str_slice :: "string \<Rightarrow> int \<Rightarrow> nat \<Rightarrow> string res" where
  "c_str_slice s k n =
     (if 0 \<le> k \<and> k + int n \<le> int (length s) + 1
      then Inr (take n (drop (nat k) (s @ [NUL])))
      else Inl BadRead)"

definition c_str_at :: "string \<Rightarrow> int \<Rightarrow> char res" where
  "c_str_at s k =
     (if 0 \<le> k \<and> k \<le> int (length s) then Inr ((s @ [NUL]) ! nat k) else Inl BadRead)"

lemma c_str_slice_mid:
  assumes "s = p @ x @ q" "k = int (length p)" "n = length x"
  shows "c_str_slice s k n = Inr x"
  using assms by (simp add: c_str_slice_def)

lemma c_str_at_mid:
  assumes "s = p @ x # q" "k = int (length p)"
  shows "c_str_at s k = Inr x"
  using assms by (simp add: c_str_at_def nth_append)

lemma c_str_slice_length: "c_str_slice s k n = Inr x \<Longrightarrow> length x = n"
  by (auto simp: c_str_slice_def split: if_splits)

lemma c_str_slice_Inr_iff:
  "c_str_slice s k n = Inr x \<longleftrightarrow>
     0 \<le> k \<and> k + int n \<le> int (length s) + 1 \<and> x = take n (drop (nat k) (s @ [NUL]))"
  by (auto simp: c_str_slice_def)

section \<open>Object representation and byte order\<close>

text \<open>
  \<open>mem32\<close> is the object representation of a 32-bit integer on the little-endian machines the
  Makefile builds for, \<open>of_mem32\<close> reads it back (\<open>memcpy\<close> into or out of an \<open>int\<close>), and
  \<open>htonl\<close> and \<open>ntohl\<close> reverse the bytes.
\<close>

fun le_chars :: "nat \<Rightarrow> int \<Rightarrow> string" where
  "le_chars 0 n = []"
| "le_chars (Suc k) n = char_of n # le_chars k (n div 256)"

fun le_int :: "string \<Rightarrow> int" where
  "le_int [] = 0"
| "le_int (c # cs) = of_char c + 256 * le_int cs"

definition mem32 :: "32 word \<Rightarrow> string" where
  "mem32 w = le_chars 4 (uint w)"

definition of_mem32 :: "string \<Rightarrow> 32 word" where
  "of_mem32 s = word_of_int (le_int s)"

definition htonl :: "32 word \<Rightarrow> 32 word" where
  "htonl w = of_mem32 (rev (mem32 w))"

definition ntohl :: "32 word \<Rightarrow> 32 word" where
  "ntohl w = of_mem32 (rev (mem32 w))"

lemma length_le_chars [simp]: "length (le_chars k n) = k"
  by (induction k n rule: le_chars.induct) simp_all

lemma of_char_bound: "0 \<le> (of_char c :: int) \<and> (of_char c :: int) < 256"
proof -
  have "0 \<le> (of_char c :: int) mod 256 \<and> (of_char c :: int) mod 256 < 256"
    by (simp del: of_char_mod_256)
  then show ?thesis by simp
qed

lemma le_int_le_chars: "le_int (le_chars k n) = n mod 256 ^ k"
proof (induction k n rule: le_chars.induct)
  case (2 k n)
  have "n mod (256 * 256 ^ k) = 256 * (n div 256 mod 256 ^ k) + n mod 256"
    by (rule zmod_zmult2_eq) simp
  with 2 show ?case by simp
qed simp

lemma le_int_bound: "0 \<le> le_int s \<and> le_int s < 256 ^ length s"
proof (induction s)
  case (Cons c s)
  with of_char_bound [of c] show ?case by simp
qed simp

lemma le_chars_le_int: "le_chars (length s) (le_int s) = s"
proof (induction s)
  case (Cons c s)
  have c: "0 \<le> (of_char c :: int)" "(of_char c :: int) < 256"
    using of_char_bound [of c] by simp_all
  have "char_of (of_char c + 256 * le_int s :: int) =
      (char_of ((of_char c + 256 * le_int s) mod 256) :: char)"
    by (simp del: mod_mult_self2)
  also have "\<dots> = c" using c by simp
  finally show ?case using Cons c by simp
qed simp

lemma length_mem32 [simp, len_simps]: "length (mem32 w) = 4"
  by (simp add: mem32_def)

lemma of_mem32_mem32 [simp]: "of_mem32 (mem32 w) = w"
proof -
  have "uint w < 256 ^ 4" using unsigned_less [of w] by simp
  then show ?thesis
    by (simp add: of_mem32_def mem32_def le_int_le_chars)
qed

lemma mem32_of_mem32: "length s = 4 \<Longrightarrow> mem32 (of_mem32 s) = s"
  using le_int_bound [of s] le_chars_le_int [of s]
  by (simp add: of_mem32_def mem32_def uint_word_of_int)

lemma ntohl_htonl [simp]: "ntohl (htonl w) = w"
  by (simp add: htonl_def ntohl_def mem32_of_mem32)

section \<open>Decimal numbers\<close>

text \<open>
  \<open>std::to_string\<close> and \<open>%d\<close> of a non-negative number, and \<open>atoi\<close>: white space, an optional
  sign, the digits up to the first other character. A value that does not fit an \<open>int\<close> is
  undefined behaviour.
\<close>

definition digit :: "nat \<Rightarrow> char" where
  "digit n = char_of (48 + n)"

fun dec_str :: "nat \<Rightarrow> string" where
  "dec_str n = (if n < 10 then [digit n] else dec_str (n div 10) @ [digit (n mod 10)])"

declare dec_str.simps [simp del]

definition is_digit :: "char \<Rightarrow> bool" where
  "is_digit c \<longleftrightarrow> 48 \<le> (of_char c :: nat) \<and> (of_char c :: nat) \<le> 57"

definition is_space :: "char \<Rightarrow> bool" where
  "is_space c \<longleftrightarrow> c = CHR '' '' \<or> 9 \<le> (of_char c :: nat) \<and> (of_char c :: nat) \<le> 13"

definition digits_val :: "string \<Rightarrow> nat" where
  "digits_val s = foldl (\<lambda>n c. 10 * n + (of_char c - 48)) 0 s"

definition atoi :: "string \<Rightarrow> int res" where
  "atoi s0 =
     (let s = dropWhile is_space s0;
          neg = (s \<noteq> [] \<and> hd s = CHR ''-'');
          body = (if s \<noteq> [] \<and> (hd s = CHR ''-'' \<or> hd s = CHR ''+'') then tl s else s);
          n = int (digits_val (takeWhile is_digit body))
      in int_chk (if neg then - n else n))"

lemma of_char_digit: "n < 10 \<Longrightarrow> (of_char (digit n) :: nat) = 48 + n"
  by (simp add: digit_def)

lemma digit_eqI: "of_char c = 48 + n \<Longrightarrow> n < 10 \<Longrightarrow> digit n = c"
  by (simp add: digit_def flip: char_of_char) (metis char_of_char)

lemma digit_props: "n < 10 \<Longrightarrow> is_digit (digit n)" "n < 10 \<Longrightarrow> \<not> is_space (digit n)"
    "n < 10 \<Longrightarrow> digit n \<noteq> CHR ''-''" "n < 10 \<Longrightarrow> digit n \<noteq> CHR ''+''" "n < 10 \<Longrightarrow> digit n \<noteq> CHR '':''"
    "n < 10 \<Longrightarrow> digit n \<noteq> NUL"
proof -
  assume n: "n < 10"
  have c: "digit n \<noteq> c" if "(of_char c :: nat) < 48 \<or> 57 < (of_char c :: nat)" for c
    using that n of_char_digit [OF n] by auto
  show "is_digit (digit n)" using n by (simp add: is_digit_def of_char_digit)
  show "\<not> is_space (digit n)" using n c by (auto simp: is_space_def of_char_digit)
  show "digit n \<noteq> CHR ''-''" "digit n \<noteq> CHR ''+''" "digit n \<noteq> CHR '':''" "digit n \<noteq> NUL"
    by (rule c, simp)+
qed

lemma dec_str_digits: "\<forall>c \<in> set (dec_str n). \<exists>k < 10. c = digit k"
  by (induction n rule: dec_str.induct)
    (subst dec_str.simps, auto intro: exI [of _ "_ mod 10"])

lemma dec_str_nonempty [simp]: "dec_str n \<noteq> []"
  by (subst dec_str.simps) simp

lemma dec_str_length_bound: "n < 10 ^ k \<Longrightarrow> 0 < k \<Longrightarrow> length (dec_str n) \<le> k"
proof (induction n arbitrary: k rule: dec_str.induct)
  case (1 n)
  show ?case
  proof (cases "n < 10")
    case False
    then obtain j where j: "k = Suc j" "0 < j" using 1(2,3) False
      by (cases k; cases "k - 1") auto
    then have "length (dec_str (n div 10)) \<le> j" using 1(1) [OF False, of j] 1(2) by (simp add: div_less_iff_less_mult)
    then show ?thesis using False j by (subst dec_str.simps) simp
  qed (use 1 in \<open>simp add: dec_str.simps [of n]\<close>)
qed

lemma digits_val_snoc: "digits_val (s @ [c]) = 10 * digits_val s + (of_char c - 48)"
  by (simp add: digits_val_def)

lemma digits_val_dec_str: "digits_val (dec_str n) = n"
proof (induction n rule: dec_str.induct)
  case (1 n)
  show ?case
  proof (cases "n < 10")
    case True
    then show ?thesis by (subst dec_str.simps) (simp add: digits_val_def of_char_digit)
  next
    case False
    then show ?thesis
      using 1 by (subst dec_str.simps) (simp add: digits_val_snoc of_char_digit)
  qed
qed

lemma atoi_dec_str: "int n < 2 ^ 31 \<Longrightarrow> atoi (dec_str n) = Inr (int n)"
proof -
  assume n: "int n < 2 ^ 31"
  obtain c cs where s: "dec_str n = c # cs" by (cases "dec_str n") auto
  obtain k where k: "k < 10" "c = digit k" using dec_str_digits [of n] s by auto
  have "\<forall>c \<in> set cs. is_digit c"
    using dec_str_digits [of n] by (auto simp: s digit_props)
  then have "takeWhile is_digit cs = cs" by (simp add: takeWhile_eq_all_conv)
  then show ?thesis
    using s k n digits_val_dec_str [of n]
    by (simp add: atoi_def digit_props Let_def del: takeWhile_eq_all_conv)
qed

section \<open>Lists\<close>

text \<open>\<open>fold\<close>-like facts on prefixes and concatenations that several components use.\<close>

lemma takeWhile_pad:
  "x \<notin> set s \<Longrightarrow> takeWhile (\<lambda>c. c \<noteq> x) (s @ x # t) = s"
  by (induction s) auto

lemma replicate_nonempty: "0 < n \<Longrightarrow> replicate n x = x # replicate (n - 1) x"
  by (cases n) auto

lemma nth_update_if: "xs[i := x] ! j = (if j = i \<and> j < length xs then x else xs ! j)"
  by (cases "i < length xs") (auto simp: nth_list_update list_update_beyond not_less)

lemma sum_list_update_add:
  fixes f :: "'a \<Rightarrow> 'b :: comm_monoid_add"
  shows "i < length xs \<Longrightarrow> sum_list (map f (xs[i := x])) + f (xs ! i) = sum_list (map f xs) + f x"
proof (induction xs arbitrary: i)
  case (Cons a xs)
  show ?case
  proof (cases i)
    case (Suc j)
    with Cons.IH [of j] Cons.prems show ?thesis by (simp add: add.assoc)
  qed (simp add: ac_simps)
qed simp

section \<open>Searching\<close>

text \<open>\<open>std::string::find\<close> of a string, \<^const>\<open>None\<close> for \<open>npos\<close>.\<close>

fun str_find :: "string \<Rightarrow> string \<Rightarrow> nat option" where
  "str_find p [] = (if p = [] then Some 0 else None)"
| "str_find p (c # s) = (if take (length p) (c # s) = p then Some 0 else map_option Suc (str_find p s))"

lemma str_find_skip: "a \<notin> set s \<Longrightarrow> str_find (a # p) (s @ t) = map_option (\<lambda>n. n + length s) (str_find (a # p) t)"
proof (induction s)
  case (Cons c s)
  then show ?case by (cases "str_find (a # p) t") auto
qed (simp add: option.map_ident)

lemma str_find_hit: "a \<notin> set s \<Longrightarrow> str_find (a # p) (s @ a # p @ t) = Some (length s)"
  by (simp add: str_find_skip)

lemma str_find_none: "a \<notin> set s \<Longrightarrow> str_find (a # p) s = None"
  by (induction s) auto

end
