(* ===== verification/Tinypb.thy ===== *)
theory Tinypb
  imports Prelude
begin

text \<open>
  The wire protocol of \<open>src/server/Rpc/coder/\<close>: the message objects
  (\<open>abstract_protocol.h\<close>, \<open>tinypb_protocol.h\<close>), the 4-byte network integers of
  \<open>src/common/util.cc\<close>, and the encoder \<open>TinyPBCoder::encode\<close> with \<open>encodeTinyPB\<close>. The
  lemmas give the layout of a frame and its length.
\<close>

section \<open>Messages\<close>

record abstract_protocol =
  m_msg_id :: string

record tinypb = abstract_protocol +
  m_pk_len :: int
  m_msg_id_len :: int
  m_method_name_len :: int
  m_method_name :: string
  m_err_code :: int
  m_err_info_len :: int
  m_err_info :: string
  m_pb_data :: string
  m_check_sum :: int
  parse_success :: bool

definition PB_START :: char where
  "PB_START = CHR 0x02"

definition PB_END :: char where
  "PB_END = CHR 0x03"

definition new_tinypb :: tinypb where
  "new_tinypb = \<lparr>m_msg_id = [], m_pk_len = 0, m_msg_id_len = 0, m_method_name_len = 0,
     m_method_name = [], m_err_code = 0, m_err_info_len = 0, m_err_info = [], m_pb_data = [],
     m_check_sum = 0, parse_success = False\<rparr>"

section \<open>Integers in network byte order\<close>

definition getInt32FromNetByte :: "string \<Rightarrow> int" where
  "getInt32FromNetByte buf = sint (ntohl (of_mem32 buf))"

text \<open>\<open>net32 x\<close> is what \<open>memcpy\<close> writes for the variable that holds \<open>htonl(x)\<close>.\<close>

definition net32 :: "int \<Rightarrow> string" where
  "net32 x = mem32 (htonl (word_of_int x))"

lemma length_net32 [simp, len_simps]: "length (net32 x) = 4"
  by (simp add: net32_def)

lemma getInt32FromNetByte_net32: "getInt32FromNetByte (net32 x) = to_int32 x"
  by (simp add: getInt32FromNetByte_def net32_def to_int32_def)

lemma getInt32FromNetByte_range:
  "- (2 ^ 31) \<le> getInt32FromNetByte s \<and> getInt32FromNetByte s < 2 ^ 31"
  using sint_ge [of "ntohl (of_mem32 s)"] sint_lt [of "ntohl (of_mem32 s)"]
  by (simp add: getInt32FromNetByte_def)

section \<open>The encoder\<close>

definition default_msg_id :: string where
  "default_msg_id = ''123456789''"

text \<open>
  The length \<open>encodeTinyPB\<close> computes, and the bytes it writes. The sum is a \<open>size_t\<close> stored
  in an \<open>int\<close>, and \<open>pk_len+1\<close> bytes are allocated: a message for which that sum does not fit
  makes the buffer too short (or null) for what is written to it.
\<close>

definition frame_len :: "tinypb \<Rightarrow> nat" where
  "frame_len m = 2 + 24 + length (m_msg_id m) + length (m_method_name m)
     + length (m_err_info m) + length (m_pb_data m)"

definition frame_bytes :: "tinypb \<Rightarrow> string" where
  "frame_bytes m =
     [PB_START]
     @ net32 (int (frame_len m))
     @ net32 (int (length (m_msg_id m))) @ m_msg_id m
     @ net32 (int (length (m_method_name m))) @ m_method_name m
     @ net32 (m_err_code m)
     @ net32 (int (length (m_err_info m))) @ m_err_info m
     @ m_pb_data m
     @ net32 1
     @ [PB_END]"

definition with_msg_id :: "tinypb \<Rightarrow> tinypb" where
  "with_msg_id m = (if m_msg_id m = [] then m\<lparr>m_msg_id := default_msg_id\<rparr> else m)"

definition encodeTinyPB :: "tinypb \<Rightarrow> (tinypb \<times> string) res" where
  "encodeTinyPB m0 =
     (let m = with_msg_id m0 in
      if int (frame_len m) + 1 < 2 ^ 31
      then Inr (m\<lparr>m_pk_len := int (frame_len m),
                   m_msg_id_len := int (length (m_msg_id m)),
                   m_method_name_len := int (length (m_method_name m)),
                   m_err_info_len := int (length (m_err_info m)),
                   parse_success := True\<rparr>, frame_bytes m)
      else Inl BadWrite)"

text \<open>
  \<open>encode\<close> appends the frames in order. The messages are shared objects that \<open>encodeTinyPB\<close>
  fills in, so the model returns them too.
\<close>

fun encode :: "tinypb list \<Rightarrow> (tinypb list \<times> string) res" where
  "encode [] = Inr ([], [])"
| "encode (m # ms) =
     bind_res (encodeTinyPB m) (\<lambda>(m', buf).
     bind_res (encode ms) (\<lambda>(ms', rest).
     Inr (m' # ms', buf @ rest)))"

section \<open>Layout\<close>

lemma with_msg_id_sel [simp]:
  "m_method_name (with_msg_id m) = m_method_name m"
  "m_err_code (with_msg_id m) = m_err_code m"
  "m_err_info (with_msg_id m) = m_err_info m"
  "m_pb_data (with_msg_id m) = m_pb_data m"
  "m_check_sum (with_msg_id m) = m_check_sum m"
  "m_msg_id (with_msg_id m) \<noteq> []"
  by (simp_all add: with_msg_id_def default_msg_id_def)

lemma length_frame_bytes [simp, len_simps]: "length (frame_bytes m) = frame_len m"
  by (simp add: frame_bytes_def frame_len_def)

lemma frame_len_pos: "26 \<le> frame_len m"
  by (simp add: frame_len_def)

lemma encodeTinyPB_Inr_iff [res_simps]:
  "encodeTinyPB m = Inr (m', buf) \<longleftrightarrow>
     int (frame_len (with_msg_id m)) + 1 < 2 ^ 31 \<and> buf = frame_bytes (with_msg_id m) \<and>
     m' = (with_msg_id m)\<lparr>m_pk_len := int (frame_len (with_msg_id m)),
            m_msg_id_len := int (length (m_msg_id (with_msg_id m))),
            m_method_name_len := int (length (m_method_name m)),
            m_err_info_len := int (length (m_err_info m)), parse_success := True\<rparr>"
  by (auto simp: encodeTinyPB_def Let_def)

lemma encode_bytes:
  "encode ms = Inr (ms', buf) \<Longrightarrow> buf = concat (map (\<lambda>m. frame_bytes (with_msg_id m)) ms)"
  by (induction ms arbitrary: ms' buf) (auto simp: res_simps)

lemma encode_total:
  "(\<forall>m \<in> set ms. int (frame_len (with_msg_id m)) + 1 < 2 ^ 31) \<Longrightarrow> \<exists>r. encode ms = Inr r"
  by (induction ms) (auto simp: encodeTinyPB_def Let_def)

section \<open>Sample messages\<close>

text \<open>The request of \<open>test/test_rpc_client.cc\<close> and a reply to it, for the witnesses.\<close>

definition order_request :: tinypb where
  "order_request = new_tinypb\<lparr>m_msg_id := ''9912312998888'',
     m_method_name := ''Order.makeOrder'', m_pb_data := ''apple''\<rparr>"

definition order_reply :: tinypb where
  "order_reply = new_tinypb\<lparr>m_method_name := ''Order.makeOrder'', m_pb_data := ''20230829''\<rparr>"

end
