(* ===== verification/TinypbDecode.thy ===== *)
theory TinypbDecode
  imports Tinypb
begin

text \<open>
  The decoder \<open>TinyPBCoder::decode\<close> of \<open>tinypb_coder.cc\<close>. Its \<open>while(1)\<close> may run forever,
  so the loop is a \<^theory_text>\<open>partial_function (option)\<close>: \<^const>\<open>None\<close> is "does not
  return", \<open>Some (Inl f)\<close> is undefined behaviour or an uncaught exception, and
  \<open>Some (Inr out)\<close> is a return with \<open>out\<close> in \<open>out_messages\<close>.
\<close>

section \<open>One candidate position\<close>

text \<open>
  The body of the \<open>for\<close> loop at index \<open>i\<close>: \<open>Inr (Some (j, pk_len))\<close> is the \<open>break\<close> with
  \<open>parse_success\<close>, \<open>Inr None\<close> goes on to the next index.
\<close>

definition frame_at :: "string \<Rightarrow> int \<Rightarrow> int \<Rightarrow> (int \<times> int) option res" where
  "frame_at tmp buffer_size i =
     bind_res (c_str_at tmp i) (\<lambda>c.
       if c = PB_START \<and> i + 1 < buffer_size
       then bind_res (c_str_slice tmp (i + 1) 4) (\<lambda>bs.
            let pk_len = getInt32FromNetByte bs in
            bind_res (int_chk (i + pk_len)) (\<lambda>e.
            bind_res (int_chk (e - 1)) (\<lambda>j.
              if j \<ge> buffer_size then Inr None
              else bind_res (c_str_at tmp j) (\<lambda>d.
                if d = PB_END then Inr (Some (j, pk_len)) else Inr None))))
       else Inr None)"

function scan :: "string \<Rightarrow> int \<Rightarrow> int \<Rightarrow> (int \<times> int \<times> int) option res" where
  "scan tmp buffer_size i =
     (if i < buffer_size
      then case frame_at tmp buffer_size i of
             Inl f \<Rightarrow> Inl f
           | Inr (Some (j, pk_len)) \<Rightarrow> Inr (Some (i, j, pk_len))
           | Inr None \<Rightarrow> scan tmp buffer_size (i + 1)
      else Inr None)"
  by pat_completeness auto
termination
  by (relation "measure (\<lambda>(tmp, buffer_size, i). nat (buffer_size - i))") auto

declare scan.simps [simp del]

section \<open>The fields of one frame\<close>

text \<open>
  \<open>char a[cap] = {0}; memcpy(a, &tmp[k], n); std::string(a)\<close>: a negative length is a huge
  \<open>size_t\<close>, a length beyond the array overruns it, and the string ends at the first zero byte.
\<close>

definition read_cstr :: "nat \<Rightarrow> string \<Rightarrow> int \<Rightarrow> int \<Rightarrow> string res" where
  "read_cstr cap tmp k n =
     (if n < 0 \<or> int cap < n then Inl BadWrite
      else bind_res (c_str_slice tmp k (nat n)) (\<lambda>bs.
           let a = bs @ replicate (cap - length bs) NUL in
           if NUL \<in> set a then Inr (takeWhile (\<lambda>c. c \<noteq> NUL) a) else Inl BadRead))"

text \<open>\<open>std::string(&tmp[k], n)\<close>: the \<open>int\<close> length becomes a \<open>size_t\<close>.\<close>

definition read_str :: "string \<Rightarrow> int \<Rightarrow> int \<Rightarrow> string res" where
  "read_str tmp k n = (if n < 0 then Inl LengthError else c_str_slice tmp k (nat n))"

definition read_int32 :: "string \<Rightarrow> int \<Rightarrow> int res" where
  "read_int32 tmp k = bind_res (c_str_slice tmp k 4) (\<lambda>bs. Inr (getInt32FromNetByte bs))"

text \<open>
  The body of \<open>if (parse_success)\<close>. \<open>Inr None\<close> is one of the four \<open>continue\<close> statements:
  they jump back to \<open>while(1)\<close> past the assignment of \<open>start_index\<close>.
\<close>

definition parse_packet :: "string \<Rightarrow> int \<Rightarrow> int \<Rightarrow> int \<Rightarrow> tinypb option res" where
  "parse_packet tmp start_index end_index pk_len =
     (let msg_id_len_index = to_int32 (start_index + 1 + 4) in
      if msg_id_len_index \<ge> end_index then Inr None else
      bind_res (read_int32 tmp msg_id_len_index) (\<lambda>msg_id_len.
      let msg_id_index = to_int32 (msg_id_len_index + 4) in
      bind_res (read_cstr 100 tmp msg_id_index msg_id_len) (\<lambda>msg_id.
      bind_res (int_chk (msg_id_index + msg_id_len)) (\<lambda>method_name_len_index.
      if method_name_len_index \<ge> end_index then Inr None else
      bind_res (read_int32 tmp method_name_len_index) (\<lambda>method_name_len.
      let method_name_index = to_int32 (method_name_len_index + 4) in
      bind_res (read_cstr 512 tmp method_name_index method_name_len) (\<lambda>method_name.
      bind_res (int_chk (method_name_index + method_name_len)) (\<lambda>err_code_index.
      if err_code_index \<ge> end_index then Inr None else
      bind_res (read_int32 tmp err_code_index) (\<lambda>err_code.
      let error_info_len_index = to_int32 (err_code_index + 4) in
      if error_info_len_index \<ge> end_index then Inr None else
      bind_res (read_int32 tmp error_info_len_index) (\<lambda>err_info_len.
      let err_info_index = to_int32 (error_info_len_index + 4) in
      bind_res (read_cstr 512 tmp err_info_index err_info_len) (\<lambda>error_info.
      bind_res (int_chk (pk_len - method_name_len - msg_id_len - err_info_len - 2 - 24))
        (\<lambda>pb_data_len.
      bind_res (int_chk (err_info_index + err_info_len)) (\<lambda>pd_data_index.
      bind_res (read_str tmp pd_data_index pb_data_len) (\<lambda>pb_data.
      Inr (Some (new_tinypb\<lparr>m_msg_id := msg_id, m_pk_len := pk_len,
        m_msg_id_len := msg_id_len, m_method_name_len := method_name_len,
        m_method_name := method_name, m_err_code := err_code,
        m_err_info_len := err_info_len, m_err_info := error_info,
        m_pb_data := pb_data, parse_success := True\<rparr>)))))))))))))))"

section \<open>The loop\<close>

partial_function (option) decode_loop ::
  "string \<Rightarrow> int \<Rightarrow> int \<Rightarrow> tinypb list \<Rightarrow> tinypb list res option" where
  "decode_loop tmp buffer_size start_index out =
     (case scan tmp buffer_size start_index of
        Inl f \<Rightarrow> Some (Inl f)
      | Inr None \<Rightarrow> Some (Inr out)
      | Inr (Some (i, j, pk_len)) \<Rightarrow>
          (case parse_packet tmp i j pk_len of
             Inl f \<Rightarrow> Some (Inl f)
           | Inr None \<Rightarrow> decode_loop tmp buffer_size i out
           | Inr (Some m) \<Rightarrow> decode_loop tmp buffer_size (j + 1) (out @ [m])))"

declare decode_loop.simps [code]

definition decode :: "string \<Rightarrow> tinypb list res option" where
  "decode buffer = decode_loop buffer (to_int32 (int (length buffer))) 0 []"

section \<open>Reading back one frame\<close>

text \<open>Messages whose fields fit the fixed arrays of the decoder.\<close>

definition cstr_ok :: "nat \<Rightarrow> string \<Rightarrow> bool" where
  "cstr_ok cap s \<longleftrightarrow> NUL \<notin> set s \<and> length s < cap"

definition wf_msg :: "tinypb \<Rightarrow> bool" where
  "wf_msg m \<longleftrightarrow> cstr_ok 100 (m_msg_id m) \<and> cstr_ok 512 (m_method_name m) \<and>
     cstr_ok 512 (m_err_info m) \<and> - (2 ^ 31) \<le> m_err_code m \<and> m_err_code m < 2 ^ 31"

definition wire_image :: "tinypb \<Rightarrow> tinypb" where
  "wire_image m = new_tinypb\<lparr>m_msg_id := m_msg_id m, m_pk_len := int (frame_len m),
     m_msg_id_len := int (length (m_msg_id m)),
     m_method_name_len := int (length (m_method_name m)), m_method_name := m_method_name m,
     m_err_code := m_err_code m, m_err_info_len := int (length (m_err_info m)),
     m_err_info := m_err_info m, m_pb_data := m_pb_data m, parse_success := True\<rparr>"

lemma read_cstr_mid:
  assumes "s = p @ x @ q" "k = int (length p)" "n = int (length x)" "cstr_ok cap x"
  shows "read_cstr cap s k n = Inr x"
proof -
  have r: "cap - length x = Suc (cap - length x - 1)"
    using assms(4) by (auto simp: cstr_ok_def)
  have "takeWhile (\<lambda>c. c \<noteq> NUL) (x @ replicate (cap - length x) NUL) = x"
    using assms(4) by (subst r) (simp add: cstr_ok_def takeWhile_pad)
  moreover have "NUL \<in> set (x @ replicate (cap - length x) NUL)"
    using assms(4) by (simp add: cstr_ok_def)
  ultimately show ?thesis
    using assms by (simp add: read_cstr_def c_str_slice_mid cstr_ok_def)
qed

lemma read_str_mid:
  assumes "s = p @ x @ q" "k = int (length p)" "n = int (length x)"
  shows "read_str s k n = Inr x"
  using assms by (simp add: read_str_def c_str_slice_mid)

lemma read_int32_mid:
  assumes "s = p @ net32 x @ q" "k = int (length p)" "- (2 ^ 31) \<le> x" "x < 2 ^ 31"
  shows "read_int32 s k = Inr x"
proof -
  have "c_str_slice s k 4 = Inr (net32 x)"
    using assms by (intro c_str_slice_mid) simp_all
  then show ?thesis
    using assms by (simp add: read_int32_def getInt32FromNetByte_net32)
qed

lemma frame_at_mid:
  assumes s: "s = p @ frame_bytes m @ q" and l: "int (length s) < 2 ^ 31"
  shows "frame_at s (int (length s)) (int (length p)) =
    Inr (Some (int (length p) + int (frame_len m) - 1, int (frame_len m)))"
proof -
  have n: "length s = length p + frame_len m + length q" using s by simp
  have f: "26 \<le> frame_len m" by (rule frame_len_pos)
  define t where "t = net32 (int (length (m_msg_id m))) @ m_msg_id m
     @ net32 (int (length (m_method_name m))) @ m_method_name m
     @ net32 (m_err_code m)
     @ net32 (int (length (m_err_info m))) @ m_err_info m
     @ m_pb_data m
     @ net32 1"
  have s1: "s = p @ PB_START # net32 (int (frame_len m)) @ t @ PB_END # q"
    by (simp add: s frame_bytes_def t_def)
  have lt: "length t + 6 = frame_len m" by (simp add: t_def frame_len_def)
  have 1: "c_str_at s (int (length p)) = Inr PB_START"
    by (rule c_str_at_mid) (use s1 in simp_all)
  have 2: "c_str_slice s (int (length p) + 1) 4 = Inr (net32 (int (frame_len m)))"
    by (rule c_str_slice_mid [where p = "p @ [PB_START]"]) (use s1 in simp_all)
  have 3: "c_str_at s (int (length p) + int (frame_len m) - 1) = Inr PB_END"
    by (rule c_str_at_mid [where p = "p @ PB_START # net32 (int (frame_len m)) @ t"])
      (use s1 lt in simp_all)
  show ?thesis
    using n f l by (simp add: frame_at_def 1 2 3 getInt32FromNetByte_net32 Let_def)
qed

lemma parse_packet_mid:
  assumes s: "s = p @ frame_bytes m @ q" and l: "int (length s) < 2 ^ 31" and w: "wf_msg m"
  shows "parse_packet s (int (length p)) (int (length p) + int (frame_len m) - 1)
    (int (frame_len m)) = Inr (Some (wire_image m))"
proof -
  let ?i = "int (length (m_msg_id m))" and ?n = "int (length (m_method_name m))"
    and ?e = "int (length (m_err_info m))" and ?d = "length (m_pb_data m)"
  let ?p = "int (length p)"
  note F = s frame_bytes_def
  have n: "length s = length p + frame_len m + length q" using s by simp
  have fl: "int (frame_len m) = 26 + ?i + ?n + ?e + int ?d" by (simp add: frame_len_def)
  have c: "cstr_ok 100 (m_msg_id m)" "cstr_ok 512 (m_method_name m)" "cstr_ok 512 (m_err_info m)"
    and ec: "- (2 ^ 31) \<le> m_err_code m" "m_err_code m < 2 ^ 31"
    using w by (simp_all add: wf_msg_def)
  have b: "?i < 100" "?n < 512" "?e < 512" using c by (simp_all add: cstr_ok_def)
  let ?q1 = "p @ [PB_START] @ net32 (int (frame_len m))"
  let ?q2 = "?q1 @ net32 ?i @ m_msg_id m"
  let ?q3 = "?q2 @ net32 ?n @ m_method_name m"
  let ?q4 = "?q3 @ net32 (m_err_code m)"
  let ?q5 = "?q4 @ net32 ?e @ m_err_info m"
  have r1: "read_int32 s (?p + 5) = Inr ?i"
    by (rule read_int32_mid [where p = ?q1]) (use b in \<open>simp_all add: F\<close>)
  have r2: "read_cstr 100 s (?p + 9) ?i = Inr (m_msg_id m)"
    by (rule read_cstr_mid [where p = "?q1 @ net32 ?i"]) (use c in \<open>simp_all add: F\<close>)
  have r3: "read_int32 s (?p + 9 + ?i) = Inr ?n"
    by (rule read_int32_mid [where p = ?q2]) (use b in \<open>simp_all add: F\<close>)
  have r4: "read_cstr 512 s (?p + 13 + ?i) ?n = Inr (m_method_name m)"
    by (rule read_cstr_mid [where p = "?q2 @ net32 ?n"]) (use c in \<open>simp_all add: F\<close>)
  have r5: "read_int32 s (?p + 13 + ?i + ?n) = Inr (m_err_code m)"
    by (rule read_int32_mid [where p = ?q3]) (use ec in \<open>simp_all add: F\<close>)
  have r6: "read_int32 s (?p + 17 + ?i + ?n) = Inr ?e"
    by (rule read_int32_mid [where p = ?q4]) (use b in \<open>simp_all add: F\<close>)
  have r7: "read_cstr 512 s (?p + 21 + ?i + ?n) ?e = Inr (m_err_info m)"
    by (rule read_cstr_mid [where p = "?q4 @ net32 ?e"]) (use c in \<open>simp_all add: F\<close>)
  have r8: "read_str s (?p + 21 + ?i + ?n + ?e) (int ?d) = Inr (m_pb_data m)"
    by (rule read_str_mid [where p = ?q5]) (simp_all add: F)
  have L: "int (length s) = ?p + 26 + ?i + ?n + ?e + int ?d + int (length q)"
    using n fl by simp
  show ?thesis
    using L l b r1 r2 r3 r4 r5 r6 r7 r8
    by (simp add: parse_packet_def Let_def fl wire_image_def algebra_simps)
qed

section \<open>Searching for a frame\<close>

lemma scan_hit:
  "i < n \<Longrightarrow> frame_at s n i = Inr (Some (j, pk)) \<Longrightarrow> scan s n i = Inr (Some (i, j, pk))"
  by (subst scan.simps) simp

lemma scan_end: "n \<le> i \<Longrightarrow> scan s n i = Inr None"
  by (subst scan.simps) simp

lemma scan_SomeD:
  "scan s n st = Inr (Some (i, j, pk)) \<Longrightarrow>
     st \<le> i \<and> i < n \<and> frame_at s n i = Inr (Some (j, pk))"
proof (induction s n st rule: scan.induct)
  case (1 s n st)
  from 1(2) show ?case
    by (subst (asm) scan.simps) (auto split: if_splits sum.splits option.splits dest: 1(1))
qed

lemma scan_idem:
  "scan s n st = Inr (Some (i, j, pk)) \<Longrightarrow> scan s n i = Inr (Some (i, j, pk))"
  by (drule scan_SomeD) (simp add: scan_hit)

lemma frame_at_SomeD:
  "frame_at s n i = Inr (Some (j, pk)) \<Longrightarrow> j = i + pk - 1 \<and> 0 \<le> j \<and> j < n"
  by (auto simp: frame_at_def Let_def res_simps c_str_at_def split: if_splits)

lemma frame_at_skip:
  assumes "s = p @ c # q" "c \<noteq> PB_START"
  shows "frame_at s n (int (length p)) = Inr None"
  using c_str_at_mid [OF assms(1) refl] assms(2) by (simp add: frame_at_def)

lemma scan_skip:
  assumes "s = p @ g @ q" "PB_START \<notin> set g" "int (length p + length g) \<le> n"
  shows "scan s n (int (length p)) = scan s n (int (length p + length g))"
  using assms
proof (induction g arbitrary: p)
  case (Cons c g)
  have "frame_at s n (int (length p)) = Inr None"
    using Cons.prems by (intro frame_at_skip [where q = "g @ q"]) auto
  then have "scan s n (int (length p)) = scan s n (int (length (p @ [c])))"
    using Cons.prems by (subst scan.simps) (simp add: add.commute)
  also have "\<dots> = scan s n (int (length (p @ [c]) + length g))"
    using Cons.prems by (intro Cons.IH) auto
  finally show ?case by simp
qed simp

lemma read_int32_nonneg: "read_int32 s k = Inr v \<Longrightarrow> 0 \<le> k"
  by (auto simp: read_int32_def res_simps c_str_slice_Inr_iff)


definition field_ok :: "int \<Rightarrow> int \<Rightarrow> string \<Rightarrow> bool" where
  "field_ok cap n s \<longleftrightarrow> 0 \<le> n \<and> n \<le> cap \<and> NUL \<notin> set s \<and> int (length s) \<le> n"

lemma read_cstr_Inr:
  assumes "read_cstr cap s k n = Inr x"
  shows "field_ok (int cap) n x"
proof -
  from assms obtain bs where n: "0 \<le> n" "n \<le> int cap" and bs: "c_str_slice s k (nat n) = Inr bs"
    and x: "x = takeWhile (\<lambda>c. c \<noteq> NUL) (bs @ replicate (cap - length bs) NUL)"
    by (auto simp: read_cstr_def Let_def res_simps split: if_splits)
  have "length x \<le> length bs"
    unfolding x by (auto simp: takeWhile_append takeWhile_replicate length_takeWhile_le)
  with n c_str_slice_length [OF bs] x show ?thesis
    by (auto simp: field_ok_def dest: set_takeWhileD)
qed

lemma read_str_Inr: "read_str s k n = Inr x \<Longrightarrow> int (length x) = n"
  by (auto simp: read_str_def dest: c_str_slice_length split: if_splits)

lemma parse_packet_Some:
  assumes "parse_packet s i j pk = Inr (Some m)"
  shows "to_int32 (i + 1 + 4) < j \<and> 0 \<le> to_int32 (i + 1 + 4) \<and> m_pk_len m = pk \<and> parse_success m
    \<and> int (length (m_pb_data m)) =
        pk - m_method_name_len m - m_msg_id_len m - m_err_info_len m - 2 - 24
    \<and> field_ok 100 (m_msg_id_len m) (m_msg_id m)
    \<and> field_ok 512 (m_method_name_len m) (m_method_name m)
    \<and> field_ok 512 (m_err_info_len m) (m_err_info m)"
  using assms unfolding parse_packet_def Let_def
  apply (elim bind_res_InrE if_NoneE)
  apply (frule read_int32_nonneg)
  apply (drule read_cstr_Inr read_str_Inr)+
  apply (drule int_chk_Inr [THEN iffD1])+
  apply (auto simp: new_tinypb_def simp del: to_int32_ok)
  done

lemma parse_packet_span:
  assumes "parse_packet s i j pk = Inr (Some m)" "0 \<le> i" "i < 2 ^ 31"
  shows "i + 5 < j"
  using parse_packet_Some [OF assms(1)] assms(2,3) to_int32_wrap [of "i + 1 + 4"]
    to_int32_ok [of "i + 1 + 4"] by (cases "i + 1 + 4 < 2 ^ 31") auto

lemma frame_at_nonneg: "frame_at s n i = Inr (Some (j, pk)) \<Longrightarrow> 0 \<le> i"
  by (auto simp: frame_at_def c_str_at_def split: if_splits)

section \<open>When the loop returns\<close>

text \<open>
  The values of \<open>start_index\<close> at the head of \<open>while(1)\<close>, as long as frames parse.
\<close>

inductive loop_head :: "string \<Rightarrow> int \<Rightarrow> int \<Rightarrow> bool" for s :: string and n :: int where
  start: "loop_head s n 0"
| next_frame: "loop_head s n st \<Longrightarrow> scan s n st = Inr (Some (i, j, pk)) \<Longrightarrow>
     parse_packet s i j pk = Inr (Some m) \<Longrightarrow> loop_head s n (j + 1)"

definition stuck_at :: "string \<Rightarrow> int \<Rightarrow> int \<Rightarrow> bool" where
  "stuck_at s n st \<longleftrightarrow> (case scan s n st of
      Inr (Some (i, j, pk)) \<Rightarrow> parse_packet s i j pk = Inr None | _ \<Rightarrow> False)"

lemma decode_loop_next:
  "scan s n st = Inr (Some (i, j, pk)) \<Longrightarrow> parse_packet s i j pk = Inr (Some m) \<Longrightarrow>
     decode_loop s n st out = decode_loop s n (j + 1) (out @ [m])"
  by (subst decode_loop.simps) simp

lemma stuck_never_returns:
  "decode_loop s n st out = Some r \<Longrightarrow> \<not> stuck_at s n st"
proof (rule decode_loop.raw_induct
    [where P = "\<lambda>s n st out r. \<not> stuck_at s n st"])
  fix f s n st out r
  assume IH: "\<And>s n st out r. f s n st out = Some r \<Longrightarrow> \<not> stuck_at s n st"
    and eq: "(case scan s n st of Inl f \<Rightarrow> Some (Inl f) | Inr None \<Rightarrow> Some (Inr out)
      | Inr (Some (i, j, pk_len)) \<Rightarrow> (case parse_packet s i j pk_len of Inl f \<Rightarrow> Some (Inl f)
          | Inr None \<Rightarrow> f s n i out
          | Inr (Some m) \<Rightarrow> f s n (j + 1) (out @ [m]))) = Some r"
  show "\<not> stuck_at s n st"
  proof
    assume "stuck_at s n st"
    then obtain i j pk where sc: "scan s n st = Inr (Some (i, j, pk))"
      and pa: "parse_packet s i j pk = Inr None"
      by (auto simp: stuck_at_def split: sum.splits option.splits)
    have "f s n i out = Some r" using eq sc pa by simp
    then have "\<not> stuck_at s n i" by (rule IH)
    then show False using scan_idem [OF sc] pa by (simp add: stuck_at_def)
  qed
qed

lemma loop_head_None:
  "loop_head s n st \<Longrightarrow> (\<And>out. decode_loop s n st out = None) \<Longrightarrow> decode_loop s n 0 out = None"
proof (induction arbitrary: out rule: loop_head.induct)
  case (next_frame st i j pk m)
  then show ?case by (metis decode_loop_next)
qed simp

lemma decode_loop_returns:
  assumes "loop_head s n st" "\<And>st. loop_head s n st \<Longrightarrow> \<not> stuck_at s n st" "n < 2 ^ 31"
  shows "\<exists>r. decode_loop s n st out = Some r"
  using assms(1)
proof (induction "nat (n - st)" arbitrary: st out rule: less_induct)
  case less
  show ?case
  proof (cases "scan s n st")
    case (Inr o1)
    show ?thesis
    proof (cases o1)
      case (Some t)
      obtain i j pk where t: "t = (i, j, pk)" by (cases t)
      note sc = Inr [unfolded Some t]
      show ?thesis
      proof (cases "parse_packet s i j pk")
        case (Inr o2)
        with assms(2) [OF less.prems] sc obtain m where m: "parse_packet s i j pk = Inr (Some m)"
          by (cases o2) (auto simp: stuck_at_def)
        have "st \<le> i" "i < n" "0 \<le> i"
          using scan_SomeD [OF sc] frame_at_nonneg by blast+
        then have "nat (n - (j + 1)) < nat (n - st)"
          using parse_packet_span [OF m] assms(3) by simp
        then show ?thesis
          using less.hyps loop_head.next_frame [OF less.prems sc m] decode_loop_next [OF sc m]
          by metis
      qed (simp add: decode_loop.simps [of s n st] sc)
    qed (simp add: decode_loop.simps [of s n st] Inr)
  qed (simp add: decode_loop.simps [of s n st])
qed


section \<open>Streams of frames\<close>

text \<open>Frames with bytes between them; what precedes a frame holds no start byte.\<close>

fun stream :: "(string \<times> tinypb) list \<Rightarrow> string \<Rightarrow> string" where
  "stream [] g = g"
| "stream ((g, m) # gms) h = g @ frame_bytes m @ stream gms h"

lemma decode_loop_end: "n \<le> st \<Longrightarrow> decode_loop s n st out = Some (Inr out)"
  by (subst decode_loop.simps) (simp add: scan_end)

lemma decode_loop_scan_cong:
  "scan s n a = scan s n b \<Longrightarrow> decode_loop s n a out = decode_loop s n b out"
  by (subst (1 2) decode_loop.simps) simp

lemma decode_loop_stream:
  assumes "s = p @ stream gms h @ q" "int (length s) < 2 ^ 31"
    "\<forall>(g, m) \<in> set gms. PB_START \<notin> set g \<and> wf_msg m" "PB_START \<notin> set h"
  shows "decode_loop s (int (length s)) (int (length p)) out =
    decode_loop s (int (length s)) (int (length (p @ stream gms h)))
      (out @ map (\<lambda>(g, m). wire_image m) gms)"
  using assms(1,3)
proof (induction gms arbitrary: p out)
  case Nil
  have "scan s (int (length s)) (int (length p)) = scan s (int (length s)) (int (length p + length h))"
    using assms(4) Nil by (intro scan_skip [of s p h q]) simp_all
  then have "decode_loop s (int (length s)) (int (length p)) out =
      decode_loop s (int (length s)) (int (length p + length h)) out"
    by (rule decode_loop_scan_cong)
  then show ?case by simp
next
  case (Cons gm gms)
  obtain g m where gm: "gm = (g, m)" by (cases gm)
  have w: "PB_START \<notin> set g" "wf_msg m" using Cons.prems gm by auto
  have s: "s = (p @ g) @ frame_bytes m @ stream gms h @ q" using Cons.prems(1) gm by simp
  let ?n = "int (length s)" and ?i = "int (length (p @ g))"
  have "scan s ?n (int (length p)) = scan s ?n ?i"
    using scan_skip [of s p g "frame_bytes m @ stream gms h @ q" ?n] w s by simp
  also have "\<dots> = Inr (Some (?i, ?i + int (frame_len m) - 1, int (frame_len m)))"
    using frame_len_pos [of m] s
    by (intro scan_hit frame_at_mid [OF s assms(2)]) simp
  finally have "decode_loop s ?n (int (length p)) out =
      decode_loop s ?n (?i + int (frame_len m) - 1 + 1) (out @ [wire_image m])"
    by (rule decode_loop_next) (rule parse_packet_mid [OF s assms(2) w(2)])
  also have "?i + int (frame_len m) - 1 + 1 = int (length (p @ g @ frame_bytes m))" by simp
  also have "decode_loop s ?n (int (length (p @ g @ frame_bytes m))) (out @ [wire_image m]) =
      decode_loop s ?n (int (length ((p @ g @ frame_bytes m) @ stream gms h)))
        ((out @ [wire_image m]) @ map (\<lambda>(g, m). wire_image m) gms)"
    using Cons.prems s by (intro Cons.IH) auto
  finally show ?case by (simp add: gm add.assoc)
qed

lemma decode_stream:
  assumes "int (length (stream gms h)) < 2 ^ 31"
    "\<forall>(g, m) \<in> set gms. PB_START \<notin> set g \<and> wf_msg m" "PB_START \<notin> set h"
  shows "decode (stream gms h) = Some (Inr (map (\<lambda>(g, m). wire_image m) gms))"
proof -
  let ?s = "stream gms h" and ?out = "map (\<lambda>(g, m). wire_image m) gms"
  have "decode ?s = decode_loop ?s (int (length ?s)) (int (length ([] :: string))) []"
    using assms(1) by (simp add: decode_def)
  also have "\<dots> = decode_loop ?s (int (length ?s)) (int (length ([] @ ?s))) ([] @ ?out)"
    by (rule decode_loop_stream [where q = "[]"]) (use assms in simp_all)
  also have "\<dots> = Some (Inr ?out)"
    by (subst decode_loop_end) simp_all
  finally show ?thesis .
qed

section \<open>A frame that never finishes\<close>

text \<open>The shortest frame the \<open>for\<close> loop accepts: start byte, length 6, end byte.\<close>

definition empty_frame :: string where
  "empty_frame = PB_START # net32 6 @ [PB_END]"

lemma decode_loop_empty_frame:
  assumes s: "s = p @ empty_frame @ q" and l: "int (length s) < 2 ^ 31"
  shows "stuck_at s (int (length s)) (int (length p))"
proof -
  let ?p = "int (length p)" and ?n = "int (length s)"
  note F = s empty_frame_def
  have 1: "c_str_at s ?p = Inr PB_START" by (rule c_str_at_mid) (simp_all add: F)
  have 2: "c_str_slice s (?p + 1) 4 = Inr (net32 6)"
    by (rule c_str_slice_mid [where p = "p @ [PB_START]"]) (simp_all add: F)
  have 3: "c_str_at s (5 + ?p) = Inr PB_END"
    by (rule c_str_at_mid [where p = "p @ PB_START # net32 6"]) (simp_all add: F)
  have n: "?n = ?p + 6 + int (length q)" by (simp add: F)
  have "frame_at s ?n ?p = Inr (Some (?p + 5, 6))"
    using n l by (simp add: frame_at_def 1 2 3 getInt32FromNetByte_net32 Let_def)
  then have "scan s ?n ?p = Inr (Some (?p, ?p + 5, 6))"
    using n by (intro scan_hit) simp
  moreover have "parse_packet s ?p (?p + 5) 6 = Inr None"
    using n l by (simp add: parse_packet_def)
  ultimately show ?thesis by (simp add: stuck_at_def)
qed


section \<open>Properties\<close>

lemma sample_simps:
  "frame_len order_request = 59" "frame_len (with_msg_id order_request) = 59"
  "frame_len (with_msg_id order_reply) = 58"
  "m_msg_id order_request = ''9912312998888''" "m_method_name order_request = ''Order.makeOrder''"
  "m_err_info order_request = []" "m_pb_data order_request = ''apple''"
  "wf_msg order_request" "wf_msg order_reply"
  by (simp_all add: frame_len_def order_request_def order_reply_def new_tinypb_def with_msg_id_def
      default_msg_id_def wf_msg_def cstr_ok_def)

lemma encode_Cons:
  "encode (m # ms) = Inr (ms', buf) \<longleftrightarrow>
     (\<exists>m' b ms'' r. encodeTinyPB m = Inr (m', b) \<and> encode ms = Inr (ms'', r) \<and>
        ms' = m' # ms'' \<and> buf = b @ r)"
  by (auto simp: bind_res_Inr split: prod.splits)

lemma encode_messages:
  "encode ms = Inr (ms', buf) \<Longrightarrow>
     map (\<lambda>m. wire_image (with_msg_id m)) ms = map (\<lambda>m. m\<lparr>m_check_sum := 0\<rparr>) ms'"
proof (induction ms arbitrary: ms' buf)
  case (Cons m ms)
  have eq: "wire_image (with_msg_id m) = m'\<lparr>m_check_sum := 0\<rparr>" if "encodeTinyPB m = Inr (m', b)" for m' b
    using that by (simp add: encodeTinyPB_Inr_iff wire_image_def new_tinypb_def)
  with Cons show ?case by (auto simp: encode_Cons simp del: encode.simps)
qed simp

lemma stream_frames:
  "stream (map (\<lambda>m. ([], m)) ms) [] = concat (map frame_bytes ms)"
  by (induction ms) auto

lemma decode_encoded:
  assumes "encode ms = Inr (ms', buf)" "\<forall>m \<in> set ms. wf_msg m" "int (length buf) < 2 ^ 31"
  shows "decode buf = Some (Inr (map (\<lambda>m. m\<lparr>m_check_sum := 0\<rparr>) ms'))"
proof -
  let ?gms = "map (\<lambda>m. ([] :: string, m)) (map with_msg_id ms)"
  have buf: "buf = stream ?gms []"
    using encode_bytes [OF assms(1)] by (simp only: stream_frames) (simp add: comp_def)
  have wf: "wf_msg (with_msg_id m)" if "wf_msg m" for m
    using that by (auto simp: wf_msg_def with_msg_id_def default_msg_id_def cstr_ok_def)
  have "decode buf = Some (Inr (map (\<lambda>(g, m). wire_image m) ?gms))"
    unfolding buf by (rule decode_stream) (use assms(2,3) wf buf in auto)
  then show ?thesis
    using encode_messages [OF assms(1)] by (simp add: comp_def)
qed

text \<open>
  C1. Round trip of the wire format: whatever \<open>encode\<close> writes for a list of messages whose
  strings fit the decoder's arrays, \<open>decode\<close> reads back as exactly the encoded messages, in
  order and with every field (lengths, error code, payload) equal; only \<open>m_check_sum\<close>, which
  is not on the wire, is reset.
\<close>

theorem decode_encode:
  assumes "encode ms = Inr (ms', buf)" "\<forall>m \<in> set ms. wf_msg m" "int (length buf) < 2 ^ 31"
  shows "decode buf = Some (Inr (map (\<lambda>m. m\<lparr>m_check_sum := 0\<rparr>) ms'))"
  by (rule decode_encoded [OF assms])

theorem decode_encode_witness:
  "\<exists>ms' buf. encode [order_request, order_reply] = Inr (ms', buf) \<and> length buf = 117 \<and>
     decode buf = Some (Inr (map (\<lambda>m. m\<lparr>m_check_sum := 0\<rparr>) ms'))"
proof -
  have "\<exists>ms' buf. encode [order_request, order_reply] = Inr (ms', buf) \<and> length buf = 117"
    by (simp add: encodeTinyPB_def Let_def sample_simps)
  then obtain ms' buf where e: "encode [order_request, order_reply] = Inr (ms', buf)"
    and l: "length buf = 117" by blast
  have "decode buf = Some (Inr (map (\<lambda>m. m\<lparr>m_check_sum := 0\<rparr>) ms'))"
    by (rule decode_encode [OF e]) (simp_all add: l sample_simps)
  with e l show ?thesis by blast
qed

text \<open>
  C14. Exactly when \<open>decode\<close> returns: it fails to return if and only if some head of its
  \<open>while(1)\<close> finds a frame on which the body runs into one of its \<open>continue\<close> statements.
\<close>

theorem decode_None_iff:
  "decode s = None \<longleftrightarrow>
    (\<exists>st. loop_head s (to_int32 (int (length s))) st \<and> stuck_at s (to_int32 (int (length s))) st)"
proof -
  let ?n = "to_int32 (int (length s))"
  have n: "?n < 2 ^ 31"
    using sint_lt [of "word_of_int (int (length s)) :: 32 word"] by (simp add: to_int32_def)
  have none: "decode_loop s ?n st out = None" if "stuck_at s ?n st" for st out
    using stuck_never_returns that by (cases "decode_loop s ?n st out") auto
  show ?thesis
    unfolding decode_def
    using loop_head_None none decode_loop_returns [OF loop_head.start _ n, of s "[]"]
    by (metis option.distinct(1))
qed

lemma decode_empty_frame:
  assumes "\<forall>(g, m) \<in> set gms. PB_START \<notin> set g \<and> wf_msg m" "PB_START \<notin> set h"
    "int (length (stream gms h @ empty_frame @ q)) < 2 ^ 31"
  shows "decode (stream gms h @ empty_frame @ q) = None"
proof -
  let ?s = "stream gms h @ empty_frame @ q"
  have "stuck_at ?s (int (length ?s)) (int (length (stream gms h)))"
    using assms(3) by (intro decode_loop_empty_frame) simp_all
  then have "decode_loop ?s (int (length ?s)) (int (length (stream gms h))) out = None" for out
    using stuck_never_returns
    by (cases "decode_loop ?s (int (length ?s)) (int (length (stream gms h))) out") blast+
  then show ?thesis
    using decode_loop_stream [of ?s "[]" gms h "empty_frame @ q"] assms
    by (simp add: decode_def)
qed

text \<open>
  Six bytes stop the decoder for good: after any frames and any bytes without a start byte,
  the frame \<open>02 00 00 00 06 03\<close> makes \<open>decode\<close> loop forever, so the requests before it are
  never answered either.
\<close>

theorem decode_stream_then_empty_frame:
  assumes "\<forall>(g, m) \<in> set gms. PB_START \<notin> set g \<and> wf_msg m" "PB_START \<notin> set h"
    "int (length (stream gms h @ empty_frame @ q)) < 2 ^ 31"
  shows "decode (stream gms h @ empty_frame @ q) = None"
  by (rule decode_empty_frame [OF assms])

theorem decode_stream_then_empty_frame_witness:
  "decode (stream [(''ab'', order_request)] ''c'' @ empty_frame @ ''tail'') = None"
  by (rule decode_stream_then_empty_frame)
    (simp_all add: sample_simps PB_START_def empty_frame_def)

lemma decode_loop_sound:
  "decode_loop s n st out = Some r \<Longrightarrow> r = Inr ms \<Longrightarrow> n < 2 ^ 31 \<Longrightarrow> 
     \<exists>new. ms = out @ new \<and> (\<forall>m \<in> set new. \<exists>i j pk. parse_packet s i j pk = Inr (Some m)) \<and>
       0 \<le> (\<Sum>m\<leftarrow>new. m_pk_len m) \<and> (\<Sum>m\<leftarrow>new. m_pk_len m) \<le> max 0 (n - st)"
proof (rule decode_loop.raw_induct
    [where P = "\<lambda>s n st out r. \<forall>ms. r = Inr ms \<longrightarrow> n < 2 ^ 31 \<longrightarrow> (\<exists>new. ms = out @ new \<and>
      (\<forall>m \<in> set new. \<exists>i j pk. parse_packet s i j pk = Inr (Some m)) \<and>
      0 \<le> (\<Sum>m\<leftarrow>new. m_pk_len m) \<and> (\<Sum>m\<leftarrow>new. m_pk_len m) \<le> max 0 (n - st))", THEN spec, THEN mp, THEN mp])
  fix f s n st out r
  assume IH: "\<And>s n st out r. f s n st out = Some r \<Longrightarrow> \<forall>ms. r = Inr ms \<longrightarrow> n < 2 ^ 31 \<longrightarrow>
      (\<exists>new. ms = out @ new \<and>
      (\<forall>m \<in> set new. \<exists>i j pk. parse_packet s i j pk = Inr (Some m)) \<and>
      0 \<le> (\<Sum>m\<leftarrow>new. m_pk_len m) \<and> (\<Sum>m\<leftarrow>new. m_pk_len m) \<le> max 0 (n - st))"
    and eq: "(case scan s n st of Inl f \<Rightarrow> Some (Inl f) | Inr None \<Rightarrow> Some (Inr out)
      | Inr (Some (i, j, pk_len)) \<Rightarrow> (case parse_packet s i j pk_len of Inl f \<Rightarrow> Some (Inl f)
          | Inr None \<Rightarrow> f s n i out
          | Inr (Some m) \<Rightarrow> f s n (j + 1) (out @ [m]))) = Some r"
  show "\<forall>ms. r = Inr ms \<longrightarrow> n < 2 ^ 31 \<longrightarrow> (\<exists>new. ms = out @ new \<and>
      (\<forall>m \<in> set new. \<exists>i j pk. parse_packet s i j pk = Inr (Some m)) \<and>
      0 \<le> (\<Sum>m\<leftarrow>new. m_pk_len m) \<and> (\<Sum>m\<leftarrow>new. m_pk_len m) \<le> max 0 (n - st))"
  proof (intro allI impI)
    fix ms assume r: "r = Inr ms" and n: "n < 2 ^ 31"
    consider "scan s n st = Inr None" "ms = out"
      | i j pk where "scan s n st = Inr (Some (i, j, pk))" "parse_packet s i j pk = Inr None"
          "f s n i out = Some (Inr ms)"
      | i j pk m where "scan s n st = Inr (Some (i, j, pk))" "parse_packet s i j pk = Inr (Some m)"
          "f s n (j + 1) (out @ [m]) = Some (Inr ms)"
      using eq r by (auto split: sum.splits option.splits prod.splits)
    then show "\<exists>new. ms = out @ new \<and>
      (\<forall>m \<in> set new. \<exists>i j pk. parse_packet s i j pk = Inr (Some m)) \<and>
      0 \<le> (\<Sum>m\<leftarrow>new. m_pk_len m) \<and> (\<Sum>m\<leftarrow>new. m_pk_len m) \<le> max 0 (n - st)"
    proof cases
      case 1
      then show ?thesis by simp
    next
      case (2 i j pk)
      have "st \<le> i" using scan_SomeD [OF 2(1)] by simp
      with IH [OF 2(3)] n show ?thesis by fastforce
    next
      case (3 i j pk m)
      have i: "st \<le> i" "i < n" "0 \<le> i" and j: "j = i + pk - 1" "j < n"
        using scan_SomeD [OF 3(1)] frame_at_nonneg frame_at_SomeD by blast+
      have "m_pk_len m = pk" "i + 5 < j"
        using parse_packet_Some [OF 3(2)] parse_packet_span [OF 3(2)] i n by auto
      moreover obtain new where "ms = (out @ [m]) @ new"
        "\<forall>m \<in> set new. \<exists>i j pk. parse_packet s i j pk = Inr (Some m)"
        "0 \<le> (\<Sum>m\<leftarrow>new. m_pk_len m)" "(\<Sum>m\<leftarrow>new. m_pk_len m) \<le> max 0 (n - (j + 1))"
        using IH [OF 3(3)] n by blast
      ultimately show ?thesis using i j 3(2) by (intro exI [of _ "m # new"]) auto
    qed
  qed
qed

text \<open>
  C23. Whatever the input, the messages \<open>decode\<close> hands out are consistent: every string is free of
  zero bytes and no longer than the length field that announced it, those lengths fit the
  arrays, each packet length is the sum of its parts, and the packets together are no longer than
  the buffer.
\<close>

theorem decode_sound:
  assumes "decode s = Some (Inr ms)"
  shows "(\<Sum>m\<leftarrow>ms. m_pk_len m) \<le> int (length s) \<and>
    (\<forall>m \<in> set ms. parse_success m \<and> field_ok 100 (m_msg_id_len m) (m_msg_id m) \<and>
       field_ok 512 (m_method_name_len m) (m_method_name m) \<and>
       field_ok 512 (m_err_info_len m) (m_err_info m) \<and>
       m_pk_len m = 26 + m_msg_id_len m + m_method_name_len m + m_err_info_len m
         + int (length (m_pb_data m)))"
proof -
  let ?n = "to_int32 (int (length s))"
  have n: "?n < 2 ^ 31" "max 0 ?n \<le> int (length s)"
    using to_int32_less to_int32_le [of "int (length s)"] by auto
  obtain new where "ms = [] @ new" and P: "\<forall>m \<in> set new. \<exists>i j pk. parse_packet s i j pk = Inr (Some m)"
    and "(\<Sum>m\<leftarrow>new. m_pk_len m) \<le> max 0 (?n - 0)"
    using decode_loop_sound [OF assms [unfolded decode_def] refl n(1)] by blast
  moreover have "parse_success m \<and> field_ok 100 (m_msg_id_len m) (m_msg_id m) \<and>
       field_ok 512 (m_method_name_len m) (m_method_name m) \<and>
       field_ok 512 (m_err_info_len m) (m_err_info m) \<and>
       m_pk_len m = 26 + m_msg_id_len m + m_method_name_len m + m_err_info_len m
         + int (length (m_pb_data m))" if "parse_packet s i j pk = Inr (Some m)" for m i j pk
    using parse_packet_Some [OF that] by auto
  ultimately show ?thesis using n(2) by fastforce
qed

theorem decode_sound_witness:
  "let m = wire_image order_request in
     decode (frame_bytes order_request) = Some (Inr [m]) \<and>
     m_pk_len m \<le> int (length (frame_bytes order_request)) \<and>
     m_pk_len m = 26 + m_msg_id_len m + m_method_name_len m + m_err_info_len m
       + int (length (m_pb_data m))"
proof -
  have d: "decode (frame_bytes order_request) = Some (Inr [wire_image order_request])"
    using decode_stream [of "[([], order_request)]" "[]"] by (simp add: sample_simps)
  show ?thesis using d decode_sound [OF d] by simp
qed

text \<open>
  The encoder puts no bound on the request id but the decoder copies it into \<open>char[100]\<close>:
  a frame that \<open>encode\<close> writes for a longer id makes \<open>decode\<close> write outside the array.
\<close>

theorem decode_long_msg_id_overruns:
  assumes "100 < length (m_msg_id m)" "int (length (frame_bytes m @ q)) < 2 ^ 31"
  shows "decode (frame_bytes m @ q) = Some (Inl BadWrite)"
proof -
  let ?s = "frame_bytes m @ q" and ?n = "int (frame_len m)" and ?i = "int (length (m_msg_id m))"
  have f: "int (frame_len m) = 26 + ?i + int (length (m_method_name m) + length (m_err_info m) + length (m_pb_data m))"
    by (simp add: frame_len_def)
  have "scan ?s (int (length ?s)) 0 = Inr (Some (0, ?n - 1, ?n))"
    using frame_at_mid [of ?s "[]" m q] assms(2) f by (intro scan_hit) simp_all
  moreover have "read_int32 ?s 5 = Inr ?i"
    by (rule read_int32_mid [where p = "[PB_START] @ net32 ?n"]) (use assms(2) f in \<open>simp_all add: frame_bytes_def\<close>)
  then have "parse_packet ?s 0 (?n - 1) ?n = Inl BadWrite"
    using assms f by (simp add: parse_packet_def read_cstr_def Let_def)
  ultimately show ?thesis
    using assms(2) by (simp add: decode_def decode_loop.simps [of ?s "int (frame_len m) + int (length q)" 0])
qed

theorem decode_long_msg_id_overruns_witness:
  "decode (frame_bytes (order_request\<lparr>m_msg_id := replicate 101 CHR ''7''\<rparr>) @ ''rest'') =
     Some (Inl BadWrite)"
  by (rule decode_long_msg_id_overruns) (simp_all add: frame_len_def sample_simps)

lemma decode_cut:
  assumes "s = take k (frame_bytes m)" "5 \<le> k" "k < frame_len m" "int (frame_len m) < 2 ^ 31"
    "PB_START \<notin> set (tl s)"
  shows "decode s = Some (Inr [])"
proof -
  have l: "length s = k" using assms by simp
  obtain t where s: "s = PB_START # net32 (int (frame_len m)) @ t"
  proof -
    obtain u where "frame_bytes m = (PB_START # net32 (int (frame_len m))) @ u"
      by (simp add: frame_bytes_def)
    then have "s = (PB_START # net32 (int (frame_len m))) @ take (k - 5) u"
      using assms(1,2) by (simp add: take_Cons')
    with that show thesis by simp
  qed
  have 1: "c_str_at s 0 = Inr PB_START" by (rule c_str_at_mid [where p = "[]"]) (use s in simp_all)
  have 2: "c_str_slice s 1 4 = Inr (net32 (int (frame_len m)))"
    by (rule c_str_slice_mid [where p = "[PB_START]"]) (use s in simp_all)
  have "frame_at s (int k) 0 = Inr None"
    using assms(2-4) by (simp add: frame_at_def 1 2 getInt32FromNetByte_net32 Let_def)
  then have "scan s (int k) 0 = scan s (int k) 1"
    using assms(2) by (subst scan.simps) simp
  also have "\<dots> = scan s (int k) (int k)"
  proof -
    have "s = [PB_START] @ tl s @ []" using s by simp
    moreover have "length [PB_START] + length (tl s) = k" using s l by simp
    ultimately show ?thesis using scan_skip [of s "[PB_START]" "tl s" "[]" "int k"] assms(5)
      by simp
  qed
  finally have "scan s (int k) 0 = Inr None" by (simp add: scan_end)
  moreover have "to_int32 (int (length s)) = int k" using l assms(3,4) by simp
  ultimately show ?thesis by (simp add: decode_def decode_loop.simps [of s "int k" 0])
qed

text \<open>
  A frame that arrives cut off (at least its length field, no further start byte) yields no
  message and no error: \<open>decode\<close> returns normally with nothing, and keeps nothing for the rest.
\<close>

theorem decode_cut_frame:
  assumes "s = take k (frame_bytes m)" "5 \<le> k" "k < frame_len m" "int (frame_len m) < 2 ^ 31"
    "PB_START \<notin> set (tl s)"
  shows "decode s = Some (Inr [])"
  by (rule decode_cut [OF assms])

theorem decode_cut_frame_witness:
  "decode (take 30 (frame_bytes order_request)) = Some (Inr [])"
proof (rule decode_cut_frame [OF refl])
  show "PB_START \<notin> set (tl (take 30 (frame_bytes order_request)))" by code_simp
qed (simp_all add: sample_simps)

end
