(* ===== verification/Config.thy ===== *)
theory Config
  imports Prelude
begin

text \<open>
  \<open>src/common/config\<close>: the configuration read from an XML file or filled with defaults, and its
  singleton. The XML library is a parameter: which sections the root has, and the text of an element
  of a section (\<^const>\<open>None\<close> when the element or its text is missing).
\<close>

section \<open>State\<close>

record config =
  m_log_level :: string
  m_log_log_file_name :: string
  m_log_file_path :: string
  m_zookeeper_ip :: string
  m_zookeeper_port :: string
  m_port :: int
  m_ip :: string
  m_io_threads :: int
  m_work_threads :: int
  m_enable_sync_log :: bool
  m_log_asyn_flush_time :: int

text \<open>The default configuration; \<open>nprocessors\<close> is \<open>sysconf(_SC_NPROCESSORS_ONLN)\<close>.\<close>

definition default_config :: "int \<Rightarrow> config" where
  "default_config nprocessors =
     \<lparr>m_log_level = ''DEBUG'', m_log_log_file_name = ''RpcLog.txt'', m_log_file_path = [],
      m_zookeeper_ip = ''127.0.0.1'', m_zookeeper_port = ''5000'', m_port = 5000, m_ip = ''127.0.0.1'',
      m_io_threads = nprocessors, m_work_threads = 0, m_enable_sync_log = False, m_log_asyn_flush_time = 3\<rparr>"

section \<open>Reading a file\<close>

type_synonym xml_section = "string \<Rightarrow> string option"

record xml_file =
  xml_loaded :: bool
  xml_root :: bool
  xml_child :: "string \<Rightarrow> xml_section option"

definition READ_XML_NODE :: "string \<Rightarrow> xml_file \<Rightarrow> xml_section res" where
  "READ_XML_NODE name xml = (case xml_child xml name of None \<Rightarrow> Inl Exit | Some s \<Rightarrow> Inr s)"

definition READ_STR_FROM_XML_NODE :: "string \<Rightarrow> xml_section \<Rightarrow> string res" where
  "READ_STR_FROM_XML_NODE name parent = (case parent name of None \<Rightarrow> Inl Exit | Some t \<Rightarrow> Inr t)"

definition config_of_file :: "xml_file \<Rightarrow> config res" where
  "config_of_file xml =
     (if \<not> xml_loaded xml \<or> \<not> xml_root xml then Inl Exit else
      bind_res (READ_XML_NODE ''log'' xml) (\<lambda>log_node.
      bind_res (READ_XML_NODE ''server'' xml) (\<lambda>server_node.
      bind_res (READ_XML_NODE ''zookeeper'' xml) (\<lambda>zookeeper_node.
      bind_res (READ_STR_FROM_XML_NODE ''log_level'' log_node) (\<lambda>log_level.
      bind_res (READ_STR_FROM_XML_NODE ''log_file_name'' log_node) (\<lambda>log_file_name.
      bind_res (READ_STR_FROM_XML_NODE ''log_file_path'' log_node) (\<lambda>log_file_path.
      bind_res (READ_STR_FROM_XML_NODE ''enable_sync_log'' log_node) (\<lambda>enable_sync_log.
      bind_res (READ_STR_FROM_XML_NODE ''log_asyn_flush_time'' log_node) (\<lambda>log_asyn_flush_time.
      bind_res (READ_STR_FROM_XML_NODE ''port'' server_node) (\<lambda>port.
      bind_res (READ_STR_FROM_XML_NODE ''ip'' server_node) (\<lambda>ip.
      bind_res (READ_STR_FROM_XML_NODE ''work_threads'' server_node) (\<lambda>work_threads.
      bind_res (READ_STR_FROM_XML_NODE ''io_threads'' server_node) (\<lambda>io_threads.
      bind_res (READ_STR_FROM_XML_NODE ''zookeeperip'' zookeeper_node) (\<lambda>zookeeperip.
      bind_res (READ_STR_FROM_XML_NODE ''zookeeperport'' zookeeper_node) (\<lambda>zookeeperport.
      bind_res (atoi port) (\<lambda>port_n.
      bind_res (atoi io_threads) (\<lambda>io_n.
      bind_res (atoi work_threads) (\<lambda>work_n.
      bind_res (atoi log_asyn_flush_time) (\<lambda>flush_n.
      if io_n \<noteq> 0 \<and> port_n \<noteq> 0 \<and> flush_n \<noteq> 0 \<and> work_n \<noteq> 0 then
        Inr \<lparr>m_log_level = log_level, m_log_log_file_name = log_file_name, m_log_file_path = log_file_path,
             m_zookeeper_ip = zookeeperip, m_zookeeper_port = zookeeperport, m_port = port_n, m_ip = zookeeperip,
             m_io_threads = io_n, m_work_threads = work_n, m_enable_sync_log = (enable_sync_log = ''true''),
             m_log_asyn_flush_time = flush_n\<rparr>
      else Inl Exit)))))))))))))))))))"

section \<open>The singleton\<close>

definition GetGlobalConfig :: "int \<Rightarrow> config option \<Rightarrow> config \<times> config option" where
  "GetGlobalConfig nprocessors g =
     (case g of None \<Rightarrow> (default_config nprocessors, Some (default_config nprocessors)) | Some c \<Rightarrow> (c, Some c))"

definition InitConfig :: "xml_file \<Rightarrow> config option \<Rightarrow> config option res" where
  "InitConfig xml g =
     (case g of None \<Rightarrow> bind_res (config_of_file xml) (\<lambda>c. Inr (Some c)) | Some c \<Rightarrow> Inr (Some c))"

section \<open>Properties\<close>

text \<open>A complete file, by its texts.\<close>

definition log_names :: "string list" where
  "log_names = [''log_level'', ''log_file_name'', ''log_file_path'', ''enable_sync_log'', ''log_asyn_flush_time'']"

definition server_names :: "string list" where
  "server_names = [''port'', ''ip'', ''work_threads'', ''io_threads'']"

definition zookeeper_names :: "string list" where
  "zookeeper_names = [''zookeeperip'', ''zookeeperport'']"

definition complete :: "xml_file \<Rightarrow> bool" where
  "complete xml \<longleftrightarrow> xml_loaded xml \<and> xml_root xml \<and>
     list_all (\<lambda>(s, names). case xml_child xml s of None \<Rightarrow> False | Some f \<Rightarrow> list_all (\<lambda>n. f n \<noteq> None) names)
       [(''log'', log_names), (''server'', server_names), (''zookeeper'', zookeeper_names)]"

definition xml_text :: "xml_file \<Rightarrow> string \<Rightarrow> string \<Rightarrow> string" where
  "xml_text xml s n = the (the (xml_child xml s) n)"

lemma READ_XML_NODE_Inr: "READ_XML_NODE n xml = Inr s \<longleftrightarrow> xml_child xml n = Some s"
  by (auto simp: READ_XML_NODE_def split: option.split)

lemma READ_STR_Inr: "READ_STR_FROM_XML_NODE n s = Inr t \<longleftrightarrow> s n = Some t"
  by (auto simp: READ_STR_FROM_XML_NODE_def split: option.split)

lemma config_loaded:
  assumes "config_of_file xml = Inr c"
  shows "complete xml" "m_port c \<noteq> 0" "m_io_threads c \<noteq> 0" "m_work_threads c \<noteq> 0" "m_log_asyn_flush_time c \<noteq> 0"
    "m_ip c = xml_text xml ''zookeeper'' ''zookeeperip''" "m_zookeeper_ip c = xml_text xml ''zookeeper'' ''zookeeperip''"
    "atoi (xml_text xml ''server'' ''port'') = Inr (m_port c)"
    "atoi (xml_text xml ''server'' ''io_threads'') = Inr (m_io_threads c)"
    "atoi (xml_text xml ''server'' ''work_threads'') = Inr (m_work_threads c)"
    "m_log_level c = xml_text xml ''log'' ''log_level''"
    "m_enable_sync_log c \<longleftrightarrow> xml_text xml ''log'' ''enable_sync_log'' = ''true''"
  using assms
  by (auto simp: config_of_file_def bind_res_Inr READ_XML_NODE_Inr READ_STR_Inr complete_def xml_text_def
      log_names_def server_names_def zookeeper_names_def split: if_splits)

lemma READ_Inl:
  "READ_XML_NODE n xml = Inl e \<longleftrightarrow> e = Exit \<and> xml_child xml n = None"
  "READ_STR_FROM_XML_NODE n s = Inl e \<longleftrightarrow> e = Exit \<and> s n = None"
  by (auto simp: READ_XML_NODE_def READ_STR_FROM_XML_NODE_def split: option.split)

lemma config_from_texts:
  assumes "complete xml \<Longrightarrow> atoi (xml_text xml ''server'' ''port'') = Inr port"
    and "complete xml \<Longrightarrow> atoi (xml_text xml ''server'' ''io_threads'') = Inr io_n"
    and "complete xml \<Longrightarrow> atoi (xml_text xml ''server'' ''work_threads'') = Inr work_n"
    and "complete xml \<Longrightarrow> atoi (xml_text xml ''log'' ''log_asyn_flush_time'') = Inr flush_n"
  shows "config_of_file xml =
    (if complete xml \<and> port \<noteq> 0 \<and> io_n \<noteq> 0 \<and> work_n \<noteq> 0 \<and> flush_n \<noteq> 0 then
       Inr \<lparr>m_log_level = xml_text xml ''log'' ''log_level'', m_log_log_file_name = xml_text xml ''log'' ''log_file_name'',
         m_log_file_path = xml_text xml ''log'' ''log_file_path'',
         m_zookeeper_ip = xml_text xml ''zookeeper'' ''zookeeperip'',
         m_zookeeper_port = xml_text xml ''zookeeper'' ''zookeeperport'', m_port = port,
         m_ip = xml_text xml ''zookeeper'' ''zookeeperip'', m_io_threads = io_n, m_work_threads = work_n,
         m_enable_sync_log = (xml_text xml ''log'' ''enable_sync_log'' = ''true''), m_log_asyn_flush_time = flush_n\<rparr>
     else Inl Exit)"
proof (cases "complete xml")
  case True
  then obtain l s z where c: "xml_child xml ''log'' = Some l" "xml_child xml ''server'' = Some s"
    "xml_child xml ''zookeeper'' = Some z" "xml_loaded xml" "xml_root xml"
    "list_all (\<lambda>n. l n \<noteq> None) log_names" "list_all (\<lambda>n. s n \<noteq> None) server_names"
    "list_all (\<lambda>n. z n \<noteq> None) zookeeper_names"
    by (auto simp: complete_def split: option.splits)
  have r: "READ_STR_FROM_XML_NODE n l = Inr (the (l n))" if "n \<in> set log_names" for n
    using c(6) that by (auto simp: list_all_iff READ_STR_Inr)
  have s: "READ_STR_FROM_XML_NODE n s = Inr (the (s n))" if "n \<in> set server_names" for n
    using c(7) that by (auto simp: list_all_iff READ_STR_Inr)
  have z: "READ_STR_FROM_XML_NODE n z = Inr (the (z n))" if "n \<in> set zookeeper_names" for n
    using c(8) that by (auto simp: list_all_iff READ_STR_Inr)
  have x: "READ_XML_NODE ''log'' xml = Inr l" "READ_XML_NODE ''server'' xml = Inr s" "READ_XML_NODE ''zookeeper'' xml = Inr z"
    using c(1-3) by (simp_all add: READ_XML_NODE_Inr)
  note t = assms [OF True, unfolded xml_text_def c(1-3) option.sel]
  show ?thesis
    unfolding config_of_file_def xml_text_def c(1-3) option.sel x
    using True c(4,5) t
    by (simp add: r s z log_names_def server_names_def zookeeper_names_def)
next
  case False
  have "config_of_file xml = Inl Exit"
  proof (cases "config_of_file xml")
    case (Inl f)
    have "f = Exit \<or> complete xml"
      using Inl unfolding config_of_file_def bind_res_Inl bind_res_Inr READ_Inl READ_XML_NODE_Inr READ_STR_Inr
      by (auto simp: bind_res_Inl READ_Inl READ_XML_NODE_Inr READ_STR_Inr complete_def
          log_names_def server_names_def zookeeper_names_def split: if_splits)
    with False Inl show ?thesis by simp
  next
    case (Inr c)
    with config_loaded(1) [OF Inr] False show ?thesis by simp
  qed
  with False show ?thesis by simp
qed

text \<open>
  The configuration a file gives: every value is the text of its element, numbers as \<open>atoi\<close> reads
  them, except that the server's own \<open>ip\<close> is ignored and \<open>m_ip\<close> is the address of ZooKeeper; the
  process ends when an element is missing or one of the four numbers is zero.
\<close>

theorem config_from_file:
  assumes "complete xml \<Longrightarrow> atoi (xml_text xml ''server'' ''port'') = Inr port"
    and "complete xml \<Longrightarrow> atoi (xml_text xml ''server'' ''io_threads'') = Inr io_n"
    and "complete xml \<Longrightarrow> atoi (xml_text xml ''server'' ''work_threads'') = Inr work_n"
    and "complete xml \<Longrightarrow> atoi (xml_text xml ''log'' ''log_asyn_flush_time'') = Inr flush_n"
  shows "config_of_file xml =
    (if complete xml \<and> port \<noteq> 0 \<and> io_n \<noteq> 0 \<and> work_n \<noteq> 0 \<and> flush_n \<noteq> 0 then
       Inr \<lparr>m_log_level = xml_text xml ''log'' ''log_level'', m_log_log_file_name = xml_text xml ''log'' ''log_file_name'',
         m_log_file_path = xml_text xml ''log'' ''log_file_path'',
         m_zookeeper_ip = xml_text xml ''zookeeper'' ''zookeeperip'',
         m_zookeeper_port = xml_text xml ''zookeeper'' ''zookeeperport'', m_port = port,
         m_ip = xml_text xml ''zookeeper'' ''zookeeperip'', m_io_threads = io_n, m_work_threads = work_n,
         m_enable_sync_log = (xml_text xml ''log'' ''enable_sync_log'' = ''true''), m_log_asyn_flush_time = flush_n\<rparr>
     else Inl Exit)"
  using config_from_texts [OF assms] .

text \<open>The configuration of the repository's test, for the witnesses.\<close>

definition sample_xml :: "string \<Rightarrow> xml_file" where
  "sample_xml port = \<lparr>xml_loaded = True, xml_root = True, xml_child = map_of
     [(''log'', map_of [(''log_level'', ''DEBUG''), (''log_file_name'', ''log.txt''), (''log_file_path'', ''./''),
         (''enable_sync_log'', ''true''), (''log_asyn_flush_time'', ''3'')]),
      (''server'', map_of [(''port'', port), (''ip'', ''10.0.0.7''), (''work_threads'', ''4''), (''io_threads'', ''2'')]),
      (''zookeeper'', map_of [(''zookeeperip'', ''10.0.0.1''), (''zookeeperport'', ''2181'')])]\<rparr>"

lemma atoi_digit: "k < 10 \<Longrightarrow> atoi [digit k] = Inr (int k)"
  using atoi_dec_str [of k] by (simp add: dec_str.simps [of k])

lemma sample_complete: "complete (sample_xml p)"
  by (simp add: complete_def sample_xml_def log_names_def server_names_def zookeeper_names_def)

lemma sample_texts:
  "xml_text (sample_xml p) ''server'' ''port'' = p" "atoi (xml_text (sample_xml p) ''server'' ''io_threads'') = Inr 2"
  "atoi (xml_text (sample_xml p) ''server'' ''work_threads'') = Inr 4"
  "atoi (xml_text (sample_xml p) ''log'' ''log_asyn_flush_time'') = Inr 3"
  "xml_text (sample_xml p) ''zookeeper'' ''zookeeperip'' = ''10.0.0.1''" "atoi ''8'' = Inr 8" "atoi ''0'' = Inr 0"
proof -
  have d: "''8'' = [digit 8]" "''0'' = [digit 0]" "''2'' = [digit 2]" "''4'' = [digit 4]" "''3'' = [digit 3]"
    by (simp_all add: digit_eqI [symmetric])
  have a: "atoi ''8'' = Inr 8" "atoi ''0'' = Inr 0" "atoi ''2'' = Inr 2" "atoi ''4'' = Inr 4" "atoi ''3'' = Inr 3"
    unfolding d by (simp_all add: atoi_digit)
  show "xml_text (sample_xml p) ''server'' ''port'' = p" "atoi (xml_text (sample_xml p) ''server'' ''io_threads'') = Inr 2"
    "atoi (xml_text (sample_xml p) ''server'' ''work_threads'') = Inr 4"
    "atoi (xml_text (sample_xml p) ''log'' ''log_asyn_flush_time'') = Inr 3"
    "xml_text (sample_xml p) ''zookeeper'' ''zookeeperip'' = ''10.0.0.1''" "atoi ''8'' = Inr 8" "atoi ''0'' = Inr 0"
    by (simp_all add: xml_text_def sample_xml_def a)
qed

lemma sample_config: "\<exists>c. config_of_file (sample_xml ''8'') = Inr c \<and> m_port c = 8"
  using config_from_texts [of "sample_xml ''8''" 8 2 4 3] by (simp add: sample_texts sample_complete)

theorem config_from_file_witness:
  "\<exists>c. config_of_file (sample_xml ''8'') = Inr c \<and> m_port c = 8 \<and> m_ip c = ''10.0.0.1'' \<and>
     config_of_file (sample_xml ''0'') = Inl Exit"
  using config_from_file [of "sample_xml ''8''" 8 2 4 3] config_from_file [of "sample_xml ''0''" 0 2 4 3]
  by (simp add: sample_texts sample_complete)

end
