(* ===== verification/ZkClient.thy ===== *)
theory ZkClient
  imports Prelude
begin

text \<open>
  \<open>src/common/zookeeperutil\<close>: the session start with its watcher, creation of nodes and reading of
  a node. ZooKeeper itself is a parameter, a record of its calls over a state of any type; what the
  client relies on of it is \<open>zk_spec\<close>.
\<close>

section \<open>Session\<close>

text \<open>
  \<open>global_watcher\<close> posts the semaphore that is the session's context. Before \<open>zoo_set_context\<close> there
  is none; after \<open>Start\<close> has returned it is a dead local variable of that call.
\<close>

datatype zk_event = SessionConnected | SessionOther | NodeEvent

datatype zk_context = NoContext | Semaphore nat | DeadSemaphore

fun global_watcher :: "zk_event \<Rightarrow> zk_context \<Rightarrow> zk_context res" where
  "global_watcher SessionConnected NoContext = Inl NullPointer"
| "global_watcher SessionConnected (Semaphore n) = Inr (Semaphore (n + 1))"
| "global_watcher SessionConnected DeadSemaphore = Inl BadWrite"
| "global_watcher e c = Inr c"

fun watch_all :: "zk_event list \<Rightarrow> zk_context \<Rightarrow> zk_context res" where
  "watch_all [] c = Inr c"
| "watch_all (e # es) c = bind_res (global_watcher e c) (watch_all es)"

text \<open>\<open>sem_wait\<close> with the events that arrive meanwhile; \<^const>\<open>None\<close>: still waiting.\<close>

fun sem_wait :: "zk_event list \<Rightarrow> zk_context \<Rightarrow> zk_event list res option" where
  "sem_wait es (Semaphore (Suc n)) = Some (Inr es)"
| "sem_wait [] c = None"
| "sem_wait (e # es) c =
     (case global_watcher e c of Inl f \<Rightarrow> Some (Inl f) | Inr c' \<Rightarrow> sem_wait es c')"

text \<open>
  \<open>initialised\<close>: \<open>zookeeper_init\<close> gives a handle; \<open>early\<close> are the events delivered before
  \<open>zoo_set_context\<close>, \<open>late\<close> all later ones, of which those not needed are handled after the return.
\<close>

definition zk_Start :: "bool \<Rightarrow> zk_event list \<Rightarrow> zk_event list \<Rightarrow> zk_context res option" where
  "zk_Start initialised early late =
     (if \<not> initialised then Some (Inl Exit)
      else case watch_all early NoContext of
        Inl f \<Rightarrow> Some (Inl f)
      | Inr _ \<Rightarrow>
          map_option (\<lambda>r. bind_res r (\<lambda>rest. watch_all rest DeadSemaphore)) (sem_wait late (Semaphore 0)))"

section \<open>Nodes\<close>

datatype zk_ret = ZOK | ZNONODE | ZNODEEXISTS | ZOther

record 'z zk_api =
  zoo_exists :: "string \<Rightarrow> 'z \<Rightarrow> zk_ret"
  zoo_create :: "string \<Rightarrow> string option \<Rightarrow> bool \<Rightarrow> 'z \<Rightarrow> zk_ret \<times> 'z"

text \<open>
  \<open>Create\<close> asks and then creates: \<open>others\<close> is what other clients do to the tree in between. The
  flag is \<open>ZOO_EPHEMERAL\<close>.
\<close>

definition zk_Create :: "'z zk_api \<Rightarrow> ('z \<Rightarrow> 'z) \<Rightarrow> string \<Rightarrow> string option \<Rightarrow> bool \<Rightarrow> 'z \<Rightarrow> 'z res" where
  "zk_Create zk others path data ephemeral z =
     (if zoo_exists zk path z = ZNONODE then
        (let (flag, z') = zoo_create zk path data ephemeral (others z) in
         if flag = ZOK then Inr z' else Inl Exit)
      else Inr z)"

text \<open>
  \<open>GetData\<close>: \<open>zoo_get\<close> stores the node's bytes (at most 64) without a terminator in an
  uninitialised \<open>char[64]\<close>, whose bytes are \<open>junk\<close>; the result is the C string there. \<^const>\<open>None\<close> is
  an answer other than \<open>ZOK\<close>.
\<close>

definition GetData :: "string \<Rightarrow> string option \<Rightarrow> string res" where
  "GetData junk node =
     (case node of
        None \<Rightarrow> Inr []
      | Some data \<Rightarrow>
          let d = take 64 data; b = d @ drop (length d) (take 64 junk) in
          if NUL \<in> set b then Inr (takeWhile (\<lambda>c. c \<noteq> NUL) b) else Inl BadRead)"

lemma GetData_terminated:
  assumes "length data < 64" "length junk = 64" "junk ! length data = NUL" "NUL \<notin> set data"
  shows "GetData junk (Some data) = Inr data"
proof -
  have "drop (length data) junk = NUL # drop (Suc (length data)) junk"
    using assms by (simp add: Cons_nth_drop_Suc [symmetric])
  then show ?thesis
    using assms by (simp add: GetData_def Let_def takeWhile_pad)
qed

section \<open>What ZooKeeper promises\<close>

text \<open>
  \<open>tree z\<close> maps the path of every node to its data. A node can be created when there is none of its
  path and its parent exists (the root always does).
\<close>

definition parent_in :: "string set \<Rightarrow> string \<Rightarrow> bool" where
  "parent_in P path \<longleftrightarrow> (\<exists>dir name. path = dir @ ''/'' @ name \<and> CHR ''/'' \<notin> set name \<and> name \<noteq> [] \<and>
     (dir = [] \<or> dir \<in> P))"

definition zk_spec :: "'z zk_api \<Rightarrow> ('z \<Rightarrow> (string, string option) map) \<Rightarrow> bool" where
  "zk_spec zk tree \<longleftrightarrow>
     (\<forall>p z. zoo_exists zk p z = (if p \<in> dom (tree z) then ZOK else ZNONODE)) \<and>
     (\<forall>p d e z. case zoo_create zk p d e z of (r, z') \<Rightarrow>
        if p \<in> dom (tree z) then r = ZNODEEXISTS \<and> z' = z
        else if parent_in (dom (tree z)) p then r = ZOK \<and> tree z' = (tree z)(p \<mapsto> d)
        else r \<noteq> ZOK)"

lemma zk_exists_spec: "zk_spec zk tree \<Longrightarrow> zoo_exists zk p z = ZNONODE \<longleftrightarrow> tree z p = None"
  by (auto simp: zk_spec_def)

lemma zk_create_spec:
  assumes "zk_spec zk tree"
  shows "tree z p \<noteq> None \<Longrightarrow> zoo_create zk p d e z = (ZNODEEXISTS, z)"
    "tree z p = None \<Longrightarrow> parent_in (dom (tree z)) p \<Longrightarrow>
       \<exists>z'. zoo_create zk p d e z = (ZOK, z') \<and> tree z' = (tree z)(p \<mapsto> d)"
proof -
  have c: "case zoo_create zk p d e z of (r, z') \<Rightarrow>
        if p \<in> dom (tree z) then r = ZNODEEXISTS \<and> z' = z
        else if parent_in (dom (tree z)) p then r = ZOK \<and> tree z' = (tree z)(p \<mapsto> d)
        else r \<noteq> ZOK"
    using assms by (simp add: zk_spec_def)
  show "tree z p \<noteq> None \<Longrightarrow> zoo_create zk p d e z = (ZNODEEXISTS, z)"
    using c by (cases "zoo_create zk p d e z") (auto simp: domIff)
  show "tree z p = None \<Longrightarrow> parent_in (dom (tree z)) p \<Longrightarrow>
       \<exists>z'. zoo_create zk p d e z = (ZOK, z') \<and> tree z' = (tree z)(p \<mapsto> d)"
    using c by (cases "zoo_create zk p d e z") (auto simp: domIff)
qed

text \<open>One node, and then a list of nodes: the tree gains those that were not there.\<close>

lemma zk_Create_alone:
  assumes "zk_spec zk tree" "parent_in (dom (tree z)) p"
  shows "\<exists>z'. zk_Create zk (\<lambda>z. z) p d e z = Inr z' \<and> tree z' = [p \<mapsto> d] ++ tree z"
proof (cases "tree z p")
  case None
  from zk_create_spec(2) [OF assms(1) None assms(2)] obtain z' where
    "zoo_create zk p d e z = (ZOK, z')" "tree z' = (tree z)(p \<mapsto> d)" by blast
  moreover have "(tree z)(p \<mapsto> d) = [p \<mapsto> d] ++ tree z"
    using None by (auto simp: map_add_def fun_eq_iff split: option.split)
  ultimately show ?thesis
    using None zk_exists_spec [OF assms(1)] by (simp add: zk_Create_def)
next
  case (Some x)
  then have "[p \<mapsto> d] ++ tree z = tree z"
    by (auto simp: map_add_def fun_eq_iff split: option.split)
  then show ?thesis
    using Some zk_exists_spec [OF assms(1)] by (simp add: zk_Create_def)
qed

fun create_all :: "'z zk_api \<Rightarrow> ('z \<Rightarrow> 'z) \<Rightarrow> (string \<times> string option \<times> bool) list \<Rightarrow> 'z \<Rightarrow> 'z res" where
  "create_all zk others [] z = Inr z"
| "create_all zk others ((p, d, e) # ns) z =
     bind_res (zk_Create zk others p d e z) (create_all zk others ns)"

lemma create_all_append:
  "create_all zk others (ns @ ms) z = bind_res (create_all zk others ns z) (create_all zk others ms)"
proof (induction ns arbitrary: z)
  case (Cons n ns)
  obtain p d e where "n = (p, d, e)" by (cases n)
  with Cons.IH show ?case by (cases "zk_Create zk others p d e z") simp_all
qed simp

fun parents_ok :: "string set \<Rightarrow> (string \<times> string option \<times> bool) list \<Rightarrow> bool" where
  "parents_ok P [] = True"
| "parents_ok P ((p, d, e) # ns) \<longleftrightarrow> parent_in P p \<and> parents_ok (insert p P) ns"

definition node_data :: "string \<times> string option \<times> bool \<Rightarrow> string \<times> string option" where
  "node_data n = (fst n, fst (snd n))"

lemma create_all_alone:
  assumes "zk_spec zk tree" "parents_ok (dom (tree z)) ns"
  shows "\<exists>z'. create_all zk (\<lambda>z. z) ns z = Inr z' \<and> tree z' = map_of (map node_data ns) ++ tree z"
  using assms(2)
proof (induction ns arbitrary: z)
  case (Cons n ns)
  obtain p d e where n: "n = (p, d, e)" by (cases n)
  obtain z1 where z1: "zk_Create zk (\<lambda>z. z) p d e z = Inr z1" "tree z1 = [p \<mapsto> d] ++ tree z"
    using zk_Create_alone [OF assms(1)] Cons.prems n by fastforce
  have "dom (tree z1) = insert p (dom (tree z))" by (simp add: z1(2))
  with Cons.IH [of z1] Cons.prems n obtain z' where z': "create_all zk (\<lambda>z. z) ns z1 = Inr z'"
    "tree z' = map_of (map node_data ns) ++ tree z1" by auto
  have "tree z' = map_of (map node_data (n # ns)) ++ tree z"
    unfolding z'(2) z1(2) by (rule ext) (simp add: n node_data_def map_add_def split: option.split)
  moreover have "create_all zk (\<lambda>z. z) (n # ns) z = Inr z'" using z1(1) z'(1) n by simp
  ultimately show ?case by blast
qed simp

lemma parent_in_mono: "parent_in P p \<Longrightarrow> P \<subseteq> Q \<Longrightarrow> parent_in Q p"
  unfolding parent_in_def by blast

lemma parents_ok_mono: "parents_ok P ns \<Longrightarrow> P \<subseteq> Q \<Longrightarrow> parents_ok Q ns"
proof (induction ns arbitrary: P Q)
  case (Cons n ns)
  obtain p d e where "n = (p, d, e)" by (cases n)
  with Cons.prems Cons.IH [of "insert p P" "insert p Q"] show ?case
    by (auto intro: parent_in_mono)
qed simp

section \<open>Properties\<close>

lemma watch_dead: "SessionConnected \<in> set es \<Longrightarrow> watch_all es DeadSemaphore = Inl BadWrite"
proof (induction es)
  case (Cons e es)
  then show ?case by (cases e) auto
qed simp

lemma sem_wait_split:
  "SessionConnected \<notin> set es \<Longrightarrow> sem_wait (es @ SessionConnected # rest) (Semaphore 0) = Some (Inr rest)"
proof (induction es)
  case (Cons e es)
  then show ?case by (cases e) auto
next
  case Nil
  show ?case by (cases rest) simp_all
qed

lemma sem_wait_never: "SessionConnected \<notin> set es \<Longrightarrow> sem_wait es (Semaphore 0) = None"
proof (induction es)
  case (Cons e es)
  then show ?case by (cases e) auto
qed simp

lemma watch_early: "watch_all es NoContext = (if SessionConnected \<in> set es then Inl NullPointer else Inr NoContext)"
proof (induction es)
  case (Cons e es)
  then show ?case by (cases e) auto
qed simp

text \<open>
  The whole life of a session: with a handle, \<open>Start\<close> returns exactly when a connected event
  arrives after the context was set; one that is delivered before that dereferences a null
  pointer; and any later reconnection of the session posts the semaphore on the stack of the
  call that has returned.
\<close>

theorem zk_session:
  "zk_Start True early late =
     (if SessionConnected \<in> set early then Some (Inl NullPointer)
      else if count_list late SessionConnected = 0 then None
      else if count_list late SessionConnected = 1 then Some (Inr DeadSemaphore)
      else Some (Inl BadWrite))"
proof (cases "SessionConnected \<in> set late")
  case False
  then show ?thesis
    by (simp add: zk_Start_def watch_early sem_wait_never)
next
  case True
  then obtain a b where l: "late = a @ SessionConnected # b" "SessionConnected \<notin> set a"
    by (meson split_list_first)
  then have c: "count_list late SessionConnected = 1 + count_list b SessionConnected"
    by simp
  have "watch_all b DeadSemaphore = Inr DeadSemaphore" if "SessionConnected \<notin> set b"
    using that
  proof (induction b)
    case (Cons e es)
    then show ?case by (cases e) auto
  qed simp
  with watch_dead [of b] c show ?thesis
    by (simp add: zk_Start_def watch_early l(1) sem_wait_split [OF l(2)] count_list_0_iff)
qed

text \<open>
  \<open>Create\<close> when another server creates the same node at the same time: if the node appears
  between the two calls, the process ends, although the node it wanted is there.
\<close>

theorem create_race_exits:
  assumes "zk_spec zk tree" "tree z path = None" "tree (others z) path \<noteq> None"
  shows "zk_Create zk others path data e z = Inl Exit"
  using assms zk_exists_spec [OF assms(1)] zk_create_spec(1) [OF assms(1,3)]
  by (simp add: zk_Create_def)

text \<open>A tree kept as a map, for the witnesses.\<close>

definition map_zk :: "(string, string option) map zk_api" where
  "map_zk = \<lparr>zoo_exists = (\<lambda>p z. if p \<in> dom z then ZOK else ZNONODE),
     zoo_create = (\<lambda>p d e z. if p \<in> dom z then (ZNODEEXISTS, z)
       else if parent_in (dom z) p then (ZOK, z(p \<mapsto> d)) else (ZNONODE, z))\<rparr>"

lemma map_zk_spec: "zk_spec map_zk (\<lambda>z. z)"
  by (auto simp: zk_spec_def map_zk_def)

theorem create_race_exits_witness:
  "zk_Create map_zk (\<lambda>z. z(''/Order'' \<mapsto> None)) ''/Order'' None False (\<lambda>_. None) = Inl Exit"
  by (rule create_race_exits [OF map_zk_spec]) simp_all

end
