(* ===== verification/StdMap.thy ===== *)
theory StdMap
  imports Prelude "HOL-Library.List_Lexorder" "HOL-Library.Char_ord"
begin

text \<open>
  \<open>std::map\<close> as the code uses it: a list of key/value pairs in strictly increasing key order,
  with \<open>operator[]\<close> assignment, \<open>find\<close>, \<open>erase(key)\<close> and iteration from \<open>begin()\<close> to
  \<open>end()\<close>. The contract its users rely on is the locale \<open>keyed_store\<close>.
\<close>

section \<open>Operations\<close>

type_synonym ('k, 'v) smap = "('k \<times> 'v) list"

fun smap_set :: "'k::linorder \<Rightarrow> 'v \<Rightarrow> ('k, 'v) smap \<Rightarrow> ('k, 'v) smap" where
  "smap_set k v [] = [(k, v)]"
| "smap_set k v ((a, b) # xs) =
     (if k < a then (k, v) # (a, b) # xs
      else if k = a then (k, v) # xs
      else (a, b) # smap_set k v xs)"

definition smap_find :: "'k \<Rightarrow> ('k, 'v) smap \<Rightarrow> 'v option" where
  "smap_find k xs = map_of xs k"

fun smap_erase :: "'k::linorder \<Rightarrow> ('k, 'v) smap \<Rightarrow> ('k, 'v) smap" where
  "smap_erase k [] = []"
| "smap_erase k ((a, b) # xs) =
     (if k < a then (a, b) # xs else if k = a then xs else (a, b) # smap_erase k xs)"

definition smap_inv :: "('k::linorder, 'v) smap \<Rightarrow> bool" where
  "smap_inv xs \<longleftrightarrow> sorted_wrt (<) (map fst xs)"

section \<open>The contract of a keyed store\<close>

locale keyed_store =
  fixes inv :: "'m \<Rightarrow> bool"
    and lookup :: "'k \<Rightarrow> 'm \<Rightarrow> 'v option"
    and set_key :: "'k \<Rightarrow> 'v \<Rightarrow> 'm \<Rightarrow> 'm"
    and erase_key :: "'k \<Rightarrow> 'm \<Rightarrow> 'm"
    and empty_store :: 'm
  assumes inv_empty: "inv empty_store"
    and inv_set: "inv m \<Longrightarrow> inv (set_key k v m)"
    and inv_erase: "inv m \<Longrightarrow> inv (erase_key k m)"
    and lookup_empty: "lookup k empty_store = None"
    and lookup_set: "inv m \<Longrightarrow> lookup k' (set_key k v m) = (if k' = k then Some v else lookup k' m)"
    and lookup_erase: "inv m \<Longrightarrow> lookup k' (erase_key k m) = (if k' = k then None else lookup k' m)"
begin

lemmas store_laws = inv_empty inv_set inv_erase lookup_empty lookup_set lookup_erase

lemma inv_set_all: "inv m \<Longrightarrow> inv (fold (\<lambda>(k, v). set_key k v) kvs m)"
  by (induction kvs arbitrary: m) (auto simp: store_laws)

lemma lookup_set_all:
  "inv m \<Longrightarrow> lookup k (fold (\<lambda>(k, v). set_key k v) kvs m) =
     (case map_of (rev kvs) k of None \<Rightarrow> lookup k m | Some v \<Rightarrow> Some v)"
  by (induction kvs arbitrary: m) (auto simp: store_laws map_add_def split: option.splits)

lemma inv_erase_all: "inv m \<Longrightarrow> inv (fold erase_key ks m)"
  by (induction ks arbitrary: m) (auto simp: store_laws)

lemma lookup_erase_all:
  "inv m \<Longrightarrow> lookup k (fold erase_key ks m) = (if k \<in> set ks then None else lookup k m)"
  by (induction ks arbitrary: m) (auto simp: store_laws)

end

section \<open>The model satisfies it\<close>

lemma keys_smap_set: "fst ` set (smap_set k v xs) = insert k (fst ` set xs)"
  by (induction k v xs rule: smap_set.induct) auto

lemma keys_smap_erase: "fst ` set (smap_erase k xs) \<subseteq> fst ` set xs"
  by (induction k xs rule: smap_erase.induct) auto

lemma smap_inv_Nil [simp]: "smap_inv []"
  by (simp add: smap_inv_def)

lemma smap_inv_Cons [simp]:
  "smap_inv ((a, b) # xs) \<longleftrightarrow> (\<forall>x \<in> fst ` set xs. a < x) \<and> smap_inv xs"
  by (auto simp: smap_inv_def)

lemma smap_inv_set: "smap_inv xs \<Longrightarrow> smap_inv (smap_set k v xs)"
  by (induction k v xs rule: smap_set.induct)
    (auto simp: keys_smap_set simp del: ball_simps image_iff intro: less_trans bspec [rotated])

lemma smap_inv_erase: "smap_inv xs \<Longrightarrow> smap_inv (smap_erase k xs)"
  by (induction k xs rule: smap_erase.induct) (use keys_smap_erase in fastforce)+

lemma map_of_below:
  "\<forall>x \<in> fst ` set xs. a < x \<Longrightarrow> k \<le> a \<Longrightarrow> map_of xs (k :: 'k::linorder) = None"
  by (induction xs) auto

lemma smap_find_set:
  "smap_find k' (smap_set k v xs) = (if k' = k then Some v else smap_find k' xs)"
  unfolding smap_find_def by (induction k v xs rule: smap_set.induct) auto

lemma smap_find_erase:
  "smap_inv xs \<Longrightarrow> smap_find k' (smap_erase k xs) = (if k' = k then None else smap_find k' xs)"
  unfolding smap_find_def
  by (induction k xs rule: smap_erase.induct) (auto simp: map_of_below)

interpretation sm: keyed_store smap_inv smap_find smap_set smap_erase "[]"
  by (unfold_locales, simp_all only: smap_inv_Nil smap_inv_set smap_inv_erase
      smap_find_set smap_find_erase) (simp_all add: smap_find_def)

lemma smap_find_filter:
  "smap_inv xs \<Longrightarrow> smap_find k (filter P xs) =
     (case smap_find k xs of None \<Rightarrow> None | Some v \<Rightarrow> if P (k, v) then Some v else None)"
  unfolding smap_find_def
proof (induction xs)
  case (Cons x xs)
  then show ?case
    by (cases x) (auto simp: map_of_below split: option.splits)
qed simp

lemma smap_inv_filter: "smap_inv xs \<Longrightarrow> smap_inv (filter P xs)"
proof (induction xs)
  case (Cons x xs)
  then show ?case by (cases x) auto
qed simp

end
