(* ===== verification/Controller.thy ===== *)
theory Controller
  imports Prelude
begin

text \<open>
  \<open>src/server/Rpc/rpc_controller\<close> and the error codes of \<open>src/common/error_code.h\<close>.
\<close>

section \<open>Error codes\<close>

text \<open>\<open>SYS_ERROR_PREFIX(xx)\<close> pastes the tokens \<open>1000\<close> and \<open>xx\<close>.\<close>

definition ERROR_PEER_CLOSED :: int where "ERROR_PEER_CLOSED = 10000000"
definition ERROR_FAILED_CONNECT :: int where "ERROR_FAILED_CONNECT = 10000001"
definition ERROR_FAILED_GET_REPLY :: int where "ERROR_FAILED_GET_REPLY = 10000002"
definition ERROR_FAILED_DESERIALIZE :: int where "ERROR_FAILED_DESERIALIZE = 10000003"
definition ERROR_FAILED_SERIALIZE :: int where "ERROR_FAILED_SERIALIZE = 10000004"
definition ERROR_FAILED_ENCODE :: int where "ERROR_FAILED_ENCODE = 10000005"
definition ERROR_FAILED_DECODE :: int where "ERROR_FAILED_DECODE = 10000006"
definition ERROR_RPC_CALL_TIMEOUT :: int where "ERROR_RPC_CALL_TIMEOUT = 10000007"
definition ERROR_SERVICE_NOT_FOUND :: int where "ERROR_SERVICE_NOT_FOUND = 10000008"
definition ERROR_METHOD_NOT_FOUND :: int where "ERROR_METHOD_NOT_FOUND = 10000009"
definition ERROR_PARSE_SERVICE_NAME :: int where "ERROR_PARSE_SERVICE_NAME = 10000010"
definition ERROR_RPC_CHANNEL_INIT :: int where "ERROR_RPC_CHANNEL_INIT = 10000011"
definition ERROR_RPC_PEER_ADDR :: int where "ERROR_RPC_PEER_ADDR = 10000012"

lemmas error_codes = ERROR_PEER_CLOSED_def ERROR_FAILED_CONNECT_def ERROR_FAILED_GET_REPLY_def
  ERROR_FAILED_DESERIALIZE_def ERROR_FAILED_SERIALIZE_def ERROR_FAILED_ENCODE_def
  ERROR_FAILED_DECODE_def ERROR_RPC_CALL_TIMEOUT_def ERROR_SERVICE_NOT_FOUND_def
  ERROR_METHOD_NOT_FOUND_def ERROR_PARSE_SERVICE_NAME_def ERROR_RPC_CHANNEL_INIT_def
  ERROR_RPC_PEER_ADDR_def

section \<open>The controller\<close>

record rpc_controller =
  rc_error_code :: int
  rc_error_info :: string
  rc_req_id :: string
  rc_is_failed :: bool
  rc_is_cancled :: bool
  rc_timeout :: int

definition new_controller :: rpc_controller where
  "new_controller = \<lparr>rc_error_code = 0, rc_error_info = [], rc_req_id = [], rc_is_failed = False,
     rc_is_cancled = False, rc_timeout = 1000\<rparr>"

definition Reset :: "rpc_controller \<Rightarrow> rpc_controller" where
  "Reset c = c\<lparr>rc_error_code := 0, rc_error_info := [], rc_req_id := [], rc_is_failed := False,
     rc_is_cancled := False, rc_timeout := 1000\<rparr>"

definition Failed :: "rpc_controller \<Rightarrow> bool" where "Failed c = rc_is_failed c"
definition ErrorText :: "rpc_controller \<Rightarrow> string" where "ErrorText c = rc_error_info c"

definition StartCancel :: "rpc_controller \<Rightarrow> rpc_controller" where
  "StartCancel c = c\<lparr>rc_is_cancled := True\<rparr>"

definition SetFailed :: "string \<Rightarrow> rpc_controller \<Rightarrow> rpc_controller" where
  "SetFailed reason c = c\<lparr>rc_error_info := reason, rc_is_failed := True\<rparr>"

definition IsCanceled :: "rpc_controller \<Rightarrow> bool" where "IsCanceled c = rc_is_cancled c"

definition SetError :: "int \<Rightarrow> string \<Rightarrow> rpc_controller \<Rightarrow> rpc_controller" where
  "SetError code info c = c\<lparr>rc_error_code := code, rc_error_info := info, rc_is_failed := True\<rparr>"

definition GetErrorCode :: "rpc_controller \<Rightarrow> int" where "GetErrorCode c = rc_error_code c"
definition GetErrorInfo :: "rpc_controller \<Rightarrow> string" where "GetErrorInfo c = rc_error_info c"

definition SetMsgId :: "string \<Rightarrow> rpc_controller \<Rightarrow> rpc_controller" where
  "SetMsgId i c = c\<lparr>rc_req_id := i\<rparr>"

definition GetMsgId :: "rpc_controller \<Rightarrow> string" where "GetMsgId c = rc_req_id c"

definition SetTimeout :: "int \<Rightarrow> rpc_controller \<Rightarrow> rpc_controller" where
  "SetTimeout t c = c\<lparr>rc_timeout := t\<rparr>"

definition GetTimeout :: "rpc_controller \<Rightarrow> int" where "GetTimeout c = rc_timeout c"

lemmas controller_ops = Reset_def Failed_def ErrorText_def StartCancel_def SetFailed_def
  IsCanceled_def SetError_def GetErrorCode_def GetErrorInfo_def SetMsgId_def GetMsgId_def
  SetTimeout_def GetTimeout_def

section \<open>Laws\<close>

text \<open>A call's state machine: which of the operations make a controller fail, and what clears it.\<close>

datatype controller_op = OpReset | OpStartCancel | OpSetFailed string | OpSetError int string
  | OpSetMsgId string | OpSetTimeout int

fun apply_controller_op :: "controller_op \<Rightarrow> rpc_controller \<Rightarrow> rpc_controller" where
  "apply_controller_op OpReset c = Reset c"
| "apply_controller_op OpStartCancel c = StartCancel c"
| "apply_controller_op (OpSetFailed s) c = SetFailed s c"
| "apply_controller_op (OpSetError n s) c = SetError n s c"
| "apply_controller_op (OpSetMsgId s) c = SetMsgId s c"
| "apply_controller_op (OpSetTimeout t) c = SetTimeout t c"

fun since_reset :: "controller_op list \<Rightarrow> controller_op list" where
  "since_reset [] = []"
| "since_reset (x # xs) = (if OpReset \<in> set xs then since_reset xs
     else if x = OpReset then xs else x # xs)"

definition fails :: "controller_op \<Rightarrow> bool" where
  "fails x = (case x of OpSetFailed _ \<Rightarrow> True | OpSetError _ _ \<Rightarrow> True | _ \<Rightarrow> False)"

lemma ops_Reset: "Reset c = new_controller"
  by (simp add: Reset_def new_controller_def)

lemma run_no_reset:
  "OpReset \<notin> set xs \<Longrightarrow>
    Failed (fold apply_controller_op xs c) = (Failed c \<or> list_ex fails xs) \<and>
    IsCanceled (fold apply_controller_op xs c) = (IsCanceled c \<or> OpStartCancel \<in> set xs) \<and>
    (\<not> Failed (fold apply_controller_op xs c) \<longrightarrow>
       GetErrorCode (fold apply_controller_op xs c) = GetErrorCode c \<and>
       ErrorText (fold apply_controller_op xs c) = ErrorText c)"
proof (induction xs arbitrary: c)
  case (Cons x xs)
  then show ?case by (cases x) (auto simp: controller_ops fails_def)
qed simp

lemma since_reset_run:
  "fold apply_controller_op xs new_controller = fold apply_controller_op (since_reset xs) new_controller"
proof -
  have "OpReset \<in> set xs \<Longrightarrow>
      fold apply_controller_op xs c = fold apply_controller_op (since_reset xs) new_controller" for c
    by (induction xs arbitrary: c) (auto simp: ops_Reset)
  moreover have "OpReset \<notin> set xs \<Longrightarrow> since_reset xs = xs"
    by (cases xs) auto
  ultimately show ?thesis by metis
qed

lemma since_reset_no_reset: "OpReset \<notin> set (since_reset xs)"
  by (induction xs) auto

section \<open>Properties\<close>

text \<open>
  The state a controller reports depends only on what happened since the last \<open>Reset\<close>: it is
  failed exactly when an error was set since then and cancelled exactly when cancelling was
  started since then, for every sequence of operations on a new controller.
\<close>

theorem controller_history:
  "let c = fold apply_controller_op xs new_controller in
     (Failed c \<longleftrightarrow> list_ex fails (since_reset xs)) \<and>
     (IsCanceled c \<longleftrightarrow> OpStartCancel \<in> set (since_reset xs)) \<and>
     (\<not> Failed c \<longrightarrow> GetErrorCode c = 0 \<and> ErrorText c = [])"
  using run_no_reset [OF since_reset_no_reset, of xs new_controller]
  by (simp add: Let_def since_reset_run [of xs]) (simp add: controller_ops new_controller_def)

end
