(* ===== verification/Dispatcher.thy ===== *)
theory Dispatcher
  imports StdMap Tinypb Controller
begin

text \<open>
  \<open>src/server/Rpc/rpc_dispatcher\<close>. Services, messages and descriptors come from protobuf and from
  the code of the user of the framework: they are parameters. A method is its name, the parser of
  its request type (\<open>ParseFromString\<close>, \<^const>\<open>None\<close> for false), the method body
  (\<open>CallMethod\<close> on a new response, in a state \<open>'w\<close> of the application) and the serialiser of its
  response type (\<open>SerializeToString\<close>).
\<close>

section \<open>Services\<close>

record ('m, 'w) rpc_method =
  md_name :: string
  md_parse :: "string \<Rightarrow> 'm option"
  md_call :: "rpc_controller \<Rightarrow> 'm \<Rightarrow> 'w \<Rightarrow> ('m \<times> 'w) res"
  md_serialize :: "'m \<Rightarrow> string option"

record ('m, 'w) service =
  sd_full_name :: string
  sd_methods :: "('m, 'w) rpc_method list"

definition FindMethodByName :: "('m, 'w) service \<Rightarrow> string \<Rightarrow> ('m, 'w) rpc_method option" where
  "FindMethodByName s n = find (\<lambda>m. md_name m = n) (sd_methods s)"

section \<open>Operations\<close>

type_synonym ('m, 'w) dispatcher = "(string, ('m, 'w) service) smap"

definition registerService :: "('m, 'w) service \<Rightarrow> ('m, 'w) dispatcher \<Rightarrow> ('m, 'w) dispatcher" where
  "registerService s d = smap_set (sd_full_name s) s d"

definition setTinyPBError :: "int \<Rightarrow> string \<Rightarrow> tinypb \<Rightarrow> tinypb" where
  "setTinyPBError code info msg =
     msg\<lparr>m_err_code := code, m_err_info := info, m_err_info_len := to_int32 (int (length info))\<rparr>"

definition find_first_of :: "char \<Rightarrow> string \<Rightarrow> nat option" where
  "find_first_of c s =
     (let i = length (takeWhile (\<lambda>x. x \<noteq> c) s) in if i = length s then None else Some i)"

definition parseServiceFullName :: "string \<Rightarrow> (string \<times> string) option" where
  "parseServiceFullName full_name =
     (if full_name = [] then None
      else case find_first_of (CHR ''.'') full_name of
             None \<Rightarrow> None
           | Some i \<Rightarrow>
               Some (take i full_name, take (length full_name - i - 1) (drop (i + 1) full_name)))"

text \<open>The response object is filled in; the controller of the call is local.\<close>

definition dispatch ::
  "('m, 'w) dispatcher \<Rightarrow> tinypb \<Rightarrow> tinypb \<Rightarrow> 'w \<Rightarrow> (tinypb \<times> 'w) res" where
  "dispatch d req rsp w =
     (case parseServiceFullName (m_method_name req) of
        None \<Rightarrow> Inr (setTinyPBError ERROR_PARSE_SERVICE_NAME ''parse sevice name error'' rsp, w)
      | Some (service_name, method_name) \<Rightarrow>
     (case smap_find service_name d of
        None \<Rightarrow> Inr (setTinyPBError ERROR_SERVICE_NOT_FOUND ''parse sevice not found'' rsp, w)
      | Some service \<Rightarrow>
     (case FindMethodByName service method_name of
        None \<Rightarrow> Inr (setTinyPBError ERROR_METHOD_NOT_FOUND ''parse method not found'' rsp, w)
      | Some meth \<Rightarrow>
     (case md_parse meth (m_pb_data req) of
        None \<Rightarrow> Inr (setTinyPBError ERROR_FAILED_DESERIALIZE ''parse sevice failed deserialize'' rsp, w)
      | Some req_msg \<Rightarrow>
          bind_res (md_call meth (SetMsgId (m_msg_id req) new_controller) req_msg w)
            (\<lambda>(rsp_msg, w').
            let rsp1 = rsp\<lparr>m_method_name := m_method_name req, m_msg_id := m_msg_id req\<rparr> in
            (case md_serialize meth rsp_msg of
               None \<Rightarrow> Inr (setTinyPBError ERROR_FAILED_SERIALIZE ''parse sevice failed serialize'' rsp1, w')
             | Some data \<Rightarrow> Inr (rsp1\<lparr>m_pb_data := data, m_err_code := 0\<rparr>, w')))))))"

section \<open>Names\<close>

lemma find_first_of_split: "c \<notin> set s \<Longrightarrow> find_first_of c (s @ c # t) = Some (length s)"
  by (simp add: find_first_of_def Let_def takeWhile_pad)

lemma parse_name_dot: "CHR ''.'' \<notin> set s \<Longrightarrow>
    parseServiceFullName (s @ CHR ''.'' # t) = Some (s, t)"
  by (simp add: parseServiceFullName_def find_first_of_split)

lemma parse_name_no_dot:
  assumes "CHR ''.'' \<notin> set s"
  shows "parseServiceFullName s = None"
proof -
  have "takeWhile (\<lambda>x. x \<noteq> CHR ''.'') s = s" using assms by (auto simp: takeWhile_eq_all_conv)
  then show ?thesis 
    by (simp add: parseServiceFullName_def find_first_of_def Let_def del: takeWhile_eq_all_conv)
qed

lemma parse_name_iff:
  "parseServiceFullName n = Some (s, m) \<longleftrightarrow> n = s @ CHR ''.'' # m \<and> CHR ''.'' \<notin> set s"
proof (cases "CHR ''.'' \<in> set n")
  case True
  then obtain a b where "n = a @ CHR ''.'' # b" "CHR ''.'' \<notin> set a"
    by (meson split_list_first)
  then show ?thesis
    by (metis parse_name_dot option.inject prod.inject)
next
  case False
  then show ?thesis by (auto simp: parse_name_no_dot)
qed

lemma FindMethodByName_distinct:
  "distinct (map md_name (sd_methods s)) \<Longrightarrow> m \<in> set (sd_methods s) \<Longrightarrow>
     FindMethodByName s (md_name m) = Some m"
  unfolding FindMethodByName_def
  by (induction "sd_methods s" arbitrary: s rule: list.induct)
    (auto simp: find_Some_iff in_set_conv_nth distinct_conv_nth nth_Cons split: nat.splits)

section \<open>Registry\<close>

lemma register_all:
  "fold registerService svcs d = fold (\<lambda>(k, v). smap_set k v) (map (\<lambda>s. (sd_full_name s, s)) svcs) d"
  by (induction svcs arbitrary: d) (simp_all add: registerService_def)

lemma register_all_inv: "smap_inv d \<Longrightarrow> smap_inv (fold registerService svcs d)"
  unfolding register_all by (rule sm.inv_set_all)

lemma register_all_find:
  assumes "distinct (map sd_full_name svcs)" "s \<in> set svcs"
  shows "smap_find (sd_full_name s) (fold registerService svcs []) = Some s"
proof -
  let ?kvs = "map (\<lambda>s. (sd_full_name s, s)) svcs"
  have "map_of (rev ?kvs) (sd_full_name s) = Some s"
    using assms by (intro map_of_is_SomeI) (auto simp: rev_map comp_def distinct_map)
  then show ?thesis
    unfolding register_all by (simp add: sm.lookup_set_all)
qed

text \<open>The service of the test client and server, for the witnesses.\<close>

definition order_method :: "(string, nat) rpc_method" where
  "order_method = \<lparr>md_name = ''makeOrder'', md_parse = (\<lambda>s. if s = [] then None else Some s),
     md_call = (\<lambda>c x w. Inr (GetMsgId c @ x, Suc w)), md_serialize = Some\<rparr>"

definition order_service :: "(string, nat) service" where
  "order_service = \<lparr>sd_full_name = ''Order'', sd_methods = [order_method]\<rparr>"

section \<open>Properties\<close>

lemma dispatch_cases:
  assumes "dispatch d req new_tinypb w = Inr (r, w')"
  obtains (failed) "m_pb_data r = []" "m_err_info r \<noteq> []" "m_err_code r \<in> {ERROR_PARSE_SERVICE_NAME,
      ERROR_SERVICE_NOT_FOUND, ERROR_METHOD_NOT_FOUND, ERROR_FAILED_DESERIALIZE}" "w' = w"
      "m_msg_id r = []" "m_method_name r = []"
  | (unserialised) "m_pb_data r = []" "m_err_info r \<noteq> []" "m_err_code r = ERROR_FAILED_SERIALIZE"
      "m_msg_id r = m_msg_id req"
  | (ok) s n service meth x y where "m_method_name req = s @ CHR ''.'' # n" "CHR ''.'' \<notin> set s"
      "smap_find s d = Some service" "FindMethodByName service n = Some meth"
      "md_parse meth (m_pb_data req) = Some x"
      "md_call meth (SetMsgId (m_msg_id req) new_controller) x w = Inr (y, w')"
      "md_serialize meth y = Some (m_pb_data r)" "m_err_code r = 0"
      "m_method_name r = m_method_name req" "m_msg_id r = m_msg_id req"
proof (cases "parseServiceFullName (m_method_name req)")
  case None
  then show ?thesis
    using assms failed by (auto simp: dispatch_def setTinyPBError_def new_tinypb_def)
next
  case (Some sn)
  then obtain s n where n: "m_method_name req = s @ CHR ''.'' # n" "CHR ''.'' \<notin> set s"
    "parseServiceFullName (m_method_name req) = Some (s, n)"
    by (cases sn) (simp add: parse_name_iff)
  show ?thesis
  proof (cases "\<exists>service meth x. smap_find s d = Some service \<and>
      FindMethodByName service n = Some meth \<and> md_parse meth (m_pb_data req) = Some x")
    case False
    then show ?thesis
      using assms failed n(3)
      by (auto simp: dispatch_def setTinyPBError_def new_tinypb_def split: option.splits)
  next
    case True
    then obtain service meth x where m: "smap_find s d = Some service"
      "FindMethodByName service n = Some meth" "md_parse meth (m_pb_data req) = Some x"
      by blast
    obtain y w1 where y: "md_call meth (SetMsgId (m_msg_id req) new_controller) x w = Inr (y, w1)"
      using assms n(3) m by (auto simp: dispatch_def bind_res_Inr)
    show ?thesis
    proof (cases "md_serialize meth y")
      case None
      then show ?thesis
        using assms n(3) m y unserialised
        by (auto simp: dispatch_def Let_def setTinyPBError_def new_tinypb_def)
    next
      case (Some data)
      then show ?thesis
        using assms n m y ok [OF n(1,2) m]
        by (auto simp: dispatch_def Let_def setTinyPBError_def)
    qed
  qed
qed

lemma dispatch_ok:
  assumes "m_method_name req = s @ CHR ''.'' # n" "CHR ''.'' \<notin> set s"
    "smap_find s d = Some service" "FindMethodByName service n = Some meth"
    "md_parse meth (m_pb_data req) = Some x"
    "md_call meth (SetMsgId (m_msg_id req) new_controller) x w = Inr (y, w')"
    "md_serialize meth y = Some data"
  shows "dispatch d req rsp w = Inr (rsp\<lparr>m_method_name := m_method_name req,
    m_msg_id := m_msg_id req, m_pb_data := data, m_err_code := 0\<rparr>, w')"
proof -
  have "parseServiceFullName (m_method_name req) = Some (s, n)"
    using assms(1,2) by (simp add: parse_name_dot)
  then show ?thesis using assms(3-) by (simp add: dispatch_def Let_def)
qed


text \<open>
  A service in a protobuf package cannot be reached: its full name has a dot, requests are
  split at their first dot, so registering it changes the answer to no request at all.
\<close>

theorem packaged_service_unreachable:
  assumes "smap_inv d" "CHR ''.'' \<in> set (sd_full_name s)"
  shows "dispatch (registerService s d) req rsp w = dispatch d req rsp w"
proof (cases "parseServiceFullName (m_method_name req)")
  case None
  then show ?thesis by (simp add: dispatch_def)
next
  case (Some r)
  obtain n m where r: "r = (n, m)" by fastforce
  then have "CHR ''.'' \<notin> set n" using Some by (simp add: parse_name_iff)
  then have "smap_find n (registerService s d) = smap_find n d"
    using assms by (auto simp: registerService_def sm.lookup_set)
  then show ?thesis using Some r by (simp add: dispatch_def)
qed

text \<open>
  Every answer of the dispatcher: error code 0 is returned exactly when the name resolves, the
  payload parses and the result serialises; every other answer has one of five codes, a text and
  an empty payload. Unless the method had already run, an error answer leaves the application
  untouched and does not carry the id of the request.
\<close>

theorem dispatch_answers:
  assumes "dispatch d req new_tinypb w = Inr (r, w')"
  shows "(m_err_code r = 0 \<longleftrightarrow> (\<exists>s n service meth x y data.
      m_method_name req = s @ CHR ''.'' # n \<and> CHR ''.'' \<notin> set s \<and> smap_find s d = Some service \<and>
      FindMethodByName service n = Some meth \<and> md_parse meth (m_pb_data req) = Some x \<and>
      md_call meth (SetMsgId (m_msg_id req) new_controller) x w = Inr (y, w') \<and>
      md_serialize meth y = Some data \<and> m_pb_data r = data \<and>
      m_method_name r = m_method_name req \<and> m_msg_id r = m_msg_id req)) \<and>
    (m_err_code r \<noteq> 0 \<longrightarrow> m_pb_data r = [] \<and> m_err_info r \<noteq> [] \<and>
      (m_err_code r = ERROR_FAILED_SERIALIZE \<and> m_msg_id r = m_msg_id req \<or>
       m_err_code r \<in> {ERROR_PARSE_SERVICE_NAME, ERROR_SERVICE_NOT_FOUND, ERROR_METHOD_NOT_FOUND,
         ERROR_FAILED_DESERIALIZE} \<and> w' = w \<and> m_msg_id r = [] \<and> m_method_name r = []))"
proof -
  have nz: "c \<noteq> 0" if "c \<in> {ERROR_PARSE_SERVICE_NAME, ERROR_SERVICE_NOT_FOUND,
      ERROR_METHOD_NOT_FOUND, ERROR_FAILED_DESERIALIZE, ERROR_FAILED_SERIALIZE}" for c :: int
    using that by (auto simp: error_codes)
  have z: "m_err_code r = 0" if "m_method_name req = s @ CHR ''.'' # n" "CHR ''.'' \<notin> set s"
    "smap_find s d = Some service" "FindMethodByName service n = Some meth"
    "md_parse meth (m_pb_data req) = Some x"
    "md_call meth (SetMsgId (m_msg_id req) new_controller) x w = Inr (y, w')"
    "md_serialize meth y = Some data" for s n service meth x y data
    using dispatch_ok [OF that] assms by auto
  show ?thesis
    using assms
  proof (cases rule: dispatch_cases)
    case failed
    with nz [of "m_err_code r"] z show ?thesis by blast
  next
    case unserialised
    with nz [of "m_err_code r"] z show ?thesis by blast
  next
    case (ok s n service meth x y)
    then show ?thesis by blast
  qed
qed


theorem packaged_service_unreachable_witness:
  "dispatch (registerService (order_service\<lparr>sd_full_name := ''shop.Order''\<rparr>) []) order_request new_tinypb (0::nat) =
   dispatch ([] :: (string, nat) dispatcher) order_request new_tinypb 0"
  by (rule packaged_service_unreachable) simp_all

theorem dispatch_answers_witness:
  "\<exists>r. dispatch (registerService order_service []) (order_request\<lparr>m_method_name := ''Order.pay''\<rparr>)
     new_tinypb 5 = Inr (r, 5) \<and> m_err_code r = ERROR_METHOD_NOT_FOUND \<and> m_msg_id r = []"
proof -
  have e: "dispatch (registerService order_service []) (order_request\<lparr>m_method_name := ''Order.pay''\<rparr>)
     new_tinypb 5 = Inr (setTinyPBError ERROR_METHOD_NOT_FOUND ''parse method not found'' new_tinypb, 5)"
    by (simp add: dispatch_def parseServiceFullName_def find_first_of_def Let_def registerService_def
        order_service_def order_method_def smap_find_def FindMethodByName_def)
  show ?thesis
    using dispatch_answers [OF e] e by (simp add: setTinyPBError_def error_codes new_tinypb_def)
qed

end
