(* ===== verification/BufferModel.thy ===== *)
theory BufferModel
  imports Prelude
begin

text \<open>
  The byte buffer of \<open>src/common/Buffer.h\<close> and \<open>Buffer.cc\<close>, used by \<open>Connection\<close> for both
  directions and by \<open>AsyncLogger\<close> for its log blocks. First the operations, then the two
  contracts their users rely on as locales: a stream of bytes (separator 0) and a queue of
  length-prefixed messages (separator 1), both interpreted on the model.
\<close>

section \<open>State and operations\<close>

record buffer =
  b_buf :: string
  b_sep :: nat
  b_maxLen :: "64 word"
  b_bufSize :: "64 word"

definition MAX_BUF_SIZE :: "64 word" where
  "MAX_BUF_SIZE = 1000000"

definition new_buffer_sep :: "nat \<Rightarrow> buffer" where
  "new_buffer_sep sep = \<lparr>b_buf = [], b_sep = sep, b_maxLen = MAX_BUF_SIZE, b_bufSize = 0\<rparr>"

definition new_buffer_max :: "64 word \<Rightarrow> buffer" where
  "new_buffer_max maxLen =
     \<lparr>b_buf = [], b_sep = 0,
      b_maxLen = (if maxLen > MAX_BUF_SIZE then MAX_BUF_SIZE else maxLen), b_bufSize = 0\<rparr>"

definition buffer_reset :: "buffer \<Rightarrow> buffer" where
  "buffer_reset b = b\<lparr>b_buf := []\<rparr>"

text \<open>\<open>b_maxLen - b_buf.size()\<close> in \<open>uint64_t\<close>: it wraps when the string is longer.\<close>

definition avail :: "buffer \<Rightarrow> 64 word" where
  "avail b = b_maxLen b - of_nat (length (b_buf b))"

text \<open>The pair \<open>data, size\<close> is the string of the \<open>size\<close> bytes at \<open>data\<close>.\<close>

definition buffer_append :: "buffer \<Rightarrow> string \<Rightarrow> buffer" where
  "buffer_append b data =
     (if avail b \<ge> of_nat (length data) then b\<lparr>b_buf := b_buf b @ data\<rparr> else b)"

definition buffer_size :: "buffer \<Rightarrow> nat" where
  "buffer_size b = length (b_buf b)"

definition buffer_data :: "buffer \<Rightarrow> string" where
  "buffer_data b = b_buf b"

definition buffer_clear :: "buffer \<Rightarrow> buffer" where
  "buffer_clear b = b\<lparr>b_buf := []\<rparr>"

text \<open>
  \<open>std::string\<close>: \<open>substr\<close> and \<open>erase\<close> throw when the position is past the end and stop at the
  end; a negative \<open>int\<close> passed as the count is a \<open>size_t\<close> beyond every length.
\<close>

definition str_substr :: "string \<Rightarrow> nat \<Rightarrow> int \<Rightarrow> string res" where
  "str_substr s pos n =
     (if pos > length s then Inl LengthError
      else Inr (if n < 0 then drop pos s else take (nat n) (drop pos s)))"

definition str_erase :: "string \<Rightarrow> nat \<Rightarrow> int \<Rightarrow> string res" where
  "str_erase s pos n =
     (if pos > length s then Inl LengthError
      else Inr (take pos s @ (if n < 0 then [] else drop (pos + nat n) s)))"

definition buffer_erase :: "buffer \<Rightarrow> nat \<Rightarrow> int \<Rightarrow> buffer res" where
  "buffer_erase b pos nn = bind_res (str_erase (b_buf b) pos nn) (\<lambda>s. Inr (b\<lparr>b_buf := s\<rparr>))"

text \<open>With separator 1 the low four bytes of \<open>size\<close> precede the data; no bound is checked.\<close>

definition appendwithsep :: "buffer \<Rightarrow> string \<Rightarrow> buffer" where
  "appendwithsep b data =
     (if b_sep b = 0 then b\<lparr>b_buf := b_buf b @ data\<rparr>
      else if b_sep b = 1 then
        b\<lparr>b_buf := b_buf b @ le_chars 4 (int (length data)) @ data\<rparr>
      else b)"

text \<open>
  The result, the message argument after the call, and the buffer. In the comparison of
  \<open>buf_.size()\<close> with the \<open>int\<close> \<open>len + 4\<close> a negative value is a \<open>size_t\<close> beyond every size.
\<close>

definition pickmessage :: "buffer \<Rightarrow> string \<Rightarrow> (bool \<times> string \<times> buffer) res" where
  "pickmessage b ss =
     (if length (b_buf b) = 0 then Inr (False, ss, b)
      else if b_sep b = 0 then Inr (True, b_buf b, buffer_clear b)
      else if b_sep b = 1 then
        bind_res (c_str_slice (b_buf b) 0 4) (\<lambda>bs.
        let len = sint (of_mem32 bs) in
        bind_res (int_chk (len + 4)) (\<lambda>len4.
        if len4 < 0 \<or> int (length (b_buf b)) < len4 then Inr (False, ss, b)
        else bind_res (str_substr (b_buf b) 4 len) (\<lambda>m.
             bind_res (buffer_erase b 0 len4) (\<lambda>b'. Inr (True, m, b')))))
      else Inr (True, ss, b))"

section \<open>Sizes and capacity\<close>

lemma buffer_sels [simp]:
  "buffer_size (new_buffer_sep n) = 0" "buffer_size (new_buffer_max w) = 0"
  "b_buf (buffer_clear b) = []" "b_buf (buffer_reset b) = []"
  "b_sep (buffer_clear b) = b_sep b" "b_sep (buffer_reset b) = b_sep b"
  "b_maxLen (buffer_clear b) = b_maxLen b" "b_maxLen (buffer_reset b) = b_maxLen b"
  "b_sep (buffer_append b d) = b_sep b" "b_maxLen (buffer_append b d) = b_maxLen b"
  "b_sep (appendwithsep b d) = b_sep b" "b_maxLen (appendwithsep b d) = b_maxLen b"
  by (simp_all add: new_buffer_sep_def new_buffer_max_def buffer_size_def buffer_clear_def
      buffer_reset_def buffer_append_def appendwithsep_def)

definition within_max :: "buffer \<Rightarrow> bool" where
  "within_max b \<longleftrightarrow> length (b_buf b) \<le> unat (b_maxLen b)"

lemma unat_less_64: "unat (w :: 64 word) < 2 ^ 64"
proof -
  have "unat w < 2 ^ LENGTH(64)" by (rule unsigned_less)
  then show ?thesis by simp
qed

lemma unat_of_nat_64: "n < 2 ^ 64 \<Longrightarrow> unat (of_nat n :: 64 word) = n"
  by (simp add: unat_of_nat)

lemma unat_avail: "within_max b \<Longrightarrow> unat (avail b) = unat (b_maxLen b) - length (b_buf b)"
proof -
  assume w: "within_max b"
  have "length (b_buf b) < 2 ^ 64"
    using w unat_less_64 [of "b_maxLen b"] by (simp add: within_max_def)
  then have "unat (of_nat (length (b_buf b)) :: 64 word) = length (b_buf b)"
    by (simp add: unat_of_nat)
  then show ?thesis
    using w by (simp add: avail_def within_max_def unat_sub word_le_nat_alt)
qed

lemma buffer_append_eq:
  assumes "within_max b" "length d < 2 ^ 64"
  shows "buffer_append b d =
    (if length (b_buf b) + length d \<le> unat (b_maxLen b) then b\<lparr>b_buf := b_buf b @ d\<rparr> else b)"
proof -
  from unat_of_nat_64 [OF assms(2)] have "avail b \<ge> of_nat (length d) \<longleftrightarrow> length (b_buf b) + length d \<le> unat (b_maxLen b)"
    using assms(1) by (auto simp: word_le_nat_alt unat_avail within_max_def)
  then show ?thesis by (simp add: buffer_append_def)
qed

lemma within_max_append: "within_max b \<Longrightarrow> length d < 2 ^ 64 \<Longrightarrow> within_max (buffer_append b d)"
  by (simp add: buffer_append_eq) (simp add: within_max_def)

lemma within_max_new: "within_max (new_buffer_sep n)" "within_max (new_buffer_max w)"
  by (simp_all add: within_max_def new_buffer_sep_def new_buffer_max_def)

section \<open>Contract 1: a stream of bytes\<close>

locale byte_stream =
  fixes inv :: "'b \<Rightarrow> bool"
    and content :: "'b \<Rightarrow> string"
    and put :: "'b \<Rightarrow> string \<Rightarrow> 'b"
    and cut :: "'b \<Rightarrow> nat \<Rightarrow> 'b"
  assumes inv_put: "inv b \<Longrightarrow> inv (put b d)"
    and inv_cut: "inv b \<Longrightarrow> inv (cut b n)"
    and content_put: "inv b \<Longrightarrow> content (put b d) = content b @ d"
    and content_cut: "inv b \<Longrightarrow> n \<le> length (content b) \<Longrightarrow> content (cut b n) = drop n (content b)"
begin

lemmas stream_laws = inv_put inv_cut content_put content_cut

lemma put_all: "inv b \<Longrightarrow> content (foldl put b ds) = content b @ concat ds"
  by (induction ds arbitrary: b) (simp_all add: stream_laws)

lemma cut_put:
  "inv b \<Longrightarrow> n \<le> length (content b) \<Longrightarrow>
     content (put (cut b n) d) = content (cut (put b d) n)"
  by (simp add: stream_laws)

end

definition erase_front :: "buffer \<Rightarrow> nat \<Rightarrow> buffer" where
  "erase_front b n = (case buffer_erase b 0 (int n) of Inr b' \<Rightarrow> b' | Inl _ \<Rightarrow> b)"

lemma buffer_erase_front: "buffer_erase b 0 (int n) = Inr (b\<lparr>b_buf := drop n (b_buf b)\<rparr>)"
  by (simp add: buffer_erase_def str_erase_def)

interpretation out: byte_stream "\<lambda>b. b_sep b = 0" b_buf appendwithsep erase_front
  by unfold_locales (simp_all add: appendwithsep_def erase_front_def buffer_erase_front)

section \<open>Contract 2: a queue of messages\<close>

locale message_queue =
  fixes inv :: "'b \<Rightarrow> bool"
    and queued :: "'b \<Rightarrow> string list"
    and enq :: "'b \<Rightarrow> string \<Rightarrow> 'b"
    and pick :: "'b \<Rightarrow> string \<Rightarrow> (bool \<times> string \<times> 'b) res"
    and ok :: "string \<Rightarrow> bool"
  assumes inv_enq: "inv b \<Longrightarrow> ok m \<Longrightarrow> inv (enq b m)"
    and queued_enq: "inv b \<Longrightarrow> ok m \<Longrightarrow> queued (enq b m) = queued b @ [m]"
    and pick_empty: "inv b \<Longrightarrow> queued b = [] \<Longrightarrow> pick b ss = Inr (False, ss, b)"
    and pick_Cons: "inv b \<Longrightarrow> queued b = m # ms \<Longrightarrow>
      \<exists>b'. pick b ss = Inr (True, m, b') \<and> inv b' \<and> queued b' = ms"
begin

lemma enq_all:
  "inv b \<Longrightarrow> \<forall>m \<in> set ms. ok m \<Longrightarrow>
     inv (foldl enq b ms) \<and> queued (foldl enq b ms) = queued b @ ms"
  by (induction ms arbitrary: b) (simp_all add: inv_enq queued_enq)

end

text \<open>The messages in a string of length-prefixed messages, and back.\<close>

definition framed :: "string list \<Rightarrow> string" where
  "framed ms = concat (map (\<lambda>m. le_chars 4 (int (length m)) @ m) ms)"

function unframe :: "string \<Rightarrow> string list" where
  "unframe s =
     (if length s < 4 then []
      else let n = nat (sint (of_mem32 (take 4 s)))
           in take n (drop 4 s) # unframe (drop (4 + n) s))"
  by pat_completeness auto
termination
  by (relation "measure length") auto

declare unframe.simps [simp del]

definition msg_ok :: "string \<Rightarrow> bool" where
  "msg_ok m \<longleftrightarrow> int (length m) < 2 ^ 31 - 4"

definition framed_buffer :: "buffer \<Rightarrow> bool" where
  "framed_buffer b \<longleftrightarrow> b_sep b = 1 \<and>
     b_buf b = framed (unframe (b_buf b)) \<and> list_all msg_ok (unframe (b_buf b))"

lemma framed_simps [simp]:
  "framed [] = []"
  "framed (m # ms) = le_chars 4 (int (length m)) @ m @ framed ms"
  "framed (ms @ ms') = framed ms @ framed ms'"
  by (simp_all add: framed_def)

lemma header_value:
  assumes "msg_ok m"
  shows "sint (of_mem32 (le_chars 4 (int (length m)))) = int (length m)"
proof -
  have "le_int (le_chars 4 (int (length m))) = int (length m)"
    using assms by (simp add: le_int_le_chars msg_ok_def)
  then show ?thesis
    using assms to_int32_ok [of "int (length m)"]
    by (simp add: of_mem32_def to_int32_def msg_ok_def)
qed

lemma unframe_framed: "list_all msg_ok ms \<Longrightarrow> unframe (framed ms) = ms"
proof (induction ms)
  case Nil
  then show ?case by (simp add: unframe.simps)
next
  case (Cons m ms)
  then show ?case
    by (subst unframe.simps) (simp add: header_value Let_def)
qed

lemma pickmessage_framed:
  assumes "b_sep b = 1" "b_buf b = le_chars 4 (int (length m)) @ m @ r" "msg_ok m"
  shows "pickmessage b ss = Inr (True, m, b\<lparr>b_buf := r\<rparr>)"
proof -
  have "c_str_slice (b_buf b) 0 4 = Inr (le_chars 4 (int (length m)))"
    by (rule c_str_slice_mid [where p = "[]"]) (simp_all add: assms(2))
  then show ?thesis
    using assms
    by (simp add: pickmessage_def header_value Let_def msg_ok_def str_substr_def
        buffer_erase_def str_erase_def nat_add_distrib)
qed

interpretation mq: message_queue framed_buffer "\<lambda>b. unframe (b_buf b)" appendwithsep pickmessage msg_ok
proof
  fix b m
  assume b: "framed_buffer b" and m: "msg_ok m"
  let ?q = "unframe (b_buf b)"
  have q: "list_all msg_ok (?q @ [m])" "b_sep b = 1" "b_buf b = framed ?q"
    using b m by (simp_all add: framed_buffer_def)
  have e: "b_buf (appendwithsep b m) = framed (?q @ [m])"
    using q by (simp add: appendwithsep_def)
  show eq: "unframe (b_buf (appendwithsep b m)) = ?q @ [m]"
    unfolding e by (rule unframe_framed [OF q(1)])
  show "framed_buffer (appendwithsep b m)"
    unfolding framed_buffer_def eq using q(1,2) e by simp
next
  fix b ss
  assume "framed_buffer b" "unframe (b_buf b) = []"
  then show "pickmessage b ss = Inr (False, ss, b)"
    by (simp add: framed_buffer_def pickmessage_def)
next
  fix b m ms ss
  assume b: "framed_buffer b" and q: "unframe (b_buf b) = m # ms"
  then have s: "b_sep b = 1" "b_buf b = le_chars 4 (int (length m)) @ m @ framed ms"
    and ok: "msg_ok m" "list_all msg_ok ms"
    by (simp_all add: framed_buffer_def)
  show "\<exists>b'. pickmessage b ss = Inr (True, m, b') \<and> framed_buffer b' \<and> unframe (b_buf b') = ms"
    using pickmessage_framed [OF s ok(1)] s(1) unframe_framed [OF ok(2)] ok(2)
    by (simp add: framed_buffer_def)
qed

section \<open>Properties\<close>

text \<open>
  C37. \<open>append\<close> is all or nothing and keeps the limit: data that fits is added whole, data that
  does not is dropped whole without a sign to the caller, and the buffer never outgrows
  \<open>maxLen_\<close>.
\<close>

theorem buffer_append_limit:
  assumes "within_max b" "length d < 2 ^ 64"
  shows "within_max (buffer_append b d) \<and>
    b_buf (buffer_append b d) =
      (if length (b_buf b) + length d \<le> unat (b_maxLen b) then b_buf b @ d else b_buf b)"
  using buffer_append_eq [OF assms] within_max_append [OF assms] by simp

theorem buffer_append_limit_witness:
  "b_buf (buffer_append (new_buffer_max 4) ''abcd'') = ''abcd'' \<and>
   b_buf (buffer_append (new_buffer_max 4) ''abcde'') = []"
  using buffer_append_limit [of "new_buffer_max 4" "''abcd''"]
    buffer_append_limit [of "new_buffer_max 4" "''abcde''"]
  by (simp add: within_max_new) (simp add: new_buffer_max_def MAX_BUF_SIZE_def)

text \<open>
  \<open>appendwithsep\<close> does not know the limit: once it has filled a buffer of separator 0 past
  \<open>maxLen_\<close>, \<open>avail\<close> wraps around to a number close to \<open>2^64\<close>, and from then on
  \<open>append\<close> accepts everything short of that.
\<close>

theorem appendwithsep_defeats_limit:
  assumes "b_sep b = 0" "unat (b_maxLen b) < length (b_buf b @ d)" "length (b_buf b @ d) < 2 ^ 64"
  shows "unat (avail (appendwithsep b d)) =
      2 ^ 64 - (length (b_buf b @ d) - unat (b_maxLen b)) \<and>
    (length e \<le> unat (b_maxLen b) \<longrightarrow>
       b_buf (buffer_append (appendwithsep b d) e) = b_buf b @ d @ e)"
proof -
  let ?n = "length (b_buf b @ d)" and ?m = "unat (b_maxLen b)"
  let ?b = "appendwithsep b d"
  have b: "b_buf ?b = b_buf b @ d" "b_maxLen ?b = b_maxLen b"
    using assms(1) by (simp_all add: appendwithsep_def)
  note n = unat_of_nat_64 [OF assms(3)]
  have a: "unat (avail ?b) = 2 ^ 64 - (?n - ?m)"
  proof -
    have "unat (b_maxLen b - of_nat ?n) = ?m + 2 ^ 64 - ?n"
      using assms(2) n unat_sub_if' [of "b_maxLen b" "of_nat ?n"] by simp
    then show ?thesis
      using assms(2,3) b by (simp add: avail_def)
  qed
  moreover have "b_buf (buffer_append ?b e) = b_buf b @ d @ e" if "length e \<le> ?m"
  proof -
    have "unat (of_nat (length e) :: 64 word) = length e"
      using that unat_less_64 [of "b_maxLen b"] by (simp add: unat_of_nat)
    then have "avail ?b \<ge> of_nat (length e)"
      using that assms(2,3) a by (simp add: word_le_nat_alt)
    then show ?thesis using b by (simp add: buffer_append_def)
  qed
  ultimately show ?thesis by simp
qed

theorem appendwithsep_defeats_limit_witness:
  "let b = appendwithsep (new_buffer_max 2) ''abc'' in
     unat (avail b) = 2 ^ 64 - 1 \<and> b_buf (buffer_append b ''xy'') = ''abcxy''"
  using appendwithsep_defeats_limit [of "new_buffer_max 2" "''abc''" "''xy''"]
  by (simp add: new_buffer_max_def MAX_BUF_SIZE_def)

end
