(* ===== verification/ChannelModel.thy ===== *)
theory ChannelModel
  imports Prelude
begin

unbundle bit_operations_syntax

text \<open>
  \<open>src/net/Channel\<close> and \<open>src/net/Epoll\<close>: the event mask of a file descriptor, its
  registration with the kernel and the choice of the callback for a returned event. The kernel is
  a parameter: \<open>ctl op fd ev k\<close> is \<open>epoll_ctl\<close> on the kernel state \<open>k\<close>, \<^const>\<open>None\<close> for the
  result \<open>-1\<close>. What the code relies on is the predicate \<open>epoll_ctl_spec\<close>: the interest list
  semantics of epoll_ctl(2) with its errors EEXIST and ENOENT.
\<close>

section \<open>Masks and kernel interface\<close>

definition EPOLLIN :: "32 word" where "EPOLLIN = 0x001"
definition EPOLLPRI :: "32 word" where "EPOLLPRI = 0x002"
definition EPOLLOUT :: "32 word" where "EPOLLOUT = 0x004"
definition EPOLLRDHUP :: "32 word" where "EPOLLRDHUP = 0x2000"
definition EPOLLET :: "32 word" where "EPOLLET = 0x80000000"

lemmas epoll_masks = EPOLLIN_def EPOLLPRI_def EPOLLOUT_def EPOLLRDHUP_def EPOLLET_def

datatype ctl_op = CTL_ADD | CTL_MOD | CTL_DEL

type_synonym 'k epoll_ctl = "ctl_op \<Rightarrow> int \<Rightarrow> 32 word \<Rightarrow> 'k \<Rightarrow> 'k option"

definition epoll_ctl_spec :: "'k epoll_ctl \<Rightarrow> ('k \<Rightarrow> int \<Rightarrow> 32 word option) \<Rightarrow> bool" where
  "epoll_ctl_spec ctl watched \<longleftrightarrow> (\<forall>k fd ev.
     (case watched k fd of
        None \<Rightarrow> (\<exists>k'. ctl CTL_ADD fd ev k = Some k' \<and> watched k' = (watched k)(fd := Some ev)) \<and>
          ctl CTL_MOD fd ev k = None \<and> ctl CTL_DEL fd ev k = None
      | Some _ \<Rightarrow> ctl CTL_ADD fd ev k = None \<and>
          (\<exists>k'. ctl CTL_MOD fd ev k = Some k' \<and> watched k' = (watched k)(fd := Some ev)) \<and>
          (\<exists>k'. ctl CTL_DEL fd ev k = Some k' \<and> watched k' = (watched k)(fd := None))))"

section \<open>Channels\<close>

record channel =
  ch_fd :: int
  inepoll :: bool
  ch_events :: "32 word"
  ch_revents :: "32 word"

definition new_channel :: "int \<Rightarrow> channel" where
  "new_channel fd = \<lparr>ch_fd = fd, inepoll = False, ch_events = 0, ch_revents = 0\<rparr>"

definition useet :: "channel \<Rightarrow> channel" where
  "useet ch = ch\<lparr>ch_events := ch_events ch OR EPOLLET\<rparr>"

definition setinepoll :: "channel \<Rightarrow> channel" where
  "setinepoll ch = ch\<lparr>inepoll := True\<rparr>"

definition setrevents :: "32 word \<Rightarrow> channel \<Rightarrow> channel" where
  "setrevents r ch = ch\<lparr>ch_revents := r\<rparr>"

definition epoll_updatechannel :: "'k epoll_ctl \<Rightarrow> 'k \<Rightarrow> channel \<Rightarrow> ('k \<times> channel) res" where
  "epoll_updatechannel ctl k ch =
     (if inepoll ch then
        (case ctl CTL_MOD (ch_fd ch) (ch_events ch) k of
           None \<Rightarrow> Inl Exit
         | Some k' \<Rightarrow> Inr (k', ch))
      else
        (case ctl CTL_ADD (ch_fd ch) (ch_events ch) k of
           None \<Rightarrow> Inl Exit
         | Some k' \<Rightarrow> Inr (k', setinepoll ch)))"

definition epoll_removechannel :: "'k epoll_ctl \<Rightarrow> 'k \<Rightarrow> channel \<Rightarrow> ('k \<times> channel) res" where
  "epoll_removechannel ctl k ch =
     (if inepoll ch then
        (case ctl CTL_DEL (ch_fd ch) 0 k of
           None \<Rightarrow> Inl Exit
         | Some k' \<Rightarrow> Inr (k', ch))
      else Inr (k, ch))"

text \<open>
  \<open>Epoll::loop\<close>: the result of \<open>epoll_wait\<close> is a parameter, \<^const>\<open>None\<close> for a negative
  count, otherwise the ready channels with their events (at most \<open>MaxEvents\<close>).
\<close>

definition epoll_loop :: "(channel \<times> 32 word) list option \<Rightarrow> channel list res" where
  "epoll_loop ready =
     (case ready of None \<Rightarrow> Inl Exit | Some rs \<Rightarrow> Inr (map (\<lambda>(ch, ev). setrevents ev ch) rs))"

definition enablereading :: "'k epoll_ctl \<Rightarrow> 'k \<Rightarrow> channel \<Rightarrow> ('k \<times> channel) res" where
  "enablereading ctl k ch =
     epoll_updatechannel ctl k (ch\<lparr>ch_events := ch_events ch OR EPOLLIN\<rparr>)"

definition disablereading :: "'k epoll_ctl \<Rightarrow> 'k \<Rightarrow> channel \<Rightarrow> ('k \<times> channel) res" where
  "disablereading ctl k ch =
     epoll_updatechannel ctl k (ch\<lparr>ch_events := ch_events ch AND NOT EPOLLIN\<rparr>)"

definition enablewriting :: "'k epoll_ctl \<Rightarrow> 'k \<Rightarrow> channel \<Rightarrow> ('k \<times> channel) res" where
  "enablewriting ctl k ch =
     epoll_updatechannel ctl k (ch\<lparr>ch_events := ch_events ch OR EPOLLOUT\<rparr>)"

definition disablewriting :: "'k epoll_ctl \<Rightarrow> 'k \<Rightarrow> channel \<Rightarrow> ('k \<times> channel) res" where
  "disablewriting ctl k ch =
     epoll_updatechannel ctl k (ch\<lparr>ch_events := ch_events ch AND NOT EPOLLOUT\<rparr>)"

definition disableall :: "'k epoll_ctl \<Rightarrow> 'k \<Rightarrow> channel \<Rightarrow> ('k \<times> channel) res" where
  "disableall ctl k ch = epoll_updatechannel ctl k (ch\<lparr>ch_events := 0\<rparr>)"

definition remove_channel :: "'k epoll_ctl \<Rightarrow> 'k \<Rightarrow> channel \<Rightarrow> ('k \<times> channel) res" where
  "remove_channel ctl k ch =
     bind_res (disableall ctl k ch) (\<lambda>(k', ch'). epoll_removechannel ctl k' ch')"

text \<open>
  \<open>handleevent\<close> on the object \<open>w\<close> that owns the channel: \<open>rm\<close> is \<open>remove()\<close> there, \<open>cbs\<close> its
  callbacks, and calling one that was never set throws.
\<close>

datatype callback = ReadCb | CloseCb | ErrorCb | WriteCb

definition call_cb :: "('c \<Rightarrow> ('w \<Rightarrow> 'w res) option) \<Rightarrow> 'c \<Rightarrow> 'w \<Rightarrow> 'w res" where
  "call_cb cbs cb w = (case cbs cb of None \<Rightarrow> Inl EmptyCall | Some f \<Rightarrow> f w)"

definition handleevent ::
  "('w \<Rightarrow> 'w res) \<Rightarrow> (callback \<Rightarrow> ('w \<Rightarrow> 'w res) option) \<Rightarrow> 32 word \<Rightarrow> 'w \<Rightarrow> 'w res" where
  "handleevent rm cbs revents w =
     (if revents AND EPOLLRDHUP \<noteq> 0 then bind_res (rm w) (call_cb cbs CloseCb)
      else if revents AND (EPOLLIN OR EPOLLPRI) \<noteq> 0 then call_cb cbs ReadCb w
      else if revents AND EPOLLOUT \<noteq> 0 then call_cb cbs WriteCb w
      else call_cb cbs ErrorCb w)"

section \<open>Registration stays in step with the kernel\<close>

definition synced :: "('k \<Rightarrow> int \<Rightarrow> 32 word option) \<Rightarrow> 'k \<Rightarrow> channel \<Rightarrow> bool" where
  "synced watched k ch \<longleftrightarrow>
     watched k (ch_fd ch) = (if inepoll ch then Some (ch_events ch) else None)"

lemma epoll_ctl_absent:
  assumes "epoll_ctl_spec ctl watched" "watched k fd = None"
  shows "\<exists>k'. ctl CTL_ADD fd ev k = Some k' \<and> watched k' = (watched k)(fd := Some ev)"
    "ctl CTL_MOD fd ev k = None" "ctl CTL_DEL fd ev k = None"
  using assms(1) [unfolded epoll_ctl_spec_def, rule_format, where k = k and fd = fd and ev = ev] assms(2) by simp_all

lemma epoll_ctl_present:
  assumes "epoll_ctl_spec ctl watched" "watched k fd = Some x"
  shows "ctl CTL_ADD fd ev k = None"
    "\<exists>k'. ctl CTL_MOD fd ev k = Some k' \<and> watched k' = (watched k)(fd := Some ev)"
    "\<exists>k'. ctl CTL_DEL fd ev k = Some k' \<and> watched k' = (watched k)(fd := None)"
  using assms(1) [unfolded epoll_ctl_spec_def, rule_format, where k = k and fd = fd and ev = ev] assms(2) by simp_all

lemma updatechannel_synced:
  assumes "epoll_ctl_spec ctl watched" "synced watched k ch"
  shows "\<exists>k'. epoll_updatechannel ctl k (ch\<lparr>ch_events := ev\<rparr>) =
      Inr (k', ch\<lparr>ch_events := ev, inepoll := True\<rparr>) \<and>
    watched k' = (watched k)(ch_fd ch := Some ev)"
proof (cases "inepoll ch")
  case True
  then have "watched k (ch_fd ch) = Some (ch_events ch)"
    using assms(2) by (simp add: synced_def)
  from epoll_ctl_present(2) [OF assms(1) this, of ev] True show ?thesis
    by (cases ch) (auto simp: epoll_updatechannel_def)
next
  case False
  then have "watched k (ch_fd ch) = None"
    using assms(2) by (simp add: synced_def)
  from epoll_ctl_absent(1) [OF assms(1) this, of ev] False show ?thesis
    by (auto simp: epoll_updatechannel_def setinepoll_def)
qed

lemmas channel_ops = enablereading_def disablereading_def enablewriting_def disablewriting_def
  disableall_def

lemma synced_updated:
  "watched k' = (watched k)(ch_fd ch := Some ev) \<Longrightarrow>
     synced watched k' (ch\<lparr>ch_events := ev, inepoll := True\<rparr>)"
  by (simp add: synced_def)

text \<open>After \<open>remove()\<close> the flag \<open>inepoll_\<close> still says the descriptor is registered.\<close>

lemma remove_channel_synced:
  assumes "epoll_ctl_spec ctl watched" "synced watched k ch"
  shows "\<exists>k'. remove_channel ctl k ch = Inr (k', ch\<lparr>ch_events := 0, inepoll := True\<rparr>) \<and>
    watched k' = (watched k)(ch_fd ch := None)"
proof -
  obtain k1 where 1: "epoll_updatechannel ctl k (ch\<lparr>ch_events := 0\<rparr>) =
      Inr (k1, ch\<lparr>ch_events := 0, inepoll := True\<rparr>)"
    and w: "watched k1 = (watched k)(ch_fd ch := Some 0)"
    using updatechannel_synced [OF assms] by blast
  have "watched k1 (ch_fd ch) = Some 0" using w by simp
  from epoll_ctl_present(3) [OF assms(1) this, of 0] obtain k2 where
    "ctl CTL_DEL (ch_fd ch) 0 k1 = Some k2" "watched k2 = (watched k1)(ch_fd ch := None)"
    by blast
  with 1 w show ?thesis
    by (simp add: remove_channel_def disableall_def epoll_removechannel_def)
qed

lemma updatechannel_removed:
  assumes "epoll_ctl_spec ctl watched" "watched k (ch_fd ch) = None" "inepoll ch"
  shows "epoll_updatechannel ctl k (ch\<lparr>ch_events := ev\<rparr>) = Inl Exit"
  using epoll_ctl_absent(2) [OF assms(1,2)] assms(3) by (simp add: epoll_updatechannel_def)

section \<open>Properties\<close>

datatype channel_op = EnableReading | DisableReading | EnableWriting | DisableWriting | DisableAll

fun apply_channel_op :: "'k epoll_ctl \<Rightarrow> channel_op \<Rightarrow> 'k \<times> channel \<Rightarrow> ('k \<times> channel) res" where
  "apply_channel_op ctl EnableReading (k, ch) = enablereading ctl k ch"
| "apply_channel_op ctl DisableReading (k, ch) = disablereading ctl k ch"
| "apply_channel_op ctl EnableWriting (k, ch) = enablewriting ctl k ch"
| "apply_channel_op ctl DisableWriting (k, ch) = disablewriting ctl k ch"
| "apply_channel_op ctl DisableAll (k, ch) = disableall ctl k ch"

fun channel_ops_run :: "'k epoll_ctl \<Rightarrow> channel_op list \<Rightarrow> 'k \<times> channel \<Rightarrow> ('k \<times> channel) res" where
  "channel_ops_run ctl [] s = Inr s"
| "channel_ops_run ctl (x # xs) s = bind_res (apply_channel_op ctl x s) (channel_ops_run ctl xs)"

lemma channel_op_synced:
  assumes "epoll_ctl_spec ctl watched" "synced watched k ch"
  shows "\<exists>k' ch'. apply_channel_op ctl x (k, ch) = Inr (k', ch') \<and> synced watched k' ch' \<and>
    inepoll ch' \<and> ch_fd ch' = ch_fd ch \<and>
    (\<forall>fd. fd \<noteq> ch_fd ch \<longrightarrow> watched k' fd = watched k fd)"
proof -
  have "\<exists>ev. apply_channel_op ctl x (k, ch) = epoll_updatechannel ctl k (ch\<lparr>ch_events := ev\<rparr>)"
    by (cases x) (auto simp: channel_ops)
  then obtain ev where "apply_channel_op ctl x (k, ch) = epoll_updatechannel ctl k (ch\<lparr>ch_events := ev\<rparr>)"
    by blast
  with updatechannel_synced [OF assms, of ev] show ?thesis
    by (fastforce simp: synced_def)
qed

text \<open>
  A channel and the kernel's interest list stay in step: starting from a channel that is in
  step with the kernel, any sequence of enabling and disabling runs through without hitting an
  \<open>exit(-1)\<close>, leaves the descriptor registered with exactly the mask the channel holds, and
  touches no other descriptor.
\<close>

theorem channel_ops_keep_sync:
  assumes "epoll_ctl_spec ctl watched" "synced watched k ch"
  shows "\<exists>k' ch'. channel_ops_run ctl xs (k, ch) = Inr (k', ch') \<and> synced watched k' ch' \<and>
    ch_fd ch' = ch_fd ch \<and> (xs \<noteq> [] \<longrightarrow> watched k' (ch_fd ch) = Some (ch_events ch')) \<and>
    (\<forall>fd. fd \<noteq> ch_fd ch \<longrightarrow> watched k' fd = watched k fd)"
  using assms(2)
proof (induction xs arbitrary: k ch)
  case (Cons x xs)
  obtain k1 ch1 where 1: "apply_channel_op ctl x (k, ch) = Inr (k1, ch1)" "synced watched k1 ch1"
      "inepoll ch1" "ch_fd ch1 = ch_fd ch" "\<forall>fd. fd \<noteq> ch_fd ch \<longrightarrow> watched k1 fd = watched k fd"
    using channel_op_synced [OF assms(1) Cons.prems] by blast
  from Cons.IH [OF 1(2)] 1 show ?case
    by (cases "xs = []") (auto simp: synced_def)
qed simp

text \<open>A kernel that has no more than the interest list, for the witnesses.\<close>

fun list_ctl :: "(int \<Rightarrow> 32 word option) epoll_ctl" where
  "list_ctl CTL_ADD fd ev k = (case k fd of None \<Rightarrow> Some (k(fd := Some ev)) | Some _ \<Rightarrow> None)"
| "list_ctl CTL_MOD fd ev k = (case k fd of None \<Rightarrow> None | Some _ \<Rightarrow> Some (k(fd := Some ev)))"
| "list_ctl CTL_DEL fd ev k = (case k fd of None \<Rightarrow> None | Some _ \<Rightarrow> Some (k(fd := None)))"

lemma list_ctl_spec: "epoll_ctl_spec list_ctl (\<lambda>k. k)"
  by (auto simp: epoll_ctl_spec_def split: option.splits)

theorem channel_ops_keep_sync_witness:
  "\<exists>k' ch'. channel_ops_run list_ctl [EnableReading, EnableWriting, DisableReading]
     (\<lambda>_. None, new_channel 7) = Inr (k', ch') \<and> k' 7 = Some (ch_events ch')"
  using channel_ops_keep_sync [OF list_ctl_spec, of "\<lambda>_. None" "new_channel 7"
      "[EnableReading, EnableWriting, DisableReading]"]
  by (auto simp: synced_def new_channel_def)

text \<open>
  \<open>remove()\<close> is final: it takes the descriptor out of the kernel but leaves \<open>inepoll_\<close> set,
  so any later call that updates the channel (enabling, disabling or a second \<open>remove()\<close>) makes
  \<open>epoll_ctl\<close> fail with ENOENT and ends the process.
\<close>

theorem remove_then_update_exits:
  assumes "epoll_ctl_spec ctl watched" "synced watched k ch"
  shows "\<exists>k' ch'. remove_channel ctl k ch = Inr (k', ch') \<and> watched k' (ch_fd ch) = None \<and>
    (\<forall>x. apply_channel_op ctl x (k', ch') = Inl Exit) \<and> remove_channel ctl k' ch' = Inl Exit"
proof -
  obtain k' where r: "remove_channel ctl k ch = Inr (k', ch\<lparr>ch_events := 0, inepoll := True\<rparr>)"
    and w: "watched k' = (watched k)(ch_fd ch := None)"
    using remove_channel_synced [OF assms] by blast
  let ?ch = "ch\<lparr>ch_events := 0, inepoll := True\<rparr>"
  have u: "epoll_updatechannel ctl k' (?ch\<lparr>ch_events := ev\<rparr>) = Inl Exit" for ev
    by (rule updatechannel_removed [OF assms(1)]) (simp_all add: w)
  have "apply_channel_op ctl x (k', ?ch) = Inl Exit" for x
    using u by (cases x) (simp_all only: apply_channel_op.simps channel_ops)
  moreover have "remove_channel ctl k' ?ch = Inl Exit"
    using u [of 0] by (simp add: remove_channel_def disableall_def)
  ultimately show ?thesis using r w by auto
qed

theorem remove_then_update_exits_witness:
  "\<exists>k' ch'. remove_channel list_ctl (\<lambda>_. None) (new_channel 7) = Inr (k', ch') \<and>
     remove_channel list_ctl k' ch' = Inl Exit"
  using remove_then_update_exits [OF list_ctl_spec, of "\<lambda>_. None" "new_channel 7"]
  by (auto simp: synced_def new_channel_def)

text \<open>
  The choice of the callback, for every event mask: hang-up first (after \<open>remove()\<close>), then
  data to read, then room to write, then error. In particular room to write that is reported
  together with data to read is not acted on, and with no callback installed the call throws.
\<close>

lemma handleevent_table:
  "handleevent rm cbs ev w =
    (let cb = (if ev AND EPOLLRDHUP \<noteq> 0 then CloseCb
               else if ev AND EPOLLIN \<noteq> 0 \<or> ev AND EPOLLPRI \<noteq> 0 then ReadCb
               else if ev AND EPOLLOUT \<noteq> 0 then WriteCb else ErrorCb);
         start = (if cb = CloseCb then rm w else Inr w)
     in bind_res start (\<lambda>w'. case cbs cb of None \<Rightarrow> Inl EmptyCall | Some f \<Rightarrow> f w'))"
proof -
  have "ev AND (EPOLLIN OR EPOLLPRI) \<noteq> 0 \<longleftrightarrow> ev AND EPOLLIN \<noteq> 0 \<or> ev AND EPOLLPRI \<noteq> 0"
    by (simp add: bit.conj_disj_distrib or_eq_0_iff)
  moreover have "call_cb cbs cb = (\<lambda>w'. case cbs cb of None \<Rightarrow> Inl EmptyCall | Some f \<Rightarrow> f w')" for cb
    by (rule ext) (simp add: call_cb_def)
  ultimately show ?thesis
    by (simp add: handleevent_def Let_def)
qed

end
