(* ===== verification/EventLoopModel.thy ===== *)
theory EventLoopModel
  imports StdMap ChannelModel
begin

text \<open>
  \<open>src/net/EventLoop\<close>: the task queue filled by other threads and drained on the wake-up
  event, the sweep over idle connections on the timer event, the table of connections of the loop,
  and the loop itself over the batches of events \<open>epoll_wait\<close> returns. A task and a connection
  are type parameters; what a task does is an argument of \<open>handlewakeup\<close>.
\<close>

section \<open>State and operations\<close>

record ('t, 'c) event_loop =
  timeval :: int
  timeout_secs :: int
  mainloop :: bool
  taskqueue :: "'t list"
  wakeups :: nat
  el_conns :: "(int, 'c) smap"
  el_stop :: bool

definition new_event_loop :: "bool \<Rightarrow> int \<Rightarrow> int \<Rightarrow> ('t, 'c) event_loop" where
  "new_event_loop main tv tmo = \<lparr>timeval = tv, timeout_secs = tmo, mainloop = main,
     taskqueue = [], wakeups = 0, el_conns = [], el_stop = False\<rparr>"

text \<open>\<open>wakeups\<close> is the counter of the eventfd: written one by one, read and cleared at once.\<close>

definition wakeup :: "('t, 'c) event_loop \<Rightarrow> ('t, 'c) event_loop" where
  "wakeup l = l\<lparr>wakeups := wakeups l + 1\<rparr>"

definition queueinloop :: "'t \<Rightarrow> ('t, 'c) event_loop \<Rightarrow> ('t, 'c) event_loop" where
  "queueinloop fn l = wakeup (l\<lparr>taskqueue := taskqueue l @ [fn]\<rparr>)"

text \<open>The loop over the queue runs with the queue's mutex held, so nothing is added meanwhile.\<close>

fun run_tasks :: "('t \<Rightarrow> 'w \<Rightarrow> 'w res) \<Rightarrow> 't list \<Rightarrow> 'w \<Rightarrow> 'w res" where
  "run_tasks run [] w = Inr w"
| "run_tasks run (t # ts) w = bind_res (run t w) (run_tasks run ts)"

definition handlewakeup ::
  "('t \<Rightarrow> 'w \<Rightarrow> 'w res) \<Rightarrow> ('t, 'c) event_loop \<times> 'w \<Rightarrow> (('t, 'c) event_loop \<times> 'w) res" where
  "handlewakeup run = (\<lambda>(l, w).
     bind_res (run_tasks run (taskqueue l) w) (\<lambda>w'.
     Inr (l\<lparr>wakeups := 0, taskqueue := []\<rparr>, w')))"

text \<open>
  \<open>handletimer\<close>: \<open>expired\<close> is \<open>Connection::timeout\<close> for the time read; the result is the
  new table and the descriptors passed to \<open>timeoutcallback_\<close>, in order.
\<close>

fun timer_sweep :: "('c \<Rightarrow> bool) \<Rightarrow> (int, 'c) smap \<Rightarrow> int list \<times> (int, 'c) smap" where
  "timer_sweep expired [] = ([], [])"
| "timer_sweep expired ((fd, c) # cs) =
     (let (fds, cs') = timer_sweep expired cs in
      if expired c then (fd # fds, cs') else (fds, (fd, c) # cs'))"

definition handletimer ::
  "(int \<Rightarrow> 'c \<Rightarrow> bool) \<Rightarrow> ('t, 'c) event_loop \<Rightarrow> int list \<times> ('t, 'c) event_loop" where
  "handletimer expired l =
     (if mainloop l then ([], l)
      else let (fds, cs) = timer_sweep (expired (timeout_secs l)) (el_conns l)
           in (fds, l\<lparr>el_conns := cs\<rparr>))"

definition el_closeconnection :: "int \<Rightarrow> ('t, 'c) event_loop \<Rightarrow> ('t, 'c) event_loop" where
  "el_closeconnection fd l = l\<lparr>el_conns := smap_erase fd (el_conns l)\<rparr>"

definition el_newconnection :: "int \<Rightarrow> 'c \<Rightarrow> ('t, 'c) event_loop \<Rightarrow> ('t, 'c) event_loop" where
  "el_newconnection fd c l = l\<lparr>el_conns := smap_set fd c (el_conns l)\<rparr>"

definition el_set_stop :: "('t, 'c) event_loop \<Rightarrow> ('t, 'c) event_loop" where
  "el_set_stop l = wakeup (l\<lparr>el_stop := True\<rparr>)"

text \<open>
  \<open>run\<close> over the batches that the calls of \<open>epoll_wait\<close> return: \<open>stopped\<close> reads \<open>stop_\<close>,
  \<open>tcb\<close> is the timeout callback, \<open>handle\<close> is \<open>handleevent\<close> of one channel. The second result
  says whether the loop was left.
\<close>

fun handle_all :: "('e \<Rightarrow> 'w \<Rightarrow> 'w res) \<Rightarrow> 'e list \<Rightarrow> 'w \<Rightarrow> 'w res" where
  "handle_all handle [] w = Inr w"
| "handle_all handle (e # es) w = bind_res (handle e w) (handle_all handle es)"

fun loop_run :: "('w \<Rightarrow> bool) \<Rightarrow> ('w \<Rightarrow> 'w res) \<Rightarrow> ('e \<Rightarrow> 'w \<Rightarrow> 'w res) \<Rightarrow> 'e list list \<Rightarrow>
    'w \<Rightarrow> ('w \<times> bool) res" where
  "loop_run stopped tcb handle [] w = Inr (w, stopped w)"
| "loop_run stopped tcb handle (b # bs) w =
     (if stopped w then Inr (w, True)
      else bind_res (if b = [] then tcb w else handle_all handle b w)
             (loop_run stopped tcb handle bs))"

section \<open>Laws\<close>

lemma timer_sweep_eq:
  "timer_sweep expired cs =
     (map fst (filter (\<lambda>(fd, c). expired c) cs), filter (\<lambda>(fd, c). \<not> expired c) cs)"
  by (induction cs) auto

lemma run_tasks_append:
  "run_tasks run (ts @ us) w = bind_res (run_tasks run ts w) (run_tasks run us)"
proof (induction ts arbitrary: w)
  case (Cons t ts)
  then show ?case by (cases "run t w") auto
qed simp

lemma loop_run_stopped: "stopped w \<Longrightarrow> loop_run stopped tcb handle bs w = Inr (w, True)"
  by (cases bs) simp_all

section \<open>Properties\<close>

text \<open>
  The timer sweep: on an I/O loop exactly the connections idle for longer than the limit leave
  the table, each is reported once, in increasing order of its descriptor, and every other
  connection stays; the acceptor's loop changes nothing.
\<close>

theorem handletimer_sweeps:
  assumes "smap_inv (el_conns l)" "handletimer expired l = (fds, l')"
  shows "smap_inv (el_conns l') \<and> sorted_wrt (<) fds \<and>
    (\<forall>fd c. smap_find fd (el_conns l) = Some c \<longrightarrow>
      (let gone = (\<not> mainloop l \<and> expired (timeout_secs l) c) in
         (fd \<in> set fds \<longleftrightarrow> gone) \<and>
         smap_find fd (el_conns l') = (if gone then None else Some c))) \<and>
    set fds \<subseteq> fst ` set (el_conns l)"
proof (cases "mainloop l")
  case True
  then show ?thesis using assms by (auto simp: handletimer_def)
next
  case False
  let ?ex = "\<lambda>(fd, c). expired (timeout_secs l) c"
  let ?k = "filter ?ex (el_conns l)" and ?r = "filter (\<lambda>x. \<not> ?ex x) (el_conns l)"
  have r: "fds = map fst ?k" "el_conns l' = ?r"
    using assms(2) False by (auto simp: handletimer_def timer_sweep_eq case_prod_unfold)
  have k: "smap_inv ?k" by (rule smap_inv_filter [OF assms(1)])
  have "fd \<in> set fds \<longleftrightarrow> smap_find fd ?k \<noteq> None" for fd
    by (simp add: r smap_find_def map_of_eq_None_iff)
  then show ?thesis
    using smap_find_filter [OF assms(1)] smap_inv_filter [OF assms(1)] k False
    by (auto simp: r smap_inv_def Let_def)
qed

definition sample_loop :: "(unit, int) event_loop" where
  "sample_loop = (new_event_loop False 30 60)\<lparr>el_conns := [(5, 100), (7, 10), (9, 20)]\<rparr>"

theorem handletimer_sweeps_witness:
  "let (fds, l') = handletimer (\<lambda>lim c. 90 - c > lim) sample_loop
   in sorted_wrt (<) fds \<and> 7 \<in> set fds \<and> smap_find 7 (el_conns l') = None \<and>
      smap_find 5 (el_conns l') = Some 100"
proof -
  obtain fds l' where e: "handletimer (\<lambda>lim c. 90 - c > lim) sample_loop = (fds, l')"
    by fastforce
  have inv: "smap_inv (el_conns sample_loop)" by (simp add: sample_loop_def)
  have f: "smap_find 7 (el_conns sample_loop) = Some 10"
    "smap_find 5 (el_conns sample_loop) = Some 100"
    "\<not> mainloop sample_loop" "timeout_secs sample_loop = 60"
    by (simp_all add: sample_loop_def smap_find_def new_event_loop_def)
  note H = handletimer_sweeps [OF inv e]
  have "sorted_wrt (<) fds" using H by simp
  moreover have "7 \<in> set fds \<and> smap_find 7 (el_conns l') = None"
    using H [THEN conjunct2, THEN conjunct2, THEN conjunct1, rule_format, OF f(1)] f by simp
  moreover have "smap_find 5 (el_conns l') = Some 100"
    using H [THEN conjunct2, THEN conjunct2, THEN conjunct1, rule_format, OF f(2)] f by simp
  ultimately show ?thesis using e by simp
qed

end
