(* ===== verification/ConnectionModel.thy ===== *)
theory ConnectionModel
  imports BufferModel EventLoopModel
begin

text \<open>
  \<open>src/net/Connection\<close>: reading until the socket would block, handing messages to the server,
  sending from the loop thread or through its task queue, writing on the writable event, and the
  close and error callbacks. What \<open>recv\<close> returns is an argument (a list of results, one per
  call), as is what \<open>send\<close> returns. Object lifetime is not modelled: a connection is a value, so
  a use after destruction does not show.
\<close>

section \<open>State\<close>

record conn =
  c_fd :: int
  inputbuffer :: buffer
  outputbuffer :: buffer
  disconnect :: bool
  lastatime :: int
  chan :: channel

definition new_connection :: "'k epoll_ctl \<Rightarrow> int \<Rightarrow> int \<Rightarrow> 'k \<Rightarrow> ('k \<times> conn) res" where
  "new_connection ctl fd now k =
     bind_res (enablereading ctl k (useet (new_channel fd))) (\<lambda>(k', ch).
     Inr (k', \<lparr>c_fd = fd, inputbuffer = new_buffer_sep 0, outputbuffer = new_buffer_sep 0,
               disconnect = False, lastatime = now, chan = ch\<rparr>))"

text \<open>\<open>timeout\<close>: a \<open>time_t\<close> difference against an \<open>int\<close>.\<close>

definition conn_timeout :: "int \<Rightarrow> int \<Rightarrow> conn \<Rightarrow> bool" where
  "conn_timeout now val c \<longleftrightarrow> now - lastatime c > val"

definition on_channel :: "('k \<Rightarrow> channel \<Rightarrow> ('k \<times> channel) res) \<Rightarrow> 'k \<times> conn \<Rightarrow> ('k \<times> conn) res" where
  "on_channel f = (\<lambda>(k, c). bind_res (f k (chan c)) (\<lambda>(k', ch). Inr (k', c\<lparr>chan := ch\<rparr>)))"

text \<open>
  \<open>closecallback\<close> and \<open>errorcallback\<close> up to the call of the server's callback, which the
  server's model makes.
\<close>

definition conn_closecallback :: "'k epoll_ctl \<Rightarrow> 'k \<times> conn \<Rightarrow> ('k \<times> conn) res" where
  "conn_closecallback ctl = (\<lambda>(k, c).
     on_channel (remove_channel ctl) (k, c\<lparr>disconnect := True\<rparr>))"

definition conn_errorcallback :: "'k epoll_ctl \<Rightarrow> 'k \<times> conn \<Rightarrow> ('k \<times> conn) res" where
  "conn_errorcallback ctl = (\<lambda>(k, c).
     on_channel (remove_channel ctl) (k, c\<lparr>disconnect := True\<rparr>))"

section \<open>Reading\<close>

datatype sock_errno = EINTR | EAGAIN | EOther

text \<open>\<open>Recv d\<close> is a call that returns \<open>length d\<close> bytes, at most 1023; \<open>Recv []\<close> is end of file.\<close>

datatype recv_result = Recv string | RecvErr sock_errno

datatype read_end = StillReading | WouldBlock | PeerClosed

text \<open>
  The inner \<open>while(true)\<close>: one message after the other until \<open>pickmessage\<close> answers false. The
  callback gets the message and does not touch the input buffer, so the model collects the
  messages in the order of the calls.
\<close>

partial_function (option) deliver_loop ::
  "buffer \<Rightarrow> string list \<Rightarrow> (string list \<times> buffer) res option" where
  "deliver_loop b msgs =
     (case pickmessage b [] of
        Inl f \<Rightarrow> Some (Inl f)
      | Inr (picked, m, b') \<Rightarrow>
          if picked then deliver_loop b' (msgs @ [m]) else Some (Inr (msgs, b')))"

declare deliver_loop.simps [code]

fun onmessagecallback :: "'k epoll_ctl \<Rightarrow> int \<Rightarrow> recv_result list \<Rightarrow> 'k \<times> conn \<Rightarrow>
    (read_end \<times> string list \<times> 'k \<times> conn) res option" where
  "onmessagecallback ctl now [] (k, c) = Some (Inr (StillReading, [], k, c))"
| "onmessagecallback ctl now (Recv d # rs) (k, c) =
     (if d \<noteq> [] then
        onmessagecallback ctl now rs (k, c\<lparr>inputbuffer := buffer_append (inputbuffer c) d\<rparr>)
      else Some (bind_res (conn_closecallback ctl (k, c)) (\<lambda>(k', c').
        Inr (PeerClosed, [], k', c'))))"
| "onmessagecallback ctl now (RecvErr EINTR # rs) (k, c) = onmessagecallback ctl now rs (k, c)"
| "onmessagecallback ctl now (RecvErr EAGAIN # rs) (k, c) =
     map_option (\<lambda>r. bind_res r (\<lambda>(msgs, b).
       Inr (WouldBlock, msgs, k,
            c\<lparr>inputbuffer := b, lastatime := (if msgs = [] then lastatime c else now)\<rparr>)))
       (deliver_loop (inputbuffer c) [])"
| "onmessagecallback ctl now (RecvErr EOther # rs) (k, c) = onmessagecallback ctl now rs (k, c)"

section \<open>Writing\<close>

definition sendinloop :: "'k epoll_ctl \<Rightarrow> string \<Rightarrow> 'k \<times> conn \<Rightarrow> ('k \<times> conn) res" where
  "sendinloop ctl data = (\<lambda>(k, c).
     on_channel (enablewriting ctl)
       (k, c\<lparr>outputbuffer := appendwithsep (outputbuffer c) data\<rparr>))"

text \<open>The task that \<open>send\<close> queues is \<open>sendinloop\<close> with the copied data.\<close>

definition conn_send :: "'k epoll_ctl \<Rightarrow> bool \<Rightarrow> string \<Rightarrow> (string, 'c) event_loop \<times> 'k \<times> conn \<Rightarrow>
    ((string, 'c) event_loop \<times> 'k \<times> conn) res" where
  "conn_send ctl inloopthread data = (\<lambda>(l, k, c).
     if disconnect c then Inr (l, k, c)
     else if inloopthread then
       bind_res (sendinloop ctl data (k, c)) (\<lambda>(k', c'). Inr (l, k', c'))
     else Inr (queueinloop data l, k, c))"

text \<open>\<open>writen\<close> is what \<open>::send\<close> returns; the flag says whether \<open>complatecallback_\<close> was called.\<close>

definition writecallback :: "'k epoll_ctl \<Rightarrow> int \<Rightarrow> 'k \<times> conn \<Rightarrow> (bool \<times> 'k \<times> conn) res" where
  "writecallback ctl writen = (\<lambda>(k, c).
     bind_res (if writen > 0 then buffer_erase (outputbuffer c) 0 writen else Inr (outputbuffer c))
       (\<lambda>b. let c1 = c\<lparr>outputbuffer := b\<rparr> in
         if buffer_size b = 0 then
           bind_res (on_channel (disablewriting ctl) (k, c1)) (\<lambda>(k', c'). Inr (True, k', c'))
         else Inr (False, k, c1)))"

section \<open>The sending side as a stream\<close>

text \<open>
  The steps of the sending side of one open connection: \<open>send\<close> called in the loop's thread or in
  another one, the wake-up event and the writable event. \<open>Writable (Some n)\<close> is a socket with room
  for \<open>n\<close> bytes, \<open>Writable None\<close> one where \<open>::send\<close> answers \<open>-1\<close>. \<open>wire\<close> collects the bytes the
  kernel has taken.
\<close>

datatype io_event = SendIn string | SendOut string | Wake | Writable "nat option"

record ('k, 'c) io =
  io_loop :: "(string, 'c) event_loop"
  io_kernel :: 'k
  io_conn :: conn
  wire :: string

definition io_set :: "('k, 'c) io \<Rightarrow> (string, 'c) event_loop \<times> 'k \<times> conn \<Rightarrow> ('k, 'c) io" where
  "io_set s = (\<lambda>(l, k, c). s\<lparr>io_loop := l, io_kernel := k, io_conn := c\<rparr>)"

definition io_get :: "('k, 'c) io \<Rightarrow> (string, 'c) event_loop \<times> 'k \<times> conn" where
  "io_get s = (io_loop s, io_kernel s, io_conn s)"

definition writen :: "nat option \<Rightarrow> string \<Rightarrow> int" where
  "writen r out = (case r of None \<Rightarrow> - 1 | Some n \<Rightarrow> int (min n (length out)))"

fun io_step :: "'k epoll_ctl \<Rightarrow> io_event \<Rightarrow> ('k, 'c) io \<Rightarrow> ('k, 'c) io res" where
  "io_step ctl (SendIn d) s = bind_res (conn_send ctl True d (io_get s)) (\<lambda>r. Inr (io_set s r))"
| "io_step ctl (SendOut d) s = bind_res (conn_send ctl False d (io_get s)) (\<lambda>r. Inr (io_set s r))"
| "io_step ctl Wake s =
     bind_res (handlewakeup (sendinloop ctl) (io_get s)) (\<lambda>r. Inr (io_set s r))"
| "io_step ctl (Writable r) s =
     (let out = buffer_data (outputbuffer (io_conn s)); n = writen r out in
      bind_res (writecallback ctl n (io_kernel s, io_conn s)) (\<lambda>(fin, k, c).
      Inr (s\<lparr>io_kernel := k, io_conn := c, wire := wire s @ take (nat n) out\<rparr>)))"

fun io_run :: "'k epoll_ctl \<Rightarrow> io_event list \<Rightarrow> ('k, 'c) io \<Rightarrow> ('k, 'c) io res" where
  "io_run ctl [] s = Inr s"
| "io_run ctl (e # es) s = bind_res (io_step ctl e s) (io_run ctl es)"

text \<open>
  What it promises: three queues, the data other threads have posted, the data buffered and the
  data on the wire. Nothing is lost, repeated or reordered between them.
\<close>

record out_spec =
  posted :: "string list"
  buffered :: string
  delivered :: string

fun out_step :: "io_event \<Rightarrow> out_spec \<Rightarrow> out_spec" where
  "out_step (SendIn d) a = a\<lparr>buffered := buffered a @ d\<rparr>"
| "out_step (SendOut d) a = a\<lparr>posted := posted a @ [d]\<rparr>"
| "out_step Wake a = a\<lparr>buffered := buffered a @ concat (posted a), posted := []\<rparr>"
| "out_step (Writable None) a = a"
| "out_step (Writable (Some n)) a =
     a\<lparr>delivered := delivered a @ take n (buffered a), buffered := drop n (buffered a)\<rparr>"

definition io_abs :: "('k, 'c) io \<Rightarrow> out_spec" where
  "io_abs s = \<lparr>posted = taskqueue (io_loop s), buffered = b_buf (outputbuffer (io_conn s)),
     delivered = wire s\<rparr>"

text \<open>
  The invariant of an open connection: registered and in step with the kernel, and armed for
  writing as long as there is something to write.
\<close>

definition conn_open :: "('k \<Rightarrow> int \<Rightarrow> 32 word option) \<Rightarrow> 'k \<Rightarrow> conn \<Rightarrow> bool" where
  "conn_open watched k c \<longleftrightarrow> synced watched k (chan c) \<and> inepoll (chan c) \<and>
     \<not> disconnect c \<and> b_sep (outputbuffer c) = 0 \<and>
     (b_buf (outputbuffer c) \<noteq> [] \<longrightarrow> ch_events (chan c) AND EPOLLOUT \<noteq> 0)"

lemma out_armed: "(ev OR EPOLLOUT) AND EPOLLOUT \<noteq> 0"
  by (simp add: EPOLLOUT_def bit.conj_disj_distrib2 or_eq_0_iff)

lemma EPOLLOUT_nonzero: "EPOLLOUT \<noteq> 0"
  by (simp add: EPOLLOUT_def)

lemma take_writen: "take (nat (writen (Some n) xs)) xs = take n xs"
  by (simp add: writen_def min_def)

lemma erase_writen:
  "(if writen r (b_buf b) > 0 then buffer_erase b 0 (writen r (b_buf b)) else Inr b) =
     Inr (b\<lparr>b_buf := (case r of None \<Rightarrow> b_buf b | Some n \<Rightarrow> drop n (b_buf b))\<rparr>)"
proof (cases r)
  case (Some n)
  have "drop (min n (length (b_buf b))) (b_buf b) = drop n (b_buf b)"
    by (simp add: min_def)
  then show ?thesis
    using Some by (cases "n = 0 \<or> b_buf b = []")
      (auto simp: writen_def buffer_erase_front simp del: of_nat_min)
qed (simp add: writen_def)

lemma sendinloop_open:
  assumes "epoll_ctl_spec ctl watched" "conn_open watched k c"
  shows "\<exists>k' c'. sendinloop ctl d (k, c) = Inr (k', c') \<and> conn_open watched k' c' \<and>
    b_buf (outputbuffer c') = b_buf (outputbuffer c) @ d"
proof -
  let ?ev = "ch_events (chan c) OR EPOLLOUT"
  have s: "synced watched k (chan c)" using assms(2) by (simp add: conn_open_def)
  from updatechannel_synced [OF assms(1) s, of ?ev] obtain k' where
    "enablewriting ctl k (chan c) = Inr (k', chan c\<lparr>ch_events := ?ev, inepoll := True\<rparr>)"
    "watched k' = (watched k)(ch_fd (chan c) := Some ?ev)"
    by (auto simp: enablewriting_def)
  then show ?thesis
    using assms(2) by (simp add: sendinloop_def on_channel_def conn_open_def synced_def out_armed
        out.content_put EPOLLOUT_nonzero)
qed

lemma run_sendinloop_open:
  assumes "epoll_ctl_spec ctl watched" "conn_open watched k c"
  shows "\<exists>k' c'. run_tasks (sendinloop ctl) ds (k, c) = Inr (k', c') \<and> conn_open watched k' c' \<and>
    b_buf (outputbuffer c') = b_buf (outputbuffer c) @ concat ds"
  using assms(2)
proof (induction ds arbitrary: k c)
  case (Cons d ds)
  obtain k1 c1 where 1: "sendinloop ctl d (k, c) = Inr (k1, c1)" "conn_open watched k1 c1"
    "b_buf (outputbuffer c1) = b_buf (outputbuffer c) @ d"
    using sendinloop_open [OF assms(1) Cons.prems] by blast
  from Cons.IH [OF 1(2)] show ?case using 1 by auto
qed simp

lemma writecallback_open:
  assumes "epoll_ctl_spec ctl watched" "conn_open watched k c"
  shows "\<exists>fin k' c'. writecallback ctl (writen r (b_buf (outputbuffer c))) (k, c) = Inr (fin, k', c') \<and>
    conn_open watched k' c' \<and>
    b_buf (outputbuffer c') = (case r of None \<Rightarrow> b_buf (outputbuffer c)
      | Some n \<Rightarrow> drop n (b_buf (outputbuffer c))) \<and>
    (fin \<longleftrightarrow> b_buf (outputbuffer c') = [])"
proof -
  let ?ev = "ch_events (chan c) AND NOT EPOLLOUT"
  have s: "synced watched k (chan c)" using assms(2) by (simp add: conn_open_def)
  from updatechannel_synced [OF assms(1) s, of ?ev] obtain k' where
    "disablewriting ctl k (chan c) = Inr (k', chan c\<lparr>ch_events := ?ev, inepoll := True\<rparr>)"
    "watched k' = (watched k)(ch_fd (chan c) := Some ?ev)"
    by (auto simp: disablewriting_def)
  then show ?thesis
    using assms(2) by (cases r) (auto simp: erase_writen writecallback_def on_channel_def conn_open_def
        synced_def buffer_size_def Let_def)
qed

lemma io_step_refines:
  assumes "epoll_ctl_spec ctl watched" "conn_open watched (io_kernel s) (io_conn s)"
  shows "\<exists>s'. io_step ctl e s = Inr s' \<and> io_abs s' = out_step e (io_abs s) \<and>
    conn_open watched (io_kernel s') (io_conn s')"
proof (cases e)
  case (SendIn d)
  with sendinloop_open [OF assms, of d] assms(2) show ?thesis
    by (auto simp: conn_send_def io_get_def io_set_def io_abs_def conn_open_def)
next
  case (SendOut d)
  with assms(2) show ?thesis
    by (auto simp: conn_send_def io_get_def io_set_def io_abs_def conn_open_def queueinloop_def wakeup_def)
next
  case Wake
  with run_sendinloop_open [OF assms, of "taskqueue (io_loop s)"] show ?thesis
    by (auto simp: handlewakeup_def io_get_def io_set_def io_abs_def)
next
  case (Writable r)
  with writecallback_open [OF assms, of r] show ?thesis
    by (cases r) (auto simp: io_abs_def buffer_data_def Let_def take_writen, simp add: writen_def)
qed

lemma io_run_refines:
  assumes "epoll_ctl_spec ctl watched" "conn_open watched (io_kernel s) (io_conn s)"
  shows "\<exists>s'. io_run ctl es s = Inr s' \<and> io_abs s' = fold out_step es (io_abs s) \<and>
    conn_open watched (io_kernel s') (io_conn s')"
  using assms(2)
proof (induction es arbitrary: s)
  case (Cons e es)
  from io_step_refines [OF assms(1) Cons.prems, of e] show ?case
    using Cons.IH by fastforce
qed simp

section \<open>Properties\<close>

text \<open>
  C10. Refinement of the sending side: on an open connection any sequence of sends (from the loop's
  thread or another one), wake-ups and writable events runs through, moves the bytes between
  posted, buffered and delivered exactly as the three queues of the specification, and keeps the
  connection armed for writing while anything is buffered.
\<close>

theorem conn_send_refines:
  assumes "epoll_ctl_spec ctl watched" "conn_open watched (io_kernel s) (io_conn s)"
  shows "\<exists>s'. io_run ctl es s = Inr s' \<and> io_abs s' = fold out_step es (io_abs s) \<and>
    conn_open watched (io_kernel s') (io_conn s')"
  by (rule io_run_refines [OF assms])

text \<open>The connection as its constructor leaves it, on a kernel that knows only interest lists.\<close>

definition sample_io :: "((int \<Rightarrow> 32 word option), unit) io" where
  "sample_io =
     \<lparr>io_loop = new_event_loop False 30 60, io_kernel = (\<lambda>_. None)(7 := Some (EPOLLET OR EPOLLIN)),
      io_conn = \<lparr>c_fd = 7, inputbuffer = new_buffer_sep 0, outputbuffer = new_buffer_sep 0,
        disconnect = False, lastatime = 0,
        chan = \<lparr>ch_fd = 7, inepoll = True, ch_events = EPOLLET OR EPOLLIN, ch_revents = 0\<rparr>\<rparr>,
      wire = []\<rparr>"

lemma new_connection_open:
  assumes "epoll_ctl_spec ctl watched" "watched k fd = None"
  shows "\<exists>k' c. new_connection ctl fd now k = Inr (k', c) \<and> conn_open watched k' c \<and>
    c_fd c = fd \<and> b_buf (outputbuffer c) = [] \<and> b_buf (inputbuffer c) = []"
proof -
  have "synced watched k (useet (new_channel fd))"
    using assms(2) by (simp add: synced_def useet_def new_channel_def)
  from updatechannel_synced [OF assms(1) this, of "ch_events (useet (new_channel fd)) OR EPOLLIN"]
  obtain k' where "enablereading ctl k (useet (new_channel fd)) = Inr (k', useet (new_channel fd)
      \<lparr>ch_events := ch_events (useet (new_channel fd)) OR EPOLLIN, inepoll := True\<rparr>)"
    "watched k' = (watched k)(ch_fd (useet (new_channel fd)) := Some (ch_events (useet (new_channel fd)) OR EPOLLIN))"
    by (auto simp: enablereading_def)
  then show ?thesis
    by (simp add: new_connection_def conn_open_def synced_def new_buffer_sep_def)
qed

lemma sample_io_open: "conn_open (\<lambda>k. k) (io_kernel sample_io) (io_conn sample_io)"
  by (simp add: sample_io_def conn_open_def synced_def new_buffer_sep_def)

lemma sample_io_new:
  "new_connection list_ctl 7 0 (\<lambda>_. None) = Inr (io_kernel sample_io, io_conn sample_io)"
  by (simp add: new_connection_def enablereading_def epoll_updatechannel_def useet_def
      new_channel_def setinepoll_def sample_io_def)

lemma sample_io_abs: "io_abs sample_io = \<lparr>posted = [], buffered = [], delivered = []\<rparr>"
  by (simp add: sample_io_def io_abs_def new_event_loop_def new_buffer_sep_def)

theorem conn_send_refines_witness:
  "\<exists>s'. io_run list_ctl [SendOut ''ab'', SendIn ''c'', Wake, Writable (Some 2)] sample_io = Inr s' \<and>
     io_abs s' = \<lparr>posted = [], buffered = ''b'', delivered = ''ca''\<rparr>"
  using conn_send_refines [OF list_ctl_spec sample_io_open,
      of "[SendOut ''ab'', SendIn ''c'', Wake, Writable (Some 2)]"]
  by (auto simp: sample_io_abs)

definition sent_out :: "io_event \<Rightarrow> string" where
  "sent_out e = (case e of SendOut d \<Rightarrow> d | _ \<Rightarrow> [])"

definition is_send_in :: "io_event \<Rightarrow> bool" where
  "is_send_in e = (case e of SendIn _ \<Rightarrow> True | _ \<Rightarrow> False)"

lemma out_steps_fifo:
  "\<not> list_ex is_send_in es \<Longrightarrow>
   (let a' = fold out_step es a in delivered a' @ buffered a' @ concat (posted a')) =
   delivered a @ buffered a @ concat (posted a) @ concat (map sent_out es)"
proof (induction es arbitrary: a)
  case (Cons e es)
  then show ?case
    by (cases "(e, a)" rule: out_step.cases)
      (simp_all add: is_send_in_def sent_out_def Let_def)
qed simp

text \<open>
  Delivery: as long as all replies are sent from other threads, whatever happens in between,
  one more wake-up and a socket that takes everything put all of them on the wire, complete and in
  the order in which they were sent.
\<close>

theorem conn_send_delivers:
  assumes "epoll_ctl_spec ctl watched" "conn_open watched (io_kernel s) (io_conn s)"
    and "\<not> list_ex is_send_in es" "io_abs s = \<lparr>posted = [], buffered = [], delivered = []\<rparr>"
    and "length (concat (map sent_out es)) \<le> n"
  shows "\<exists>s'. io_run ctl (es @ [Wake, Writable (Some n)]) s = Inr s' \<and>
    wire s' = concat (map sent_out es) \<and> b_buf (outputbuffer (io_conn s')) = []"
proof -
  obtain s' where s': "io_run ctl (es @ [Wake, Writable (Some n)]) s = Inr s'"
    "io_abs s' = fold out_step (es @ [Wake, Writable (Some n)]) (io_abs s)"
    using io_run_refines [OF assms(1,2)] by blast
  let ?a = "fold out_step es (io_abs s)"
  have all: "delivered ?a @ buffered ?a @ concat (posted ?a) = concat (map sent_out es)"
    using out_steps_fifo [OF assms(3), of "io_abs s"] by (simp add: assms(4) Let_def)
  then have "length (buffered ?a @ concat (posted ?a)) \<le> n"
    using assms(5) by (metis length_append le_add2 le_trans)
  with s'(2) all have "delivered (io_abs s') = concat (map sent_out es) \<and> buffered (io_abs s') = []"
    by simp
  with s'(1) show ?thesis by (simp add: io_abs_def)
qed

theorem conn_send_delivers_witness:
  "\<exists>s'. io_run list_ctl [SendOut ''ab'', Writable None, Wake, SendOut ''c'', Writable (Some 1), Wake,
      Writable (Some 9)] sample_io = Inr s' \<and> wire s' = ''abc''"
  using conn_send_delivers [OF list_ctl_spec sample_io_open, of "[SendOut ''ab'', Writable None, Wake,
      SendOut ''c'', Writable (Some 1)]" 9]
  by (auto simp: sample_io_abs is_send_in_def sent_out_def)

text \<open>
  A reply that arrives after the peer has gone: \<open>send\<close> only looks at \<open>disconnect_\<close> when the
  task is queued. If the connection is closed between that and the wake-up, the queued task
  enables writing on the removed channel and the whole server ends through \<open>exit(-1)\<close>.
\<close>

theorem queued_send_after_close_exits:
  assumes "epoll_ctl_spec ctl watched" "conn_open watched k c"
    and "conn_send ctl False d (l, k, c) = Inr (l1, k1, c1)" "conn_closecallback ctl (k1, c1) = Inr (k2, c2)"
    and "taskqueue l = []"
  shows "disconnect c2 \<and> handlewakeup (sendinloop ctl) (l1, k2, c2) = Inl Exit"
proof -
  have l1: "l1 = queueinloop d l" "k1 = k" "c1 = c"
    using assms(2,3) by (simp_all add: conn_send_def conn_open_def)
  have s: "synced watched k (chan c)" "inepoll (chan c)"
    using assms(2) by (simp_all add: conn_open_def)
  from remove_channel_synced [OF assms(1) s(1)] obtain k' where
    r: "remove_channel ctl k (chan c) = Inr (k', (chan c)\<lparr>ch_events := 0, inepoll := True\<rparr>)"
      "watched k' = (watched k)(ch_fd (chan c) := None)"
    by blast
  let ?ch = "(chan c)\<lparr>ch_events := 0, inepoll := True\<rparr>"
  have c2: "k2 = k'" "chan c2 = ?ch" "disconnect c2"
    using assms(4) r(1) by (auto simp: l1 conn_closecallback_def on_channel_def)
  have "enablewriting ctl k' ?ch = Inl Exit"
    unfolding enablewriting_def
    by (rule updatechannel_removed [OF assms(1)]) (simp_all add: r(2))
  then have "sendinloop ctl d (k2, c2) = Inl Exit"
    by (simp add: sendinloop_def on_channel_def c2)
  then show ?thesis
    using c2(3) assms(5) by (simp add: handlewakeup_def l1 queueinloop_def wakeup_def)
qed

theorem queued_send_after_close_exits_witness:
  "\<exists>l1 k1 c1 k2 c2. conn_send list_ctl False ''x'' (io_get sample_io) = Inr (l1, k1, c1) \<and>
     conn_closecallback list_ctl (k1, c1) = Inr (k2, c2) \<and>
     handlewakeup (sendinloop list_ctl) (l1, k2, c2) = Inl Exit"
proof -
  obtain l1 k1 c1 where 1: "conn_send list_ctl False ''x'' (io_get sample_io) = Inr (l1, k1, c1)"
    and c1: "k1 = io_kernel sample_io" "c1 = io_conn sample_io"
    by (auto simp: conn_send_def io_get_def sample_io_def)
  obtain k2 c2 where 2: "conn_closecallback list_ctl (k1, c1) = Inr (k2, c2)"
    using remove_channel_synced [OF list_ctl_spec, of k1 "chan c1"] sample_io_open
    by (auto simp: c1 conn_closecallback_def on_channel_def conn_open_def)
  have "taskqueue (io_loop sample_io) = []" by (simp add: sample_io_def new_event_loop_def)
  from queued_send_after_close_exits [OF list_ctl_spec sample_io_open 1 [unfolded io_get_def] 2 this] 1 2
  show ?thesis by blast
qed

section \<open>The receiving side\<close>

text \<open>
  What the input buffer holds after the chunks \<open>ds\<close>: a chunk that does not fit is dropped whole.
\<close>

fun kept :: "nat \<Rightarrow> string \<Rightarrow> string list \<Rightarrow> string" where
  "kept lim acc [] = acc"
| "kept lim acc (d # ds) = kept lim (if length acc + length d \<le> lim then acc @ d else acc) ds"

lemma kept_all: "length (acc @ concat ds) \<le> lim \<Longrightarrow> kept lim acc ds = acc @ concat ds"
  by (induction ds arbitrary: acc) auto

fun chunks :: "recv_result list \<Rightarrow> string list" where
  "chunks [] = []"
| "chunks (Recv d # rs) = d # chunks rs"
| "chunks (RecvErr e # rs) = chunks rs"

definition receiving :: "recv_result \<Rightarrow> bool" where
  "receiving r \<longleftrightarrow> (case r of Recv d \<Rightarrow> 0 < length d \<and> length d \<le> 1023 | RecvErr e \<Rightarrow> e = EINTR)"

lemma deliver_loop_sep0:
  assumes "b_sep b = 0"
  shows "deliver_loop b [] =
    Some (Inr (if b_buf b = [] then [] else [b_buf b], buffer_clear b))"
proof -
  have e: "deliver_loop (buffer_clear b) ms = Some (Inr (ms, buffer_clear b))" for ms
    by (subst deliver_loop.simps) (simp add: pickmessage_def)
  show ?thesis
  proof (cases "b_buf b = []")
    case True
    then have "buffer_clear b = b" by (simp add: buffer_clear_def)
    with e [of "[]"] True show ?thesis by simp
  next
    case False
    then show ?thesis
      by (subst deliver_loop.simps) (simp add: pickmessage_def assms e)
  qed
qed

lemma receiving_loop:
  assumes "\<forall>r \<in> set rs. receiving r" "within_max (inputbuffer c)" "b_sep (inputbuffer c) = 0"
  shows "\<exists>b. onmessagecallback ctl now (rs @ t) (k, c) =
      onmessagecallback ctl now t (k, c\<lparr>inputbuffer := b\<rparr>) \<and>
    b_buf b = kept (unat (b_maxLen (inputbuffer c))) (b_buf (inputbuffer c)) (chunks rs) \<and>
    b_sep b = 0 \<and> b_maxLen b = b_maxLen (inputbuffer c)"
  using assms
proof (induction rs arbitrary: c)
  case Nil
  then show ?case by (auto intro: exI [of _ "inputbuffer c"])
next
  case (Cons r rs)
  show ?case
  proof (cases r)
    case (RecvErr e)
    with Cons show ?thesis by (cases e) (auto simp: receiving_def)
  next
    case (Recv d)
    let ?b = "buffer_append (inputbuffer c) d"
    have d: "d \<noteq> []" "length d < 2 ^ 64" "\<forall>r \<in> set rs. receiving r"
      using Cons.prems(1) Recv by (auto simp: receiving_def)
    from Cons.IH [of "c\<lparr>inputbuffer := ?b\<rparr>"] d Cons.prems(2,3)
    obtain b where "onmessagecallback ctl now (rs @ t) (k, c\<lparr>inputbuffer := ?b\<rparr>) =
        onmessagecallback ctl now t (k, c\<lparr>inputbuffer := b\<rparr>)"
      "b_buf b = kept (unat (b_maxLen ?b)) (b_buf ?b) (chunks rs)" "b_sep b = 0" "b_maxLen b = b_maxLen ?b"
      by (auto simp: within_max_append)
    then show ?thesis
      using Recv d Cons.prems(2) by (auto simp: buffer_append_eq)
  qed
qed

lemma onmessage_reads:
  assumes "\<forall>r \<in> set rs. receiving r" "within_max (inputbuffer c)" "b_sep (inputbuffer c) = 0"
  shows "\<exists>m b. onmessagecallback ctl now (rs @ [RecvErr EAGAIN]) (k, c) =
      Some (Inr (WouldBlock, if m = [] then [] else [m], k,
        c\<lparr>inputbuffer := b, lastatime := (if m = [] then lastatime c else now)\<rparr>)) \<and>
    b_buf b = [] \<and>
    m = kept (unat (b_maxLen (inputbuffer c))) (b_buf (inputbuffer c)) (chunks rs) \<and>
    (length (b_buf (inputbuffer c) @ concat (chunks rs)) \<le> unat (b_maxLen (inputbuffer c)) \<longrightarrow>
       m = b_buf (inputbuffer c) @ concat (chunks rs))"
proof -
  obtain b where b: "onmessagecallback ctl now (rs @ [RecvErr EAGAIN]) (k, c) =
      onmessagecallback ctl now [RecvErr EAGAIN] (k, c\<lparr>inputbuffer := b\<rparr>)"
    "b_buf b = kept (unat (b_maxLen (inputbuffer c))) (b_buf (inputbuffer c)) (chunks rs)" "b_sep b = 0"
    using receiving_loop [OF assms, where ctl = ctl and now = now and t = "[RecvErr EAGAIN]" and k = k] by blast
  show ?thesis
    by (intro exI [of _ "b_buf b"] exI [of _ "buffer_clear b"] conjI impI)
      (simp_all add: b(1) deliver_loop_sep0 [OF b(3)] b(2) kept_all)
qed

text \<open>
  C29. Reading until the socket would block: whatever arrives, interrupted calls included, is handed
  on as one message, the old content of the input buffer followed by all chunks in order, as long
  as that fits the limit of the buffer; beyond it whole chunks are missing from the message and
  nothing reports it. The input buffer is empty afterwards and the connection otherwise unchanged.
\<close>

theorem onmessage_delivers:
  assumes "\<forall>r \<in> set rs. receiving r" "within_max (inputbuffer c)" "b_sep (inputbuffer c) = 0"
  shows "\<exists>m b. onmessagecallback ctl now (rs @ [RecvErr EAGAIN]) (k, c) =
      Some (Inr (WouldBlock, if m = [] then [] else [m], k,
        c\<lparr>inputbuffer := b, lastatime := (if m = [] then lastatime c else now)\<rparr>)) \<and>
    b_buf b = [] \<and>
    m = kept (unat (b_maxLen (inputbuffer c))) (b_buf (inputbuffer c)) (chunks rs) \<and>
    (length (b_buf (inputbuffer c) @ concat (chunks rs)) \<le> unat (b_maxLen (inputbuffer c)) \<longrightarrow>
       m = b_buf (inputbuffer c) @ concat (chunks rs))"
  by (rule onmessage_reads [OF assms])

theorem onmessage_delivers_witness:
  "\<exists>c'. onmessagecallback list_ctl 50 [Recv ''ab'', RecvErr EINTR, Recv ''c'', RecvErr EAGAIN]
     (io_kernel sample_io, io_conn sample_io) =
     Some (Inr (WouldBlock, [''abc''], io_kernel sample_io, c')) \<and> lastatime c' = 50"
proof -
  have i: "inputbuffer (io_conn sample_io) = new_buffer_sep 0" by (simp add: sample_io_def)
  show ?thesis
    using onmessage_delivers [of "[Recv ''ab'', RecvErr EINTR, Recv ''c'']" "io_conn sample_io"
        list_ctl 50 "io_kernel sample_io"]
    by (auto simp: i receiving_def within_max_new) (auto simp: new_buffer_sep_def MAX_BUF_SIZE_def)
qed

lemma deliver_loop_queue:
  assumes "framed_buffer b"
  shows "\<exists>b'. deliver_loop b acc = Some (Inr (acc @ unframe (b_buf b), b')) \<and> framed_buffer b' \<and>
    unframe (b_buf b') = []"
  using assms
proof (induction "unframe (b_buf b)" arbitrary: b acc)
  case Nil
  then show ?case
    by (subst deliver_loop.simps) (simp add: mq.pick_empty)
next
  case (Cons m ms)
  then obtain b1 where 1: "pickmessage b [] = Inr (True, m, b1)" "framed_buffer b1" "unframe (b_buf b1) = ms"
    using mq.pick_Cons by metis
  from Cons.hyps(1) [OF 1(3) [symmetric] 1(2), of "acc @ [m]"]
  show ?case
    by (subst deliver_loop.simps) (simp add: 1 Cons.hyps(2) [symmetric])
qed

text \<open>
  A buffer of separator 1 gives back what was put in: messages appended with their length
  prefix come out of the delivery loop one by one, whole and in order, and the loop ends with the
  buffer empty.
\<close>

theorem framed_messages_roundtrip:
  assumes "\<forall>m \<in> set ms. msg_ok m"
  shows "\<exists>b'. deliver_loop (foldl appendwithsep (new_buffer_sep 1) ms) [] = Some (Inr (ms, b')) \<and>
    b_buf b' = []"
proof -
  have e: "framed_buffer (new_buffer_sep 1)" "unframe (b_buf (new_buffer_sep 1)) = []"
    by (simp_all add: framed_buffer_def new_buffer_sep_def unframe.simps)
  from mq.enq_all [OF e(1) assms] deliver_loop_queue
  obtain b' where "deliver_loop (foldl appendwithsep (new_buffer_sep 1) ms) [] = Some (Inr (ms, b'))"
    "framed_buffer b'" "unframe (b_buf b') = []"
    by (metis append_Nil e(2))
  moreover from this have "b_buf b' = []" by (simp add: framed_buffer_def)
  ultimately show ?thesis by blast
qed

theorem framed_messages_roundtrip_witness:
  "\<exists>b'. deliver_loop (foldl appendwithsep (new_buffer_sep 1) [''ab'', '''', ''c'']) [] =
     Some (Inr ([''ab'', '''', ''c''], b')) \<and> b_buf b' = []"
  by (rule framed_messages_roundtrip) (simp add: msg_ok_def)

section \<open>Hang-up events\<close>

text \<open>\<open>handleevent\<close> on the channel of a connection, with the callbacks its constructor sets.\<close>

definition conn_callbacks :: "'k epoll_ctl \<Rightarrow> ('k \<times> conn \<Rightarrow> ('k \<times> conn) res) \<Rightarrow>
    ('k \<times> conn \<Rightarrow> ('k \<times> conn) res) \<Rightarrow> callback \<Rightarrow> ('k \<times> conn \<Rightarrow> ('k \<times> conn) res) option" where
  "conn_callbacks ctl on_read on_write cb = Some (case cb of ReadCb \<Rightarrow> on_read | WriteCb \<Rightarrow> on_write
     | CloseCb \<Rightarrow> conn_closecallback ctl | ErrorCb \<Rightarrow> conn_errorcallback ctl)"

text \<open>
  Whatever arrives within one readable event before the end of the stream is dropped: a peer that
  sends a request and shuts down its side at once is not served.
\<close>

theorem data_before_close_lost:
  assumes "epoll_ctl_spec ctl watched" "conn_open watched k c" "\<forall>r \<in> set rs. receiving r"
    and "within_max (inputbuffer c)" "b_sep (inputbuffer c) = 0"
  shows "\<exists>k' c'. onmessagecallback ctl now (rs @ Recv [] # t) (k, c) = Some (Inr (PeerClosed, [], k', c')) \<and>
    disconnect c' \<and> watched k' (ch_fd (chan c)) = None \<and>
    b_buf (inputbuffer c') = kept (unat (b_maxLen (inputbuffer c))) (b_buf (inputbuffer c)) (chunks rs)"
proof -
  obtain b where b: "onmessagecallback ctl now (rs @ Recv [] # t) (k, c) =
      onmessagecallback ctl now (Recv [] # t) (k, c\<lparr>inputbuffer := b\<rparr>)"
    "b_buf b = kept (unat (b_maxLen (inputbuffer c))) (b_buf (inputbuffer c)) (chunks rs)"
    using receiving_loop [OF assms(3-5), where ctl = ctl and now = now and t = "Recv [] # t" and k = k] by blast
  have "synced watched k (chan c)" using assms(2) by (simp add: conn_open_def)
  from remove_channel_synced [OF assms(1) this] show ?thesis
    using b by (auto simp: conn_closecallback_def on_channel_def)
qed

text \<open>
  \<open>EPOLLRDHUP\<close> is asked for nowhere, so its branch of \<open>handleevent\<close> is not reached
  (\<open>event_outcome\<close>). If it were, a hang-up would be fatal: \<open>handleevent\<close> removes the channel and then
  calls the close callback, which removes it again, and the second removal ends the process through
  \<open>exit(-1)\<close>. An event with no flag the code knows (an error alone) is survived: the channel is
  removed once and the connection marked disconnected.
\<close>

theorem hangup_event_exits:
  assumes "epoll_ctl_spec ctl watched" "conn_open watched k c"
  shows "(ev AND EPOLLRDHUP \<noteq> 0 \<longrightarrow>
      handleevent (on_channel (remove_channel ctl)) (conn_callbacks ctl r w) ev (k, c) = Inl Exit) \<and>
    (ev AND EPOLLRDHUP = 0 \<and> ev AND (EPOLLIN OR EPOLLPRI) = 0 \<and> ev AND EPOLLOUT = 0 \<longrightarrow>
      (\<exists>k' c'. handleevent (on_channel (remove_channel ctl)) (conn_callbacks ctl r w) ev (k, c) = Inr (k', c') \<and>
        disconnect c' \<and> watched k' (ch_fd (chan c)) = None))"
proof -
  have s: "synced watched k (chan c)" using assms(2) by (simp add: conn_open_def)
  from remove_channel_synced [OF assms(1) s] obtain k' where
    r: "remove_channel ctl k (chan c) = Inr (k', (chan c)\<lparr>ch_events := 0, inepoll := True\<rparr>)"
      "watched k' = (watched k)(ch_fd (chan c) := None)"
    by blast
  let ?ch = "(chan c)\<lparr>ch_events := 0, inepoll := True\<rparr>"
  have "epoll_updatechannel ctl k' (?ch\<lparr>ch_events := 0\<rparr>) = Inl Exit"
    by (rule updatechannel_removed [OF assms(1)]) (simp_all add: r(2))
  then have "remove_channel ctl k' ?ch = Inl Exit"
    by (simp add: remove_channel_def disableall_def)
  then show ?thesis
    using r by (simp add: handleevent_def call_cb_def conn_callbacks_def conn_closecallback_def
        conn_errorcallback_def on_channel_def)
qed

theorem hangup_event_exits_witness:
  "handleevent (on_channel (remove_channel list_ctl)) (conn_callbacks list_ctl Inr Inr) 0x2001
     (io_kernel sample_io, io_conn sample_io) = Inl Exit"
  using hangup_event_exits [OF list_ctl_spec sample_io_open, where ev = "0x2001" and r = Inr and w = Inr]
  by (simp add: EPOLLRDHUP_def)

text \<open>\<open>epoll_wait\<close> reports these two whether or not they are asked for.\<close>

definition EPOLLERR :: "32 word" where "EPOLLERR = 0x008"
definition EPOLLHUP :: "32 word" where "EPOLLHUP = 0x010"

definition reportable :: "channel \<Rightarrow> 32 word \<Rightarrow> bool" where
  "reportable ch ev \<longleftrightarrow> ev AND NOT (ch_events ch OR EPOLLERR OR EPOLLHUP) = 0"

lemma within_mask: "(x :: 'a :: len word) AND NOT m = 0 \<longleftrightarrow> (\<forall>n. bit x n \<longrightarrow> bit m n)"
  by (auto simp: bit_eq_iff bit_simps dest: bit_imp_le_length)

lemma disjoint_mask:
  assumes "\<forall>n. bit x n \<longrightarrow> bit m n" "m AND y = 0"
  shows "(x :: 'a :: len word) AND y = 0"
proof -
  have "\<not> (bit x n \<and> bit y n)" for n using assms(1) arg_cong [OF assms(2), of "\<lambda>w. bit w n"] by (auto simp: bit_and_iff)
  then show ?thesis by (simp add: bit_eq_iff bit_and_iff)
qed

lemma channel_ops_mask:
  assumes "channel_ops_run ctl xs (k, ch) = Inr (k', ch')" "\<forall>n. bit (ch_events ch) n \<longrightarrow> bit m n"
    and "\<forall>n. bit EPOLLIN n \<or> bit EPOLLOUT n \<longrightarrow> bit m n"
  shows "bit (ch_events ch') n \<longrightarrow> bit m n"
  using assms(1,2)
proof (induction xs arbitrary: k ch)
  case (Cons x xs)
  obtain k1 ch1 where 1: "apply_channel_op ctl x (k, ch) = Inr (k1, ch1)" "channel_ops_run ctl xs (k1, ch1) = Inr (k', ch')"
    using Cons.prems(1) by (auto simp: bind_res_Inr)
  have u: "epoll_updatechannel ctl k c = Inr (k1, ch1) \<Longrightarrow> ch_events ch1 = ch_events c" for c
    by (auto simp: epoll_updatechannel_def setinepoll_def split: if_splits option.splits)
  have "\<forall>n. bit (ch_events ch1) n \<longrightarrow> bit m n"
    using 1(1) Cons.prems(2) assms(3) by (cases x) (auto dest!: u simp: channel_ops bit_simps)
  with Cons.IH 1(2) show ?case by blast
qed simp

text \<open>
  C28. What an event the kernel can report does, whatever has been enabled and disabled on the channel of
  a connection: the read callback if there is something to read, else the write callback if there is
  room to write, else the error callback. The close callback is never called. When both are
  reported, room to write is not acted on; as the channel is edge-triggered, it is not reported
  again before the channel is updated.
\<close>

theorem event_outcome:
  assumes "channel_ops_run ctl xs (k, useet (new_channel fd)) = Inr (k', ch)" "reportable ch ev"
  shows "handleevent rm cbs ev w =
    call_cb cbs (if ev AND EPOLLIN \<noteq> 0 then ReadCb else if ev AND EPOLLOUT \<noteq> 0 then WriteCb else ErrorCb) w"
proof -
  let ?m = "EPOLLIN OR EPOLLOUT OR EPOLLET"
  have "\<forall>n. bit (ch_events ch) n \<longrightarrow> bit ?m n"
    using channel_ops_mask [OF assms(1), of ?m] by (simp add: useet_def new_channel_def bit_or_iff)
  then have "\<forall>n. bit ev n \<longrightarrow> bit (?m OR EPOLLERR OR EPOLLHUP) n"
    using assms(2) unfolding reportable_def within_mask by (simp only: bit_or_iff) blast
  from disjoint_mask [OF this] have "ev AND EPOLLRDHUP = 0" "ev AND EPOLLPRI = 0"
    by (simp_all add: epoll_masks EPOLLERR_def EPOLLHUP_def)
  then show ?thesis by (simp add: handleevent_def bit.conj_disj_distrib)
qed

theorem event_outcome_witness:
  "\<exists>k ch. channel_ops_run list_ctl [EnableReading, EnableWriting] (\<lambda>_. None, useet (new_channel 7)) = Inr (k, ch) \<and>
     handleevent (\<lambda>w. Inl Exit) (\<lambda>cb. Some (\<lambda>w. Inr (w @ [cb]))) 0x5 [] = Inr [ReadCb]"
proof -
  obtain k ch where ch: "channel_ops_run list_ctl [EnableReading, EnableWriting] (\<lambda>_. None, useet (new_channel 7)) = Inr (k, ch)"
    "ch_events ch = (EPOLLET OR EPOLLIN) OR EPOLLOUT"
    by (simp add: channel_ops epoll_updatechannel_def setinepoll_def useet_def new_channel_def)
  have "reportable ch 0x5" by (simp add: reportable_def ch(2) epoll_masks EPOLLERR_def EPOLLHUP_def)
  from event_outcome [OF ch(1) this, of "\<lambda>w. Inl Exit" "\<lambda>cb. Some (\<lambda>w. Inr (w @ [cb]))" "[]"] ch(1) show ?thesis
    by (auto simp: epoll_masks call_cb_def)
qed

end
