(* ===== verification/TcpServerModel.thy ===== *)
theory TcpServerModel
  imports ConnectionModel "HOL-Library.Signed_Division"
begin

text \<open>
  \<open>src/net/TcpServer\<close> and \<open>src/net/Acceptor\<close>: the group of I/O loops, the two tables a
  connection is in (the server's and its loop's), and what the callbacks of loops and connections
  do to them. Connection objects are shared between the tables, so they live in a store
  (\<open>objs\<close>) and the tables hold their index. A call of a user callback is not shown when it can
  only be the empty one of \<open>RPCServer\<close>; the messages for \<open>onmessage_\<close> are a result.
\<close>

section \<open>State and constructor\<close>

text \<open>
  \<open>sc_installed\<close> counts the callbacks set so far, in the order of \<open>newconnction\<close>: message,
  close, error, complete.
\<close>

record sconn =
  sc_conn :: conn
  sc_installed :: nat

type_synonym sloop = "(nat \<times> string, nat) event_loop"

record 'k tcp_server =
  threadnum :: int
  sv_mainloop :: sloop
  subloops :: "sloop list"
  epolls :: "'k list"
  sv_conns :: "(int, nat) smap"
  objs :: "sconn list"

text \<open>\<open>ks i\<close> is the interest list the constructor of loop \<open>i\<close> leaves: its wake-up and its timer.\<close>

definition new_tcpserver :: "int \<Rightarrow> (nat \<Rightarrow> 'k) \<Rightarrow> 'k tcp_server" where
  "new_tcpserver n ks =
     \<lparr>threadnum = n, sv_mainloop = new_event_loop True 10 10,
      subloops = map (\<lambda>_. new_event_loop False 30 60) [0..<nat n], epolls = map ks [0..<nat n],
      sv_conns = [], objs = []\<rparr>"

definition sv_stop :: "'k tcp_server \<Rightarrow> 'k tcp_server" where
  "sv_stop sv = sv\<lparr>sv_mainloop := el_set_stop (sv_mainloop sv),
     subloops := map el_set_stop (subloops sv)\<rparr>"

text \<open>\<open>subloops_[fd % threadnum_]\<close>: C++ rounds the division towards zero.\<close>

definition subloop_index :: "'k tcp_server \<Rightarrow> int \<Rightarrow> nat res" where
  "subloop_index sv fd =
     (if threadnum sv = 0 then Inl DivByZero
      else let i = fd smod threadnum sv in
        if 0 \<le> i \<and> i < int (length (subloops sv)) then Inr (nat i) else Inl BadRead)"

section \<open>New connections\<close>

text \<open>\<open>newconnction\<close> step by step: construct, set the callbacks, enter both tables.\<close>

definition sv_construct :: "'k epoll_ctl \<Rightarrow> int \<Rightarrow> int \<Rightarrow> 'k tcp_server \<Rightarrow> (nat \<times> 'k tcp_server) res" where
  "sv_construct ctl now fd sv =
     bind_res (subloop_index sv fd) (\<lambda>i.
     bind_res (new_connection ctl fd now (epolls sv ! i)) (\<lambda>(k, c).
     Inr (length (objs sv), sv\<lparr>epolls := (epolls sv)[i := k],
       objs := objs sv @ [\<lparr>sc_conn = c, sc_installed = 0\<rparr>]\<rparr>)))"

definition sv_install :: "nat \<Rightarrow> 'k tcp_server \<Rightarrow> 'k tcp_server" where
  "sv_install h sv = sv\<lparr>objs := (objs sv)[h := (objs sv ! h)\<lparr>sc_installed := sc_installed (objs sv ! h) + 1\<rparr>]\<rparr>"

definition sv_fd :: "nat \<Rightarrow> 'k tcp_server \<Rightarrow> int" where
  "sv_fd h sv = c_fd (sc_conn (objs sv ! h))"

definition sv_publish :: "nat \<Rightarrow> 'k tcp_server \<Rightarrow> 'k tcp_server res" where
  "sv_publish h sv =
     (let fd = sv_fd h sv; sv1 = sv\<lparr>sv_conns := smap_set fd h (sv_conns sv)\<rparr> in
      bind_res (subloop_index sv1 fd) (\<lambda>i.
      Inr (sv1\<lparr>subloops := (subloops sv1)[i := el_newconnection fd h (subloops sv1 ! i)]\<rparr>)))"

definition newconnction :: "'k epoll_ctl \<Rightarrow> int \<Rightarrow> int \<Rightarrow> 'k tcp_server \<Rightarrow> (nat \<times> 'k tcp_server) res" where
  "newconnction ctl now fd sv =
     bind_res (sv_construct ctl now fd sv) (\<lambda>(h, sv1).
     bind_res (sv_publish h (sv_install h (sv_install h (sv_install h (sv_install h sv1))))) (\<lambda>sv2.
     Inr (h, sv2)))"

text \<open>\<open>Acceptor::newconnction\<close>: \<^const>\<open>None\<close> is \<open>accept4\<close> answering \<open>-1\<close>, which is not looked at.\<close>

definition sock_accept :: "int option \<Rightarrow> int" where
  "sock_accept r = (case r of None \<Rightarrow> - 1 | Some fd \<Rightarrow> fd)"

definition acceptor_newconnction :: "(int \<Rightarrow> 'w \<Rightarrow> 'w res) \<Rightarrow> int option \<Rightarrow> 'w \<Rightarrow> 'w res" where
  "acceptor_newconnction cb r w = cb (sock_accept r) w"

section \<open>Callbacks of connections and loops\<close>

definition sv_closeconnection :: "nat \<Rightarrow> 'k tcp_server \<Rightarrow> 'k tcp_server res" where
  "sv_closeconnection h sv =
     (let fd = sv_fd h sv in
      bind_res (subloop_index sv fd) (\<lambda>i.
      Inr (sv\<lparr>subloops := (subloops sv)[i := el_closeconnection fd (subloops sv ! i)],
              sv_conns := smap_erase fd (sv_conns sv)\<rparr>)))"

definition sv_errorconnection :: "nat \<Rightarrow> 'k tcp_server \<Rightarrow> 'k tcp_server" where
  "sv_errorconnection h sv = sv\<lparr>sv_conns := smap_erase (sv_fd h sv) (sv_conns sv)\<rparr>"

definition removeconnection :: "int \<Rightarrow> 'k tcp_server \<Rightarrow> 'k tcp_server" where
  "removeconnection fd sv = sv\<lparr>sv_conns := smap_erase fd (sv_conns sv)\<rparr>"

text \<open>The timer event of loop \<open>i\<close>, with \<open>removeconnection\<close> as its timeout callback.\<close>

definition sv_timer :: "int \<Rightarrow> nat \<Rightarrow> 'k tcp_server \<Rightarrow> 'k tcp_server" where
  "sv_timer now i sv =
     (let (fds, l) = handletimer (\<lambda>lim h. conn_timeout now lim (sc_conn (objs sv ! h))) (subloops sv ! i)
      in fold removeconnection fds (sv\<lparr>subloops := (subloops sv)[i := l]\<rparr>))"

text \<open>The read event of connection \<open>h\<close>: the messages go to \<open>onmessage_\<close>, a close to the server.\<close>

definition sv_read :: "'k epoll_ctl \<Rightarrow> int \<Rightarrow> recv_result list \<Rightarrow> nat \<Rightarrow> 'k tcp_server \<Rightarrow>
    (string list \<times> 'k tcp_server) res option" where
  "sv_read ctl now rs h sv =
     (case subloop_index sv (sv_fd h sv) of
        Inl f \<Rightarrow> Some (Inl f)
      | Inr i \<Rightarrow>
        map_option (\<lambda>r. bind_res r (\<lambda>(e, msgs, k, c).
          let sv1 = sv\<lparr>epolls := (epolls sv)[i := k], objs := (objs sv)[h := (objs sv ! h)\<lparr>sc_conn := c\<rparr>]\<rparr>;
              n = sc_installed (objs sv ! h) in
          if msgs \<noteq> [] \<and> n < 1 then Inl EmptyCall
          else if e = PeerClosed then
            if n < 2 then Inl EmptyCall
            else bind_res (sv_closeconnection h sv1) (\<lambda>sv2. Inr (msgs, sv2))
          else Inr (msgs, sv1)))
        (onmessagecallback ctl now rs (epolls sv ! i, sc_conn (objs sv ! h))))"

text \<open>The error event: \<open>Connection::errorcallback\<close>, then the server's handler.\<close>

definition sv_error :: "'k epoll_ctl \<Rightarrow> nat \<Rightarrow> 'k tcp_server \<Rightarrow> 'k tcp_server res" where
  "sv_error ctl h sv =
     bind_res (subloop_index sv (sv_fd h sv)) (\<lambda>i.
     bind_res (conn_errorcallback ctl (epolls sv ! i, sc_conn (objs sv ! h))) (\<lambda>(k, c).
       let sv1 = sv\<lparr>epolls := (epolls sv)[i := k], objs := (objs sv)[h := (objs sv ! h)\<lparr>sc_conn := c\<rparr>]\<rparr> in
       if sc_installed (objs sv ! h) < 3 then Inl EmptyCall
       else Inr (sv_errorconnection h sv1)))"

section \<open>The two tables\<close>

text \<open>
  Every entry of a table is a connection of that descriptor, an I/O loop holds only descriptors
  of its residue, and what the server knows its loop knows too.
\<close>

definition loop_find :: "'k tcp_server \<Rightarrow> int \<Rightarrow> nat option" where
  "loop_find sv fd = smap_find fd (el_conns (subloops sv ! nat (fd mod threadnum sv)))"

definition handle_ok :: "'k tcp_server \<Rightarrow> int \<Rightarrow> nat \<Rightarrow> bool" where
  "handle_ok sv fd h \<longleftrightarrow> 0 \<le> fd \<and> h < length (objs sv) \<and> sv_fd h sv = fd"

definition sv_inv :: "'k tcp_server \<Rightarrow> bool" where
  "sv_inv sv \<longleftrightarrow> 0 < threadnum sv \<and> length (subloops sv) = nat (threadnum sv) \<and>
     length (epolls sv) = nat (threadnum sv) \<and> smap_inv (sv_conns sv) \<and>
     (\<forall>i < nat (threadnum sv). \<not> mainloop (subloops sv ! i) \<and> smap_inv (el_conns (subloops sv ! i)) \<and>
       (\<forall>fd h. smap_find fd (el_conns (subloops sv ! i)) = Some h \<longrightarrow>
          handle_ok sv fd h \<and> nat (fd mod threadnum sv) = i)) \<and>
     (\<forall>fd h. smap_find fd (sv_conns sv) = Some h \<longrightarrow> loop_find sv fd = Some h) \<and>
     (\<forall>h < length (objs sv). 0 \<le> sv_fd h sv)"

lemma smod_nonneg: "0 \<le> (a::int) \<Longrightarrow> 0 < b \<Longrightarrow> a smod b = a mod b"
  by (cases "a = 0") (simp_all add: signed_modulo_int_def)

lemma subloop_index_ok:
  assumes "0 < threadnum sv" "length (subloops sv) = nat (threadnum sv)" "0 \<le> fd"
  shows "subloop_index sv fd = Inr (nat (fd mod threadnum sv))" "nat (fd mod threadnum sv) < nat (threadnum sv)"
  using assms by (simp_all add: subloop_index_def smod_nonneg)

lemma removeconnection_fold:
  "fold removeconnection fds sv = sv\<lparr>sv_conns := fold smap_erase fds (sv_conns sv)\<rparr>"
  by (induction fds arbitrary: sv) (simp_all add: removeconnection_def)

lemma sv_inv_new: "0 < n \<Longrightarrow> sv_inv (new_tcpserver n ks)"
  by (simp add: sv_inv_def new_tcpserver_def new_event_loop_def sm.lookup_empty)

text \<open>
  What an operation has to show: the new tables in terms of \<open>sub_find\<close>, a lookup in one loop.
\<close>

definition sub_find :: "'k tcp_server \<Rightarrow> nat \<Rightarrow> int \<Rightarrow> nat option" where
  "sub_find sv i fd = smap_find fd (el_conns (subloops sv ! i))"

definition sv_shape :: "'k tcp_server \<Rightarrow> bool" where
  "sv_shape sv \<longleftrightarrow> 0 < threadnum sv \<and> length (subloops sv) = nat (threadnum sv) \<and>
     length (epolls sv) = nat (threadnum sv) \<and> smap_inv (sv_conns sv) \<and>
     (\<forall>i < nat (threadnum sv). \<not> mainloop (subloops sv ! i) \<and> smap_inv (el_conns (subloops sv ! i))) \<and>
     (\<forall>h < length (objs sv). 0 \<le> sv_fd h sv)"

lemma sv_inv_alt:
  "sv_inv sv \<longleftrightarrow> sv_shape sv \<and>
     (\<forall>i fd h. i < nat (threadnum sv) \<longrightarrow> sub_find sv i fd = Some h \<longrightarrow>
        handle_ok sv fd h \<and> nat (fd mod threadnum sv) = i) \<and>
     (\<forall>fd h. smap_find fd (sv_conns sv) = Some h \<longrightarrow>
        sub_find sv (nat (fd mod threadnum sv)) fd = Some h)"
  unfolding sv_inv_def sv_shape_def loop_find_def sub_find_def by blast

lemma sv_inv_close:
  assumes "sv_inv sv" "h < length (objs sv)"
  shows "\<exists>sv'. sv_closeconnection h sv = Inr sv' \<and> sv_inv sv' \<and> threadnum sv' = threadnum sv \<and>
    objs sv' = objs sv \<and>
    (\<forall>fd. smap_find fd (sv_conns sv') = (if fd = sv_fd h sv then None else smap_find fd (sv_conns sv))) \<and>
    (\<forall>fd. loop_find sv' fd = (if fd = sv_fd h sv then None else loop_find sv fd))"
proof -
  let ?fd = "sv_fd h sv" and ?i = "nat (sv_fd h sv mod threadnum sv)"
  have shape: "sv_shape sv" using assms(1) by (simp add: sv_inv_alt)
  then have fd: "0 \<le> ?fd" "0 < threadnum sv" "length (subloops sv) = nat (threadnum sv)"
    using assms by (simp_all add: sv_shape_def)
  note i = subloop_index_ok [OF fd(2,3,1)]
  let ?sv = "sv\<lparr>subloops := (subloops sv)[?i := el_closeconnection ?fd (subloops sv ! ?i)],
    sv_conns := smap_erase ?fd (sv_conns sv)\<rparr>"
  have sub: "sub_find ?sv j fd = (if j = ?i \<and> fd = ?fd then None else sub_find sv j fd)"
    if "j < nat (threadnum sv)" for j fd
    using shape that fd(3) by (auto simp: sub_find_def sv_shape_def nth_list_update
        el_closeconnection_def sm.lookup_erase)
  have srv: "smap_find fd (sv_conns ?sv) = (if fd = ?fd then None else smap_find fd (sv_conns sv))" for fd
    using shape by (simp add: sv_shape_def sm.lookup_erase)
  have sh: "sv_shape ?sv"
    using shape by (auto simp: sv_shape_def nth_list_update el_closeconnection_def sm.inv_erase sv_fd_def)
  have "handle_ok ?sv = handle_ok sv"
    by (intro ext) (simp add: handle_ok_def sv_fd_def)
  moreover have "nat (fd mod threadnum sv) < nat (threadnum sv)" for fd
    using fd(2) by simp
  ultimately have "sv_inv ?sv"
    using assms(1) sub srv sh by (auto simp: sv_inv_alt)
  moreover have e: "sv_closeconnection h sv = Inr ?sv"
    using i(1) by (simp add: sv_closeconnection_def Let_def)
  moreover have "loop_find ?sv fd = (if fd = ?fd then None else loop_find sv fd)" for fd
    using sub [of "nat (fd mod threadnum sv)" fd] fd(2) by (auto simp: loop_find_def sub_find_def)
  ultimately show ?thesis
    using srv e by (intro exI [of _ ?sv] conjI allI) (blast | simp (no_asm))+
qed

lemma sv_inv_error:
  assumes "sv_inv sv"
  shows "sv_inv (sv_errorconnection h sv)"
    "\<And>fd. smap_find fd (sv_conns (sv_errorconnection h sv)) =
       (if fd = sv_fd h sv then None else smap_find fd (sv_conns sv))"
    "\<And>fd. loop_find (sv_errorconnection h sv) fd = loop_find sv fd"
  using assms
  by (auto simp: sv_inv_def sv_errorconnection_def sm.lookup_erase sm.inv_erase loop_find_def
      handle_ok_def sv_fd_def split: if_splits)

definition sv_idle :: "int \<Rightarrow> nat \<Rightarrow> 'k tcp_server \<Rightarrow> nat \<Rightarrow> bool" where
  "sv_idle now i sv h \<longleftrightarrow> conn_timeout now (timeout_secs (subloops sv ! i)) (sc_conn (objs sv ! h))"

lemma sv_inv_timer:
  assumes "sv_inv sv" "i < nat (threadnum sv)"
  shows "sv_inv (sv_timer now i sv) \<and> threadnum (sv_timer now i sv) = threadnum sv \<and>
    objs (sv_timer now i sv) = objs sv \<and>
    (\<forall>fd. loop_find (sv_timer now i sv) fd = (case loop_find sv fd of None \<Rightarrow> None
       | Some h \<Rightarrow> if nat (fd mod threadnum sv) = i \<and> sv_idle now i sv h then None else Some h)) \<and>
    (\<forall>fd. smap_find fd (sv_conns (sv_timer now i sv)) =
       (if nat (fd mod threadnum sv) = i \<and> (\<exists>h. loop_find sv fd = Some h \<and> sv_idle now i sv h) then None
        else smap_find fd (sv_conns sv)))"
proof -
  let ?idle = "sv_idle now i sv"
  have shape: "sv_shape sv" using assms(1) by (simp add: sv_inv_alt)
  let ?l = "subloops sv ! i"
  let ?cs = "filter (\<lambda>(fd, h). \<not> ?idle h) (el_conns ?l)"
  let ?fds = "map fst (filter (\<lambda>(fd, h). ?idle h) (el_conns ?l))"
  let ?sv = "sv\<lparr>subloops := (subloops sv)[i := ?l\<lparr>el_conns := ?cs\<rparr>],
    sv_conns := fold smap_erase ?fds (sv_conns sv)\<rparr>"
  have inv: "smap_inv (el_conns ?l)" "\<not> mainloop ?l"
    using shape assms(2) by (simp_all add: sv_shape_def)
  have e: "sv_timer now i sv = ?sv"
    using inv(2) by (simp add: sv_timer_def handletimer_def timer_sweep_eq removeconnection_fold sv_idle_def Let_def)
  have mem: "fd \<in> set ?fds \<longleftrightarrow> (\<exists>h. sub_find sv i fd = Some h \<and> ?idle h)" for fd
  proof -
    have "fd \<in> set ?fds \<longleftrightarrow> smap_find fd (filter (\<lambda>(fd, h). ?idle h) (el_conns ?l)) \<noteq> None"
      by (simp add: smap_find_def map_of_eq_None_iff)
    then show ?thesis
      using smap_find_filter [OF inv(1)] by (auto simp: sub_find_def split: option.splits)
  qed
  have sub: "sub_find ?sv j fd = (case sub_find sv j fd of None \<Rightarrow> None
      | Some h \<Rightarrow> if j = i \<and> ?idle h then None else Some h)" if "j < nat (threadnum sv)" for j fd
    using shape that smap_find_filter [OF inv(1), of fd "\<lambda>(fd, h). \<not> ?idle h"] assms(2)
    by (cases "j = i") (simp_all add: sub_find_def sv_shape_def split: option.splits)
  have srv: "smap_find fd (sv_conns ?sv) =
      (if (\<exists>h. sub_find sv i fd = Some h \<and> ?idle h) then None else smap_find fd (sv_conns sv))" for fd
    using shape mem [of fd] by (simp add: sv_shape_def sm.lookup_erase_all)
  have sh: "sv_shape ?sv"
    using shape inv assms(2) by (auto simp: sv_shape_def nth_list_update sv_fd_def sm.inv_erase_all
        intro: smap_inv_filter)
  have h: "handle_ok ?sv = handle_ok sv"
    by (intro ext) (simp add: handle_ok_def sv_fd_def)
  have n: "nat (fd mod threadnum sv) < nat (threadnum sv)" for fd
    using shape by (simp add: sv_shape_def)
  have "sv_inv ?sv"
    using assms(1) sub srv sh h n by (auto simp: sv_inv_alt split: option.splits if_splits)
  moreover have lf: "loop_find ?sv fd = (case loop_find sv fd of None \<Rightarrow> None
      | Some h \<Rightarrow> if nat (fd mod threadnum sv) = i \<and> ?idle h then None else Some h)" for fd
    using sub [OF n, of fd fd] by (simp add: loop_find_def sub_find_def)
  moreover have "smap_find fd (sv_conns ?sv) =
      (if nat (fd mod threadnum sv) = i \<and> (\<exists>h. loop_find sv fd = Some h \<and> ?idle h) then None
       else smap_find fd (sv_conns sv))" for fd
  proof -
    have "(\<exists>h. sub_find sv i fd = Some h \<and> ?idle h) \<longleftrightarrow>
        nat (fd mod threadnum sv) = i \<and> (\<exists>h. loop_find sv fd = Some h \<and> ?idle h)"
      using assms(1,2) by (auto simp: sv_inv_alt loop_find_def sub_find_def)
    then show ?thesis by (simp only: srv)
  qed
  ultimately show ?thesis by (simp add: e)
qed

lemma install_last:
  "sv_install (length xs) (sv\<lparr>epolls := ks, objs := xs @ [\<lparr>sc_conn = c, sc_installed = m\<rparr>]\<rparr>) =
     sv\<lparr>epolls := ks, objs := xs @ [\<lparr>sc_conn = c, sc_installed = m + 1\<rparr>]\<rparr>"
  by (simp add: sv_install_def)

lemma new_connection_fd: "new_connection ctl fd now k = Inr (k', c) \<Longrightarrow> c_fd c = fd"
  by (auto simp: new_connection_def bind_res_Inr)

lemma sv_inv_newconnction:
  assumes "sv_inv sv" "0 \<le> fd"
    and "new_connection ctl fd now (epolls sv ! nat (fd mod threadnum sv)) = Inr (k, c)"
  shows "\<exists>sv'. newconnction ctl now fd sv = Inr (length (objs sv), sv') \<and> sv_inv sv' \<and>
    threadnum sv' = threadnum sv \<and> objs sv' = objs sv @ [\<lparr>sc_conn = c, sc_installed = 4\<rparr>] \<and>
    epolls sv' = (epolls sv)[nat (fd mod threadnum sv) := k] \<and>
    (\<forall>fd'. smap_find fd' (sv_conns sv') =
       (if fd' = fd then Some (length (objs sv)) else smap_find fd' (sv_conns sv))) \<and>
    (\<forall>fd'. loop_find sv' fd' = (if fd' = fd then Some (length (objs sv)) else loop_find sv fd'))"
proof -
  let ?i = "nat (fd mod threadnum sv)" and ?h = "length (objs sv)"
  have shape: "sv_shape sv" using assms(1) by (simp add: sv_inv_alt)
  then have th: "0 < threadnum sv" "length (subloops sv) = nat (threadnum sv)"
    by (simp_all add: sv_shape_def)
  note i = subloop_index_ok [OF th assms(2)]
  have con: "sv_construct ctl now fd sv = Inr (?h, sv\<lparr>epolls := (epolls sv)[?i := k],
      objs := objs sv @ [\<lparr>sc_conn = c, sc_installed = 0\<rparr>]\<rparr>)"
    using i(1) assms(3) by (simp add: sv_construct_def)
  note c = new_connection_fd [OF assms(3)]
  let ?objs = "objs sv @ [\<lparr>sc_conn = c, sc_installed = 4\<rparr>]"
  let ?sv = "sv\<lparr>epolls := (epolls sv)[?i := k], objs := ?objs,
    sv_conns := smap_set fd ?h (sv_conns sv),
    subloops := (subloops sv)[?i := el_newconnection fd ?h (subloops sv ! ?i)]\<rparr>"
  have e: "newconnction ctl now fd sv = Inr (?h, ?sv)"
    using i(1) by (simp add: newconnction_def con install_last sv_publish_def sv_fd_def c
        subloop_index_def Let_def eval_nat_numeral split: if_splits)
  have sub: "sub_find ?sv j fd' = (if j = ?i \<and> fd' = fd then Some ?h else sub_find sv j fd')"
    if "j < nat (threadnum sv)" for j fd'
    using shape that th by (auto simp: sub_find_def sv_shape_def nth_list_update
        el_newconnection_def sm.lookup_set)
  have srv: "smap_find fd' (sv_conns ?sv) = (if fd' = fd then Some ?h else smap_find fd' (sv_conns sv))" for fd'
    using shape by (simp add: sv_shape_def sm.lookup_set)
  have objs: "sv_fd h ?sv = (if h = ?h then fd else sv_fd h sv)" if "h < Suc ?h" for h
    using that c by (auto simp: sv_fd_def nth_append)
  have sh: "sv_shape ?sv"
    using shape th i(2) assms(2) objs
    by (auto simp: sv_shape_def nth_list_update el_newconnection_def sm.inv_set less_Suc_eq)
  have "handle_ok ?sv fd' h" if "handle_ok sv fd' h" for fd' h
    using that objs [of h] by (simp add: handle_ok_def)
  moreover have "handle_ok ?sv fd ?h"
    using objs [of ?h] assms(2) by (simp add: handle_ok_def)
  moreover have n: "nat (fd' mod threadnum sv) < nat (threadnum sv)" for fd'
    using th(1) by simp
  ultimately have "sv_inv ?sv"
    using assms(1) sub srv sh by (auto simp: sv_inv_alt)
  moreover have "loop_find ?sv fd' = (if fd' = fd then Some ?h else loop_find sv fd')" for fd'
    using sub [OF n, of fd' fd'] by (auto simp: loop_find_def sub_find_def)
  ultimately show ?thesis
    using srv by (simp add: e)
qed

lemma sv_inv_objs:
  assumes "sv_inv sv" "length ks = length (epolls sv)" "c_fd c = sv_fd h sv"
  defines "sv' \<equiv> sv\<lparr>epolls := ks, objs := (objs sv)[h := (objs sv ! h)\<lparr>sc_conn := c\<rparr>]\<rparr>"
  shows "sv_inv sv'" "sv_fd h' sv' = sv_fd h' sv" "length (objs sv') = length (objs sv)"
    "sv_conns sv' = sv_conns sv" "loop_find sv' = loop_find sv" "threadnum sv' = threadnum sv"
    "handle_ok sv' = handle_ok sv"
proof -
  have fd: "sv_fd h' sv' = sv_fd h' sv" for h'
    using assms(3) by (cases "h < length (objs sv)")
      (auto simp: sv'_def sv_fd_def nth_list_update list_update_beyond)
  then have ok: "handle_ok sv' = handle_ok sv"
    by (intro ext) (simp add: handle_ok_def, simp add: sv'_def)
  have lf: "loop_find sv' = loop_find sv"
    by (intro ext) (simp add: loop_find_def sv'_def)
  have "sv_inv sv'"
    using assms(1,2) fd ok lf unfolding sv_inv_def by (simp add: sv'_def)
  with fd ok lf show "sv_inv sv'" "sv_fd h' sv' = sv_fd h' sv" "length (objs sv') = length (objs sv)"
    "sv_conns sv' = sv_conns sv" "loop_find sv' = loop_find sv" "threadnum sv' = threadnum sv"
    "handle_ok sv' = handle_ok sv"
    by (simp_all add: sv'_def)
qed

lemma on_channel_fd: "on_channel f (k, c) = Inr (k', c') \<Longrightarrow> c_fd c' = c_fd c"
  by (auto simp: on_channel_def bind_res_Inr)

lemma onmessage_fd:
  "onmessagecallback ctl now rs kc = Some (Inr (e, msgs, k', c')) \<Longrightarrow> c_fd c' = c_fd (snd kc)"
proof (induction ctl now rs kc rule: onmessagecallback.induct)
  case (2 ctl now d rs k c)
  then show ?case
    by (auto simp: bind_res_Inr conn_closecallback_def dest!: on_channel_fd split: if_splits)
next
  case (4 ctl now rs k c)
  then show ?case by (auto simp: bind_res_Inr)
qed (auto simp: bind_res_Inr)

section \<open>The server as a transition system\<close>

text \<open>
  One step is a new connection with a descriptor from \<open>accept\<close>, a read event (with any result of
  \<open>recv\<close>), an error event, a timer event of a loop, or a change of an interest list that no table
  depends on (writing, sends, descriptors closed by the kernel). Error events can be excluded.
\<close>

inductive sv_step :: "'k epoll_ctl \<Rightarrow> bool \<Rightarrow> 'k tcp_server \<Rightarrow> 'k tcp_server \<Rightarrow> bool"
  for ctl :: "'k epoll_ctl" and errors :: bool where
  accept: "0 \<le> fd \<Longrightarrow> newconnction ctl now fd sv = Inr (h, sv') \<Longrightarrow> sv_step ctl errors sv sv'"
| read: "h < length (objs sv) \<Longrightarrow> sv_read ctl now rs h sv = Some (Inr (msgs, sv')) \<Longrightarrow>
    sv_step ctl errors sv sv'"
| error: "errors \<Longrightarrow> h < length (objs sv) \<Longrightarrow> sv_error ctl h sv = Inr sv' \<Longrightarrow> sv_step ctl errors sv sv'"
| timer: "i < length (subloops sv) \<Longrightarrow> sv_step ctl errors sv (sv_timer now i sv)"
| kernel: "length ks = length (epolls sv) \<Longrightarrow> sv_step ctl errors sv (sv\<lparr>epolls := ks\<rparr>)"

inductive_cases sv_stepE: "sv_step ctl errors sv sv'"

inductive sv_reach :: "'k epoll_ctl \<Rightarrow> bool \<Rightarrow> 'k tcp_server \<Rightarrow> 'k tcp_server \<Rightarrow> bool"
  for ctl :: "'k epoll_ctl" and errors :: bool and start :: "'k tcp_server" where
  here: "sv_reach ctl errors start start"
| step: "sv_reach ctl errors start sv \<Longrightarrow> sv_step ctl errors sv sv' \<Longrightarrow> sv_reach ctl errors start sv'"

text \<open>Without errors the two tables hold the same connections.\<close>

definition tables_agree :: "'k tcp_server \<Rightarrow> bool" where
  "tables_agree sv \<longleftrightarrow> (\<forall>fd. smap_find fd (sv_conns sv) = loop_find sv fd)"

lemma sv_read_cases:
  assumes "sv_read ctl now rs h sv = Some (Inr (msgs, sv'))" "sv_inv sv" "h < length (objs sv)"
  obtains ks c where "length ks = length (epolls sv)" "c_fd c = sv_fd h sv"
    "let sv1 = sv\<lparr>epolls := ks, objs := (objs sv)[h := (objs sv ! h)\<lparr>sc_conn := c\<rparr>]\<rparr>
     in sv' = sv1 \<or> sv_closeconnection h sv1 = Inr sv'"
proof -
  obtain i r where i: "subloop_index sv (sv_fd h sv) = Inr i"
    and r: "onmessagecallback ctl now rs (epolls sv ! i, sc_conn (objs sv ! h)) = Some r"
    using assms(1) by (auto simp: sv_read_def split: sum.splits)
  obtain e k c where r': "r = Inr (e, msgs, k, c)"
    using assms(1) i r by (cases r) (auto simp: sv_read_def Let_def bind_res_Inr split: if_splits)
  have c: "c_fd c = sv_fd h sv"
    using onmessage_fd r unfolding r' by (fastforce simp: sv_fd_def)
  show thesis
    by (rule that [of "(epolls sv)[i := k]" c])
      (use assms(1) i r r' c in \<open>auto simp: sv_read_def Let_def bind_res_Inr split: if_splits\<close>)
qed

lemmas sv_timer_inv = sv_inv_timer [THEN conjunct1]
lemmas sv_timer_threads = sv_inv_timer [THEN conjunct2, THEN conjunct1]
lemmas sv_timer_objs = sv_inv_timer [THEN conjunct2, THEN conjunct2, THEN conjunct1]
lemmas sv_timer_loop = sv_inv_timer [THEN conjunct2, THEN conjunct2, THEN conjunct2, THEN conjunct1, THEN spec]
lemmas sv_timer_conns = sv_inv_timer [THEN conjunct2, THEN conjunct2, THEN conjunct2, THEN conjunct2, THEN spec]

lemma tables_agree_timer:
  assumes "sv_inv sv" "i < nat (threadnum sv)" "tables_agree sv"
  shows "tables_agree (sv_timer now i sv)"
  unfolding tables_agree_def
proof
  fix fd
  have "smap_find fd (sv_conns sv) = loop_find sv fd" using assms(3) by (simp add: tables_agree_def)
  then show "smap_find fd (sv_conns (sv_timer now i sv)) = loop_find (sv_timer now i sv) fd"
    unfolding sv_timer_conns [OF assms(1,2)] sv_timer_loop [OF assms(1,2)]
    by (cases "loop_find sv fd") simp_all
qed

lemma sv_step_preserves:
  assumes "sv_step ctl errors sv sv'" "sv_inv sv"
  shows "sv_inv sv' \<and> threadnum sv' = threadnum sv \<and> (\<not> errors \<longrightarrow> tables_agree sv \<longrightarrow> tables_agree sv')"
  using assms
proof cases
  case (accept fd now h)
  have "0 < threadnum sv" "length (subloops sv) = nat (threadnum sv)"
    using assms(2) by (simp_all add: sv_inv_def)
  note i = subloop_index_ok(1) [OF this accept(1)]
  obtain k c where "new_connection ctl fd now (epolls sv ! nat (fd mod threadnum sv)) = Inr (k, c)"
    using accept(2) i by (auto simp: newconnction_def sv_construct_def bind_res_Inr)
  from sv_inv_newconnction [OF assms(2) accept(1) this] accept(2) show ?thesis
    by (auto simp: tables_agree_def)
next
  case (read h now rs msgs)
  obtain ks c where kc: "length ks = length (epolls sv)" "c_fd c = sv_fd h sv"
    and sv': "let sv1 = sv\<lparr>epolls := ks, objs := (objs sv)[h := (objs sv ! h)\<lparr>sc_conn := c\<rparr>]\<rparr>
     in sv' = sv1 \<or> sv_closeconnection h sv1 = Inr sv'"
    by (rule sv_read_cases [OF read(2) assms(2) read(1)])
  let ?sv1 = "sv\<lparr>epolls := ks, objs := (objs sv)[h := (objs sv ! h)\<lparr>sc_conn := c\<rparr>]\<rparr>"
  note 1 = sv_inv_objs [OF assms(2) kc]
  have "h < length (objs ?sv1)" using read(1) by simp
  from sv_inv_close [OF 1(1) this] sv' 1 show ?thesis
    by (auto simp: tables_agree_def Let_def)
next
  case (error h)
  obtain i k c where i: "subloop_index sv (sv_fd h sv) = Inr i"
    "conn_errorcallback ctl (epolls sv ! i, sc_conn (objs sv ! h)) = Inr (k, c)"
    and sv': "sv' = sv_errorconnection h (sv\<lparr>epolls := (epolls sv)[i := k],
      objs := (objs sv)[h := (objs sv ! h)\<lparr>sc_conn := c\<rparr>]\<rparr>)"
    using error(3) by (auto simp: sv_error_def bind_res_Inr Let_def split: if_splits)
  have "c_fd c = sv_fd h sv"
    using i(2) by (auto simp: conn_errorcallback_def sv_fd_def dest: on_channel_fd)
  note 1 = sv_inv_objs [OF assms(2) _ this, of "(epolls sv)[i := k]"]
  have "threadnum sv' = threadnum sv" by (simp add: sv' sv_errorconnection_def)
  then show ?thesis using sv_inv_error [OF 1(1)] error(1) by (simp add: sv')
next
  case (timer i now)
  then have "i < nat (threadnum sv)" using assms(2) by (simp add: sv_inv_def)
  with assms(2) show ?thesis
    unfolding timer(1) using sv_timer_inv sv_timer_threads tables_agree_timer by blast
next
  case (kernel ks)
  let ?h = "length (objs sv)"
  have "c_fd (sc_conn (objs sv ! ?h)) = sv_fd ?h sv" by (simp add: sv_fd_def)
  note 1 = sv_inv_objs [OF assms(2) kernel(2) this, simplified list_update_beyond [OF order_refl]]
  have e: "sv\<lparr>epolls := ks, objs := objs sv\<rparr> = sv'" by (simp add: kernel(1))
  have "tables_agree sv'" if "tables_agree sv"
    using that 1(4,5) unfolding e tables_agree_def by metis
  with 1(1,6) show ?thesis unfolding e by blast
qed

section \<open>Properties\<close>

definition sample_server :: "(int \<Rightarrow> 32 word option) tcp_server" where
  "sample_server = new_tcpserver 2 (\<lambda>_ _. None)"

lemma sv_reach_inv:
  assumes "sv_reach ctl errors (new_tcpserver n ks) sv" "0 < n"
  shows "sv_inv sv \<and> threadnum sv = n \<and> (\<not> errors \<longrightarrow> tables_agree sv)"
  using assms(1)
proof (induction rule: sv_reach.induct)
  case here
  have "tables_agree (new_tcpserver n ks)"
    using assms(2) by (simp add: tables_agree_def loop_find_def new_tcpserver_def new_event_loop_def
        sm.lookup_empty)
  then show ?case using sv_inv_new [OF assms(2)] by (simp add: new_tcpserver_def)
next
  case (step sv sv')
  then show ?case using sv_step_preserves [OF step.hyps(2)] by blast
qed


lemma newconnction_ok:
  assumes "sv_inv sv" "0 \<le> fd" "epoll_ctl_spec ctl watched"
    and "watched (epolls sv ! nat (fd mod threadnum sv)) fd = None"
  shows "\<exists>sv' k c. newconnction ctl now fd sv = Inr (length (objs sv), sv') \<and> sv_inv sv' \<and>
    objs sv' = objs sv @ [\<lparr>sc_conn = c, sc_installed = 4\<rparr>] \<and> threadnum sv' = threadnum sv \<and>
    conn_open watched k c \<and> c_fd c = fd \<and> b_buf (inputbuffer c) = [] \<and>
    epolls sv' = (epolls sv)[nat (fd mod threadnum sv) := k] \<and>
    (\<forall>fd'. smap_find fd' (sv_conns sv') =
       (if fd' = fd then Some (length (objs sv)) else smap_find fd' (sv_conns sv))) \<and>
    (\<forall>fd'. loop_find sv' fd' = (if fd' = fd then Some (length (objs sv)) else loop_find sv fd'))"
proof -
  obtain k c where kc: "new_connection ctl fd now (epolls sv ! nat (fd mod threadnum sv)) = Inr (k, c)"
    "conn_open watched k c" "c_fd c = fd" "b_buf (inputbuffer c) = []"
    using new_connection_open [OF assms(3,4)] by blast
  from sv_inv_newconnction [OF assms(1,2) kc(1)] kc(2-4) show ?thesis by blast
qed

text \<open>
  A new connection: a descriptor the kernel does not watch yet is accepted on the loop of its
  residue, registered for reading, entered in both tables under a fresh object with all four
  callbacks set, and no other entry changes. A failed \<open>accept4\<close> is not recognised: with two or
  more loops the index is negative and the server reads outside \<open>subloops_\<close>.
\<close>

theorem accept_outcome:
  assumes "sv_inv sv" "epoll_ctl_spec ctl watched"
    and "\<forall>fd \<ge> 0. r = Some fd \<longrightarrow> watched (epolls sv ! nat (fd mod threadnum sv)) fd = None"
    and "r = None \<longrightarrow> 2 \<le> threadnum sv" "\<forall>fd. r = Some fd \<longrightarrow> 0 \<le> fd"
  shows "case r of
      None \<Rightarrow> acceptor_newconnction (\<lambda>fd s. bind_res (newconnction ctl now fd s) (\<lambda>(h, s'). Inr s')) r sv = Inl BadRead
    | Some fd \<Rightarrow> \<exists>sv' k c. acceptor_newconnction (\<lambda>fd s. bind_res (newconnction ctl now fd s) (\<lambda>(h, s'). Inr s')) r sv =
          Inr sv' \<and> sv_inv sv' \<and> objs sv' = objs sv @ [\<lparr>sc_conn = c, sc_installed = 4\<rparr>] \<and>
        conn_open watched k c \<and> epolls sv' ! nat (fd mod threadnum sv) = k \<and>
        (\<forall>fd'. smap_find fd' (sv_conns sv') =
           (if fd' = fd then Some (length (objs sv)) else smap_find fd' (sv_conns sv))) \<and>
        (\<forall>fd'. loop_find sv' fd' = (if fd' = fd then Some (length (objs sv)) else loop_find sv fd'))"
proof (cases r)
  case None
  have "(-1::int) smod threadnum sv = -1"
    using assms(4) None by (simp add: signed_modulo_int_def)
  then show ?thesis
    using None assms(4) by (simp add: acceptor_newconnction_def sock_accept_def newconnction_def
        sv_construct_def subloop_index_def Let_def)
next
  case (Some fd)
  with assms(5) have fd: "0 \<le> fd" by simp
  have w: "watched (epolls sv ! nat (fd mod threadnum sv)) fd = None" using assms(3) Some fd by simp
  have "nat (fd mod threadnum sv) < length (epolls sv)"
    using assms(1) by (simp add: sv_inv_def)
  with newconnction_ok [OF assms(1) fd assms(2) w, of now] show ?thesis
    by (auto simp: Some acceptor_newconnction_def sock_accept_def)
qed

text \<open>
  An error event takes the connection out of the server's table only: its loop keeps the entry,
  and with it the object and the descriptor, until a timer event finds the connection idle for
  longer than the limit.
\<close>

theorem error_keeps_loop_entry:
  assumes "sv_inv sv" "loop_find sv fd = Some h" "sv_error ctl h sv = Inr sv'"
  shows "smap_find fd (sv_conns sv') = None \<and> loop_find sv' fd = Some h \<and>
    (\<forall>now. loop_find (sv_timer now (nat (fd mod threadnum sv)) sv') fd =
       (if sv_idle now (nat (fd mod threadnum sv)) sv' h then None else Some h))"
proof -
  have n: "nat (fd mod threadnum sv) < nat (threadnum sv)"
    using assms(1) by (simp add: sv_inv_def)
  then have h: "handle_ok sv fd h"
    using assms(1,2) unfolding sv_inv_def loop_find_def by blast
  obtain i k c where i: "conn_errorcallback ctl (epolls sv ! i, sc_conn (objs sv ! h)) = Inr (k, c)"
    and sv': "sv' = sv_errorconnection h (sv\<lparr>epolls := (epolls sv)[i := k],
      objs := (objs sv)[h := (objs sv ! h)\<lparr>sc_conn := c\<rparr>]\<rparr>)"
    using assms(3) by (auto simp: sv_error_def bind_res_Inr Let_def split: if_splits)
  have "c_fd c = sv_fd h sv"
    using i by (auto simp: conn_errorcallback_def sv_fd_def dest: on_channel_fd)
  note 1 = sv_inv_objs [OF assms(1) _ this, of "(epolls sv)[i := k]"]
  have th: "threadnum sv' = threadnum sv" by (simp add: sv' sv_errorconnection_def)
  note 2 = sv_inv_error [OF 1(1), where h = h]
  have inv: "sv_inv sv'" and lf: "loop_find sv' fd = Some h"
    using 2 1 assms(2) by (simp_all add: sv')
  have "smap_find fd (sv_conns sv') = None"
    using 2(2) [of fd] 1(2) h by (simp add: sv' handle_ok_def)
  moreover have "loop_find (sv_timer now (nat (fd mod threadnum sv)) sv') fd =
       (if sv_idle now (nat (fd mod threadnum sv)) sv' h then None else Some h)" for now
    using sv_timer_loop [OF inv, of "nat (fd mod threadnum sv)" now fd] n by (simp add: th lf)
  ultimately show ?thesis using lf by blast
qed

lemma new_connection_input:
  "new_connection ctl fd now k = Inr (k', c) \<Longrightarrow> inputbuffer c = new_buffer_sep 0"
  by (auto simp: new_connection_def bind_res_Inr)

text \<open>Reading one message on a connection whose input buffer is fresh.\<close>

lemma sv_read_fresh:
  assumes "subloop_index sv (sv_fd h sv) = Inr i" "inputbuffer (sc_conn (objs sv ! h)) = new_buffer_sep 0"
    and "\<forall>r \<in> set rs. receiving r" "concat (chunks rs) \<noteq> []" "length (concat (chunks rs)) \<le> 1000000"
  shows "\<exists>sv'. sv_read ctl now (rs @ [RecvErr EAGAIN]) h sv =
    Some (if sc_installed (objs sv ! h) < 1 then Inl EmptyCall else Inr ([concat (chunks rs)], sv'))"
proof -
  let ?c = "sc_conn (objs sv ! h)"
  have b: "within_max (inputbuffer ?c)" "b_sep (inputbuffer ?c) = 0" "b_buf (inputbuffer ?c) = []"
    "unat (b_maxLen (inputbuffer ?c)) = 1000000"
    by (simp_all add: assms(2) within_max_new, simp_all add: new_buffer_sep_def MAX_BUF_SIZE_def)
  from onmessage_reads [OF assms(3) b(1,2), of ctl now "epolls sv ! i"] b(3,4) assms(4,5)
  show ?thesis
    by (auto simp: sv_read_def assms(1))
qed

text \<open>
  The constructor of a connection registers its descriptor before \<open>newconnction\<close> has set the
  callbacks. A message that the loop's thread reads in between meets an empty callback and throws;
  the same message after \<open>newconnction\<close> is handed on.
\<close>

theorem early_message_throws:
  assumes "sv_inv sv" "0 \<le> fd" "epoll_ctl_spec ctl watched"
    and "watched (epolls sv ! nat (fd mod threadnum sv)) fd = None"
    and "\<forall>r \<in> set rs. receiving r" "concat (chunks rs) \<noteq> []" "length (concat (chunks rs)) \<le> 1000000"
  shows "\<exists>sv1 sv2 sv3. sv_construct ctl now fd sv = Inr (length (objs sv), sv1) \<and>
    sv_read ctl now' (rs @ [RecvErr EAGAIN]) (length (objs sv)) sv1 = Some (Inl EmptyCall) \<and>
    newconnction ctl now fd sv = Inr (length (objs sv), sv2) \<and>
    sv_read ctl now' (rs @ [RecvErr EAGAIN]) (length (objs sv)) sv2 =
      Some (Inr ([concat (chunks rs)], sv3))"
proof -
  obtain k c where kc: "new_connection ctl fd now (epolls sv ! nat (fd mod threadnum sv)) = Inr (k, c)"
    using new_connection_open [OF assms(3,4)] by blast
  note c = new_connection_fd [OF kc] new_connection_input [OF kc]
  have th: "0 < threadnum sv" "length (subloops sv) = nat (threadnum sv)"
    using assms(1) by (simp_all add: sv_inv_def)
  note i = subloop_index_ok [OF th assms(2)]
  let ?h = "length (objs sv)"
  let ?sv1 = "sv\<lparr>epolls := (epolls sv)[nat (fd mod threadnum sv) := k],
    objs := objs sv @ [\<lparr>sc_conn = c, sc_installed = 0\<rparr>]\<rparr>"
  have 1: "sv_construct ctl now fd sv = Inr (?h, ?sv1)"
    using i(1) kc by (simp add: sv_construct_def)
  have i1: "subloop_index ?sv1 (sv_fd ?h ?sv1) = Inr (nat (fd mod threadnum sv))"
    using i(1) c(1) th(1) by (simp add: subloop_index_def sv_fd_def)
  have o1: "inputbuffer (sc_conn (objs ?sv1 ! ?h)) = new_buffer_sep 0" "sc_installed (objs ?sv1 ! ?h) = 0"
    using c(2) by simp_all
  obtain sv2 where 2: "newconnction ctl now fd sv = Inr (?h, sv2)" "sv_inv sv2"
    "objs sv2 = objs sv @ [\<lparr>sc_conn = c, sc_installed = 4\<rparr>]" "threadnum sv2 = threadnum sv"
    using sv_inv_newconnction [OF assms(1,2) kc] by blast
  have fd2: "sv_fd ?h sv2 = fd" using c(1) by (simp add: sv_fd_def 2(3))
  have i2: "subloop_index sv2 (sv_fd ?h sv2) = Inr (nat (fd mod threadnum sv))"
    using subloop_index_ok(1) [of sv2 fd] 2(2,4) assms(2) by (simp add: fd2 sv_inv_def)
  have o2: "inputbuffer (sc_conn (objs sv2 ! ?h)) = new_buffer_sep 0" "sc_installed (objs sv2 ! ?h) = 4"
    using c(2) by (simp_all add: 2(3))
  from sv_read_fresh [OF i1 o1(1) assms(5-7), of ctl now'] sv_read_fresh [OF i2 o2(1) assms(5-7), of ctl now']
  show ?thesis using 1 2(1) o1(2) o2(2) by auto
qed

lemma sample_server_inv: "sv_inv sample_server"
  by (simp add: sample_server_def sv_inv_new)

lemma sample_server_fields:
  "threadnum sample_server = 2" "epolls sample_server = [\<lambda>_. None, \<lambda>_. None]" "objs sample_server = []"
  by (simp_all add: sample_server_def new_tcpserver_def eval_nat_numeral)

lemma sample_accepted:
  obtains sv where "newconnction list_ctl 0 7 sample_server = Inr (0, sv)" "sv_inv sv"
    "loop_find sv 7 = Some 0" "smap_find 7 (sv_conns sv) = Some 0" "threadnum sv = 2"
    "sc_installed (objs sv ! 0) = 4" "conn_open (\<lambda>k. k) (epolls sv ! 1) (sc_conn (objs sv ! 0))"
    "sv_fd 0 sv = 7" "objs sv \<noteq> []"
proof -
  have "length (epolls sample_server) = 2" by (simp add: sample_server_fields)
  with newconnction_ok [OF sample_server_inv _ list_ctl_spec, of 7 0] that show thesis
    by (fastforce simp: sample_server_fields sv_fd_def)
qed


theorem accept_outcome_witness:
  "acceptor_newconnction (\<lambda>fd s. bind_res (newconnction list_ctl 0 fd s) (\<lambda>(h, s'). Inr s'))
     None sample_server = Inl BadRead \<and>
   (\<exists>sv. acceptor_newconnction (\<lambda>fd s. bind_res (newconnction list_ctl 0 fd s) (\<lambda>(h, s'). Inr s'))
     (Some 7) sample_server = Inr sv \<and> smap_find 7 (sv_conns sv) = Some 0)"
  using accept_outcome [OF sample_server_inv list_ctl_spec, of None 0]
    accept_outcome [OF sample_server_inv list_ctl_spec, of "Some 7" 0]
  by (auto simp: sample_server_fields)

theorem early_message_throws_witness:
  "\<exists>sv1. sv_construct list_ctl 0 7 sample_server = Inr (0, sv1) \<and>
     sv_read list_ctl 1 [Recv ''hi'', RecvErr EAGAIN] 0 sv1 = Some (Inl EmptyCall)"
  using early_message_throws [OF sample_server_inv _ list_ctl_spec, of 7 "[Recv ''hi'']" 0 1]
  by (auto simp: sample_server_fields receiving_def)

theorem error_keeps_loop_entry_witness:
  "\<exists>sv sv'. sv_error list_ctl 0 sv = Inr sv' \<and> smap_find 7 (sv_conns sv) = Some 0 \<and>
     smap_find 7 (sv_conns sv') = None \<and> loop_find sv' 7 = Some 0"
proof -
  obtain sv where sv: "sv_inv sv" "loop_find sv 7 = Some 0" "smap_find 7 (sv_conns sv) = Some 0"
    "threadnum sv = 2" "sc_installed (objs sv ! 0) = 4"
    "conn_open (\<lambda>k. k) (epolls sv ! 1) (sc_conn (objs sv ! 0))" "sv_fd 0 sv = 7"
    by (rule sample_accepted)
  have "subloop_index sv 7 = Inr 1"
    using subloop_index_ok(1) [of sv 7] sv(1,4) by (simp add: sv_inv_def)
  moreover obtain k c where "conn_errorcallback list_ctl (epolls sv ! 1, sc_conn (objs sv ! 0)) = Inr (k, c)"
    using remove_channel_synced [OF list_ctl_spec, of "epolls sv ! 1" "chan (sc_conn (objs sv ! 0))"] sv(6)
    by (auto simp: conn_errorcallback_def on_channel_def conn_open_def)
  ultimately obtain sv' where e: "sv_error list_ctl 0 sv = Inr sv'"
    using sv(5,7) by (auto simp: sv_error_def)
  from error_keeps_loop_entry [OF sv(1,2) e] sv(3) e show ?thesis by blast
qed

end
