(* ===== verification/RunDown.thy ===== *)
theory RunDown
  imports Prelude
begin

text \<open>
  Transition systems that run down: the contract behind every "it ends" of this development.
  \<open>step e s\<close> is the state after event \<open>e\<close>, \<^const>\<open>None\<close> when \<open>e\<close> cannot happen. A system that runs down
  comes to its end whatever is done, within \<open>size\<close> steps.
\<close>

fun steps :: "('e \<Rightarrow> 's \<Rightarrow> 's option) \<Rightarrow> 'e list \<Rightarrow> 's \<Rightarrow> 's option" where
  "steps step [] s = Some s"
| "steps step (e # es) s = (case step e s of None \<Rightarrow> None | Some s' \<Rightarrow> steps step es s')"

text \<open>Steps that can also fault, as the components write them: a fault is no state to go on from.\<close>

definition unfaulted :: "('e \<Rightarrow> 's \<Rightarrow> 's res option) \<Rightarrow> 'e \<Rightarrow> 's \<Rightarrow> 's option" where
  "unfaulted step e s = (case step e s of Some (Inr s') \<Rightarrow> Some s' | _ \<Rightarrow> None)"

lemma unfaulted_Some: "unfaulted step e s = Some s' \<longleftrightarrow> step e s = Some (Inr s')"
  by (simp add: unfaulted_def split: option.splits sum.splits)

lemma steps_append:
  "steps step (es @ fs) s = Option.bind (steps step es s) (steps step fs)"
  by (induction es arbitrary: s) (simp_all split: option.splits)

locale runs_down =
  fixes step :: "'e \<Rightarrow> 's \<Rightarrow> 's option"
    and inv :: "'s \<Rightarrow> bool"
    and finished :: "'s \<Rightarrow> bool"
    and size :: "'s \<Rightarrow> nat"
  assumes down: "inv s \<Longrightarrow> step e s = Some s' \<Longrightarrow> inv s' \<and> size s' < size s"
    and not_stuck: "inv s \<Longrightarrow> \<not> finished s \<Longrightarrow> \<exists>e s'. step e s = Some s'"
begin

lemma bounded: "inv s \<Longrightarrow> steps step es s = Some s' \<Longrightarrow> inv s' \<and> length es + size s' \<le> size s"
proof (induction es arbitrary: s)
  case (Cons e es)
  then obtain s1 where s1: "step e s = Some s1" "steps step es s1 = Some s'"
    by (auto split: option.splits)
  from down [OF Cons.prems(1) s1(1)] Cons.IH [OF _ s1(2)] show ?case by fastforce
qed simp

text \<open>Every run comes to its end.\<close>

lemma runs_out: "inv s \<Longrightarrow> \<exists>es s'. steps step es s = Some s' \<and> (\<forall>e. step e s' = None)"
proof (induction "size s" arbitrary: s rule: less_induct)
  case less
  show ?case
  proof (cases "\<exists>e s1. step e s = Some s1")
    case True
    then obtain e s1 where s1: "step e s = Some s1" by blast
    with down [OF less.prems] less.hyps [of s1] obtain es s' where
      "steps step es s1 = Some s'" "\<forall>e. step e s' = None" by blast
    with s1 show ?thesis by (intro exI [of _ "e # es"] exI [of _ s']) simp
  qed (auto intro: exI [of _ "[]"])
qed

text \<open>A run that cannot be continued has finished.\<close>

lemma stuck_finished:
  "inv s \<Longrightarrow> steps step es s = Some s' \<Longrightarrow> (\<And>e. step e s' = None) \<Longrightarrow> finished s'"
  using bounded not_stuck by fastforce

end

end
