(* ===== verification/ThreadPoll.thy ===== *)
theory ThreadPoll
  imports RunDown "HOL-Library.Multiset"
begin

text \<open>
  \<open>src/common/ThreadPoll\<close> as a transition system: the steps of its threads between two
  synchronisation points, interleaved in any order. \<open>addtask\<close>, \<open>size\<close> and \<open>Stop\<close> are called from
  outside; a worker checks \<open>stop_\<close>, waits for a task, runs it and becomes idle again; a worker
  whose wait runs into the timeout may leave. A task is a type parameter.
\<close>

section \<open>State\<close>

text \<open>
  The phases of \<open>Threadwork\<close>: before the test of \<open>stop_\<close>, inside \<open>wait_for\<close>, running the task
  taken (\<^const>\<open>None\<close> is the empty function after a timeout that did not end the thread), returned
  because of \<open>stop_\<close>, and retired by a timeout (its id then is in \<open>deadThreadQueue_\<close>)
  or joined and erased by the clearing thread.
\<close>

datatype 't phase = AtTest | InWait | Running "'t option" | Returned | Retired | Reaped

record 't pool =
  minThreadnum :: nat
  maxThreadnum :: nat
  currentThreadnum :: nat
  idleThreadnum :: nat
  tp_queue :: "'t list"
  tp_stop :: bool
  tp_threads :: "'t phase list"
  deadThreadQueue :: "nat list"
  tp_started :: "'t list"

text \<open>\<open>tp_started\<close> records the tasks in the order in which workers took them.\<close>

definition new_pool :: "nat \<Rightarrow> nat \<Rightarrow> 't pool" where
  "new_pool minthreadnum maxthreadnum =
     \<lparr>minThreadnum = minthreadnum,
      maxThreadnum = (if maxthreadnum \<le> minthreadnum then minthreadnum else maxthreadnum),
      currentThreadnum = minthreadnum, idleThreadnum = minthreadnum, tp_queue = [], tp_stop = False,
      tp_threads = replicate minthreadnum AtTest, deadThreadQueue = [], tp_started = []\<rparr>"

section \<open>Operations\<close>

definition pool_size :: "'t pool \<Rightarrow> nat" where
  "pool_size p = currentThreadnum p"

definition addtask :: "'t \<Rightarrow> 't pool \<Rightarrow> 't pool" where
  "addtask t p =
     (let p1 = (if length (tp_queue p) \<ge> idleThreadnum p \<and> currentThreadnum p < maxThreadnum p
                then p\<lparr>tp_threads := tp_threads p @ [AtTest],
                       currentThreadnum := currentThreadnum p + 1,
                       idleThreadnum := idleThreadnum p + 1\<rparr>
                else p)
      in p1\<lparr>tp_queue := tp_queue p1 @ [t]\<rparr>)"

definition Stop :: "'t pool \<Rightarrow> 't pool" where
  "Stop p = p\<lparr>tp_stop := True\<rparr>"

definition set_phase :: "nat \<Rightarrow> 't phase \<Rightarrow> 't pool \<Rightarrow> 't pool" where
  "set_phase i x p = p\<lparr>tp_threads := (tp_threads p)[i := x]\<rparr>"

text \<open>One iteration of \<open>Threadwork\<close> in its three parts; the wait ends with a task, by stop or by timeout.\<close>

definition tp_test :: "nat \<Rightarrow> 't pool \<Rightarrow> 't pool" where
  "tp_test i p = set_phase i (if tp_stop p then Returned else InWait) p"

definition tp_wake :: "nat \<Rightarrow> 't pool \<Rightarrow> 't pool option" where
  "tp_wake i p =
     (if \<not> tp_stop p \<and> tp_queue p = [] then None
      else case tp_queue p of
        [] \<Rightarrow> Some (set_phase i Returned p)
      | t # ts \<Rightarrow> Some (set_phase i (Running (Some t))
          (p\<lparr>tp_queue := ts, idleThreadnum := idleThreadnum p - 1, tp_started := tp_started p @ [t]\<rparr>)))"

definition tp_timeout :: "nat \<Rightarrow> 't pool \<Rightarrow> 't pool option" where
  "tp_timeout i p =
     (if tp_stop p \<or> tp_queue p \<noteq> [] then None
      else if currentThreadnum p > minThreadnum p then
        Some (set_phase i Retired (p\<lparr>deadThreadQueue := deadThreadQueue p @ [i],
          idleThreadnum := idleThreadnum p - 1, currentThreadnum := currentThreadnum p - 1\<rparr>))
      else Some (set_phase i (Running None) (p\<lparr>idleThreadnum := idleThreadnum p - 1\<rparr>)))"

definition tp_finish :: "nat \<Rightarrow> 't pool \<Rightarrow> 't pool" where
  "tp_finish i p = set_phase i AtTest (p\<lparr>idleThreadnum := idleThreadnum p + 1\<rparr>)"

text \<open>One round of the inner loop of \<open>clearDeadThread\<close>; the assertion is a failed lookup.\<close>

definition tp_reap :: "'t pool \<Rightarrow> 't pool res option" where
  "tp_reap p =
     (case deadThreadQueue p of
        [] \<Rightarrow> None
      | i # is \<Rightarrow> Some (if i < length (tp_threads p) \<and> tp_threads p ! i \<noteq> Reaped
          then Inr (set_phase i Reaped (p\<lparr>deadThreadQueue := is\<rparr>)) else Inl Exit))"

fun is_running :: "'t phase \<Rightarrow> bool" where
  "is_running (Running t) = True"
| "is_running _ = False"

datatype 't tp_event = AddTask 't | StopPool | Test nat | WakeUp nat | TimeOut nat | Finish nat | Reap

definition at_phase :: "('t phase \<Rightarrow> bool) \<Rightarrow> nat \<Rightarrow> 't pool \<Rightarrow> bool" where
  "at_phase P i p \<longleftrightarrow> i < length (tp_threads p) \<and> P (tp_threads p ! i)"

text \<open>\<^const>\<open>None\<close>: the thread is not at that point, so the step cannot happen.\<close>

fun tp_step :: "'t tp_event \<Rightarrow> 't pool \<Rightarrow> 't pool res option" where
  "tp_step (AddTask t) p = Some (Inr (addtask t p))"
| "tp_step StopPool p = Some (Inr (Stop p))"
| "tp_step (Test i) p = (if at_phase (\<lambda>x. x = AtTest) i p then Some (Inr (tp_test i p)) else None)"
| "tp_step (WakeUp i) p = (if at_phase (\<lambda>x. x = InWait) i p then map_option Inr (tp_wake i p) else None)"
| "tp_step (TimeOut i) p = (if at_phase (\<lambda>x. x = InWait) i p then map_option Inr (tp_timeout i p) else None)"
| "tp_step (Finish i) p = (if at_phase is_running i p then Some (Inr (tp_finish i p)) else None)"
| "tp_step Reap p = tp_reap p"

fun tp_run :: "'t tp_event list \<Rightarrow> 't pool \<Rightarrow> 't pool res option" where
  "tp_run [] p = Some (Inr p)"
| "tp_run (e # es) p =
     (case tp_step e p of
        None \<Rightarrow> None
      | Some (Inl f) \<Rightarrow> Some (Inl f)
      | Some (Inr p') \<Rightarrow> tp_run es p')"

lemma tp_run_append:
  "tp_run es p = Some (Inr p1) \<Longrightarrow> tp_run (es @ fs) p = tp_run fs p1"
  by (induction es arbitrary: p) (auto split: option.splits sum.splits)

section \<open>Counting threads\<close>

definition cnt :: "('a \<Rightarrow> bool) \<Rightarrow> 'a list \<Rightarrow> nat" where
  "cnt P xs = length (filter P xs)"

lemma cnt_simps [simp]:
  "cnt P [] = 0" "cnt P (x # xs) = of_bool (P x) + cnt P xs" "cnt P (xs @ ys) = cnt P xs + cnt P ys"
  "cnt P (replicate n x) = (if P x then n else 0)"
  by (simp_all add: cnt_def)

lemma cnt_update:
  "i < length xs \<Longrightarrow> cnt P (xs[i := x]) + of_bool (P (xs ! i)) = cnt P xs + of_bool (P x)"
proof (induction xs arbitrary: i)
  case (Cons a xs)
  then show ?case
    by (cases i) (use Cons.IH in \<open>fastforce simp del: of_bool_eq_iff\<close>)+
qed simp

lemma cnt_pos: "i < length xs \<Longrightarrow> P (xs ! i) \<Longrightarrow> 0 < cnt P xs"
  using nth_mem [of i xs] by (auto simp: cnt_def filter_empty_conv)

text \<open>The tasks being run, and how a step of a thread changes them.\<close>

fun running_task :: "'t phase \<Rightarrow> 't option" where
  "running_task (Running t) = t"
| "running_task _ = None"

definition running :: "'t pool \<Rightarrow> 't multiset" where
  "running p = sum_list (map (\<lambda>x. case running_task x of None \<Rightarrow> {#} | Some t \<Rightarrow> {#t#}) (tp_threads p))"

lemma running_set_phase:
  assumes "at_phase P i p"
  shows "running (set_phase i x p) + (case running_task (tp_threads p ! i) of None \<Rightarrow> {#} | Some t \<Rightarrow> {#t#}) =
    running p + (case running_task x of None \<Rightarrow> {#} | Some t \<Rightarrow> {#t#})"
  using assms sum_list_update_add [of i "tp_threads p" "\<lambda>x. case running_task x of None \<Rightarrow> {#} | Some t \<Rightarrow> {#t#}" x]
  by (simp add: running_def set_phase_def at_phase_def)

fun alive :: "'t phase \<Rightarrow> bool" where
  "alive Retired = False"
| "alive Reaped = False"
| "alive _ = True"

fun idle :: "'t phase \<Rightarrow> bool" where
  "idle AtTest = True"
| "idle InWait = True"
| "idle Returned = True"
| "idle _ = False"

definition tp_inv :: "'t pool \<Rightarrow> bool" where
  "tp_inv p \<longleftrightarrow> currentThreadnum p = cnt alive (tp_threads p) \<and>
     idleThreadnum p = cnt idle (tp_threads p) \<and>
     minThreadnum p \<le> currentThreadnum p \<and> currentThreadnum p \<le> maxThreadnum p \<and>
     distinct (deadThreadQueue p) \<and>
     (\<forall>i. i \<in> set (deadThreadQueue p) \<longleftrightarrow> at_phase (\<lambda>x. x = Retired) i p)"

lemma at_phase_set:
  "i < length (tp_threads p) \<Longrightarrow>
     at_phase P j (set_phase i x p) = (if j = i then P x else at_phase P j p)"
  by (auto simp: at_phase_def set_phase_def)

lemma pool_sels [simp]:
  "minThreadnum (set_phase i x p) = minThreadnum p" "maxThreadnum (set_phase i x p) = maxThreadnum p"
  "currentThreadnum (set_phase i x p) = currentThreadnum p" "idleThreadnum (set_phase i x p) = idleThreadnum p"
  "tp_queue (set_phase i x p) = tp_queue p" "tp_stop (set_phase i x p) = tp_stop p"
  "deadThreadQueue (set_phase i x p) = deadThreadQueue p" "tp_started (set_phase i x p) = tp_started p"
  "length (tp_threads (set_phase i x p)) = length (tp_threads p)"
  by (simp_all add: set_phase_def)

lemma cnt_set_phase:
  assumes "at_phase Q i p" "\<And>x. Q x \<Longrightarrow> P x = b"
  shows "cnt P (tp_threads (set_phase i x p)) + of_bool b = cnt P (tp_threads p) + of_bool (P x)"
  using cnt_update [of i "tp_threads p" P x] assms by (simp add: at_phase_def set_phase_def)

lemma tp_inv_new: "tp_inv (new_pool m n)"
  by (auto simp: tp_inv_def new_pool_def at_phase_def)

lemma at_phase_len: "at_phase P i p \<Longrightarrow> i < length (tp_threads p)"
  by (simp add: at_phase_def)

lemma at_phase_update [simp]:
  "at_phase P i (p\<lparr>deadThreadQueue := ds, idleThreadnum := n, currentThreadnum := m\<rparr>) = at_phase P i p"
  "at_phase P i (p\<lparr>tp_queue := q, idleThreadnum := n, tp_started := st\<rparr>) = at_phase P i p"
  "at_phase P i (p\<lparr>deadThreadQueue := ds\<rparr>) = at_phase P i p"
  by (simp_all add: at_phase_def)

lemma tp_inv_dead:
  assumes "\<forall>j. j \<in> set ds \<longleftrightarrow> at_phase (\<lambda>x. x = Retired) j p"
    and "at_phase Q i p" "\<not> Q Retired" "x \<noteq> Retired"
  shows "\<forall>j. j \<in> set ds \<longleftrightarrow> at_phase (\<lambda>x. x = Retired) j (set_phase i x p)"
proof -
  have "\<not> at_phase (\<lambda>x. x = Retired) i p" using assms(2,3) by (auto simp: at_phase_def)
  then show ?thesis using assms(1,4) by (simp add: at_phase_set [OF at_phase_len [OF assms(2)]])
qed

text \<open>A worker of the live part moving between phases that are both alive.\<close>

lemma tp_inv_move:
  assumes "tp_inv p" "at_phase Q i p" "\<And>y. Q y \<Longrightarrow> alive y" "\<And>y. Q y \<Longrightarrow> idle y = b" "alive x"
    and "n + of_bool b = idleThreadnum p + of_bool (idle x)"
  shows "tp_inv (set_phase i x (p\<lparr>tp_queue := q, idleThreadnum := n, tp_started := st\<rparr>))"
proof -
  let ?p = "p\<lparr>tp_queue := q, idleThreadnum := n, tp_started := st\<rparr>"
  have at: "at_phase Q i ?p" using assms(2) by (simp add: at_phase_def)
  have a: "cnt alive (tp_threads (set_phase i x ?p)) = cnt alive (tp_threads p)"
    using cnt_set_phase [OF at, of alive True x] assms(3,5) by simp
  have b: "cnt idle (tp_threads (set_phase i x ?p)) + of_bool b = cnt idle (tp_threads p) + of_bool (idle x)"
    using cnt_set_phase [OF at, of idle b x] assms(4) by simp
  have d: "\<forall>j. j \<in> set (deadThreadQueue p) \<longleftrightarrow> at_phase (\<lambda>x. x = Retired) j (set_phase i x ?p)"
  proof (rule tp_inv_dead [OF _ at])
    show "\<forall>j. j \<in> set (deadThreadQueue p) \<longleftrightarrow> at_phase (\<lambda>x. x = Retired) j ?p"
      using assms(1) by (simp add: tp_inv_def)
    show "\<not> Q Retired" using assms(3) [of Retired] by auto
    show "x \<noteq> Retired" using assms(5) by auto
  qed
  show ?thesis
    using assms(1,6) a b d by (simp add: tp_inv_def)
qed

lemma tp_inv_addtask: "tp_inv p \<Longrightarrow> tp_inv (addtask t p)"
  by (auto simp: tp_inv_def addtask_def at_phase_def nth_append Let_def)

lemma tp_inv_retire:
  assumes "tp_inv p" "at_phase (\<lambda>x. x = InWait) i p" "minThreadnum p < currentThreadnum p"
  shows "tp_inv (set_phase i Retired (p\<lparr>deadThreadQueue := deadThreadQueue p @ [i],
    idleThreadnum := idleThreadnum p - 1, currentThreadnum := currentThreadnum p - 1\<rparr>))"
proof -
  let ?p = "p\<lparr>deadThreadQueue := deadThreadQueue p @ [i],
    idleThreadnum := idleThreadnum p - 1, currentThreadnum := currentThreadnum p - 1\<rparr>"
  have at: "at_phase (\<lambda>x. x = InWait) i ?p" using assms(2) by (simp add: at_phase_def)
  have "cnt alive (tp_threads (set_phase i Retired ?p)) + 1 = cnt alive (tp_threads p)"
    using cnt_set_phase [OF at, of alive True Retired] by simp
  then have a: "cnt alive (tp_threads (set_phase i Retired ?p)) = currentThreadnum p - 1"
    using assms(1) unfolding tp_inv_def by linarith
  have "cnt idle (tp_threads (set_phase i Retired ?p)) + 1 = cnt idle (tp_threads p)"
    using cnt_set_phase [OF at, of idle True Retired] by simp
  then have b: "cnt idle (tp_threads (set_phase i Retired ?p)) = idleThreadnum p - 1"
    using assms(1) unfolding tp_inv_def by linarith
  have dead: "\<forall>j. j \<in> set (deadThreadQueue p) \<longleftrightarrow> at_phase (\<lambda>x. x = Retired) j p"
    using assms(1) by (simp add: tp_inv_def)
  have d: "\<forall>j. j \<in> set (deadThreadQueue p @ [i]) \<longleftrightarrow> at_phase (\<lambda>x. x = Retired) j (set_phase i Retired ?p)"
    using dead at_phase_len [OF assms(2)] by (simp add: at_phase_set)
  have "i \<notin> set (deadThreadQueue p)"
    using assms(1,2) by (auto simp: tp_inv_def at_phase_def)
  moreover have "minThreadnum p \<le> currentThreadnum p - 1" "currentThreadnum p - 1 \<le> maxThreadnum p"
    using assms(1,3) unfolding tp_inv_def by linarith+
  moreover have "distinct (deadThreadQueue p)" using assms(1) by (simp add: tp_inv_def)
  ultimately show ?thesis
    using a b d by (simp add: tp_inv_def)
qed

lemma tp_inv_reap:
  assumes "tp_inv p" "tp_reap p = Some r"
  shows "\<exists>p'. r = Inr p' \<and> tp_inv p'"
proof -
  obtain i "is" where d: "deadThreadQueue p = i # is"
    using assms(2) by (cases "deadThreadQueue p") (simp_all add: tp_reap_def)
  then have at: "at_phase (\<lambda>x. x = Retired) i p" and ni: "i \<notin> set is"
    using assms(1) by (auto simp: tp_inv_def)
  let ?p = "p\<lparr>deadThreadQueue := is\<rparr>"
  have at': "at_phase (\<lambda>x. x = Retired) i ?p" using at by simp
  have a: "cnt alive (tp_threads (set_phase i Reaped ?p)) = cnt alive (tp_threads p)"
    using cnt_set_phase [OF at', of alive False Reaped] by simp
  have b: "cnt idle (tp_threads (set_phase i Reaped ?p)) = cnt idle (tp_threads p)"
    using cnt_set_phase [OF at', of idle False Reaped] by simp
  have "j \<in> set is \<longleftrightarrow> j \<in> set (deadThreadQueue p) \<and> j \<noteq> i" for j
    using ni d by auto
  then have "\<forall>j. j \<in> set is \<longleftrightarrow> at_phase (\<lambda>x. x = Retired) j (set_phase i Reaped ?p)"
    using assms(1) by (simp add: tp_inv_def at_phase_set [OF at_phase_len [OF at']])
  moreover have "distinct is" using assms(1) d by (simp add: tp_inv_def)
  ultimately have "tp_inv (set_phase i Reaped ?p)"
    using assms(1) by (simp add: tp_inv_def a b)
  moreover have "r = Inr (set_phase i Reaped ?p)"
    using assms(2) d at by (auto simp: tp_reap_def at_phase_def)
  ultimately show ?thesis by blast
qed

lemma tp_inv_step:
  assumes "tp_inv p" "tp_step e p = Some r"
  shows "\<exists>p'. r = Inr p' \<and> tp_inv p'"
proof (cases e)
  case (AddTask t)
  then show ?thesis using assms tp_inv_addtask by auto
next
  case StopPool
  then show ?thesis using assms by (auto simp: Stop_def tp_inv_def at_phase_def)
next
  case (Test i)
  then have at: "at_phase (\<lambda>x. x = AtTest) i p" and r: "r = Inr (tp_test i p)"
    using assms(2) by (auto split: if_splits)
  have "tp_inv (set_phase i (if tp_stop p then Returned else InWait)
      (p\<lparr>tp_queue := tp_queue p, idleThreadnum := idleThreadnum p, tp_started := tp_started p\<rparr>))"
    by (rule tp_inv_move [OF assms(1) at, where b = True]) simp_all
  then show ?thesis by (simp add: r tp_test_def)
next
  case (WakeUp i)
  then have at: "at_phase (\<lambda>x. x = InWait) i p"
    using assms(2) by (auto split: if_splits)
  then have pos: "0 < idleThreadnum p"
    using assms(1) cnt_pos [of i "tp_threads p" idle] by (simp add: tp_inv_def at_phase_def)
  show ?thesis
  proof (cases "tp_queue p")
    case Nil
    have "tp_inv (set_phase i Returned
        (p\<lparr>tp_queue := tp_queue p, idleThreadnum := idleThreadnum p, tp_started := tp_started p\<rparr>))"
      by (rule tp_inv_move [OF assms(1) at, where b = True]) simp_all
    then have "tp_inv (set_phase i Returned p)" by simp
    then show ?thesis
      using assms(2) at Nil by (auto simp: WakeUp tp_wake_def split: if_splits)
  next
    case (Cons t ts)
    have "tp_inv (set_phase i (Running (Some t))
        (p\<lparr>tp_queue := ts, idleThreadnum := idleThreadnum p - 1, tp_started := tp_started p @ [t]\<rparr>))"
      by (rule tp_inv_move [OF assms(1) at, where b = True]) (use pos in simp_all)
    then show ?thesis
      using assms(2) at Cons by (auto simp: WakeUp tp_wake_def)
  qed
next
  case (TimeOut i)
  then have at: "at_phase (\<lambda>x. x = InWait) i p"
    using assms(2) by (auto split: if_splits)
  then have pos: "0 < idleThreadnum p"
    using assms(1) cnt_pos [of i "tp_threads p" idle] by (simp add: tp_inv_def at_phase_def)
  have "tp_inv (set_phase i (Running None)
      (p\<lparr>tp_queue := tp_queue p, idleThreadnum := idleThreadnum p - 1, tp_started := tp_started p\<rparr>))"
    by (rule tp_inv_move [OF assms(1) at, where b = True]) (use pos in simp_all)
  then show ?thesis
    using assms(2) at tp_inv_retire [OF assms(1) at]
    by (auto simp: TimeOut tp_timeout_def split: if_splits)
next
  case (Finish i)
  then have at: "at_phase is_running i p" and r: "r = Inr (tp_finish i p)"
    using assms(2) by (auto split: if_splits)
  have run: "alive y \<and> \<not> idle y" if "is_running y" for y :: "'a phase"
    using that by (cases y) auto
  have "tp_inv (set_phase i AtTest
      (p\<lparr>tp_queue := tp_queue p, idleThreadnum := idleThreadnum p + 1, tp_started := tp_started p\<rparr>))"
    by (rule tp_inv_move [OF assms(1) at, where b = False]) (use run in auto)
  then show ?thesis by (simp add: r tp_finish_def)
next
  case Reap
  then show ?thesis using tp_inv_reap [OF assms(1)] assms(2) by simp
qed

lemma tp_inv_run:
  "tp_run es p = Some r \<Longrightarrow> tp_inv p \<Longrightarrow> \<exists>p'. r = Inr p' \<and> tp_inv p'"
proof (induction es arbitrary: p)
  case (Cons e es)
  then obtain p' where "tp_step e p = Some (Inr p')" "tp_inv p'"
    using tp_inv_step [OF Cons.prems(2)] by (fastforce split: option.splits)
  with Cons show ?case by simp
qed auto

section \<open>Tasks and stopping\<close>

fun submitted :: "'t tp_event list \<Rightarrow> 't list" where
  "submitted [] = []"
| "submitted (AddTask t # es) = t # submitted es"
| "submitted (e # es) = submitted es"

lemma tp_step_tasks:
  "tp_step e p = Some (Inr p') \<Longrightarrow>
     tp_started p' @ tp_queue p' = tp_started p @ tp_queue p @ submitted [e]"
  by (cases e) (auto simp: addtask_def Stop_def tp_test_def tp_wake_def tp_timeout_def tp_finish_def
      tp_reap_def Let_def split: if_splits list.splits)

lemma tp_run_tasks:
  "tp_run es p = Some (Inr p') \<Longrightarrow>
     tp_started p' @ tp_queue p' = tp_started p @ tp_queue p @ submitted es"
proof (induction es arbitrary: p)
  case (Cons e es)
  then obtain p1 where 1: "tp_step e p = Some (Inr p1)" "tp_run es p1 = Some (Inr p')"
    by (auto split: option.splits sum.splits)
  have "submitted (e # es) = submitted [e] @ submitted es" by (cases e) simp_all
  with tp_step_tasks [OF 1(1)] Cons.IH [OF 1(2)] show ?case by simp
qed simp

text \<open>After \<open>Stop\<close> a worker in \<open>wait_for\<close> may still take one task; then it returns.\<close>

definition waiting :: "'t pool \<Rightarrow> nat" where
  "waiting p = cnt (\<lambda>x. x = InWait) (tp_threads p)"

lemma waiting_set:
  "at_phase Q i p \<Longrightarrow> (\<And>x. Q x \<Longrightarrow> (x = InWait) = b) \<Longrightarrow>
     waiting (set_phase i x p) + of_bool b = waiting p + of_bool (x = InWait)"
  unfolding waiting_def by (rule cnt_set_phase)

lemma waiting_update [simp]:
  "waiting (p\<lparr>tp_queue := q, idleThreadnum := n, tp_started := st\<rparr>) = waiting p"
  "waiting (p\<lparr>deadThreadQueue := ds, idleThreadnum := n, currentThreadnum := m\<rparr>) = waiting p"
  "waiting (p\<lparr>idleThreadnum := n\<rparr>) = waiting p" "waiting (p\<lparr>deadThreadQueue := ds\<rparr>) = waiting p"
  by (simp_all add: waiting_def)

lemma stopped_step:
  assumes "tp_step e p = Some (Inr p')" "tp_stop p"
  shows "tp_stop p' \<and> length (tp_started p') + waiting p' \<le> length (tp_started p) + waiting p"
proof (cases e)
  case (AddTask t)
  then show ?thesis using assms by (auto simp: addtask_def waiting_def Let_def)
next
  case StopPool
  then show ?thesis using assms by (auto simp: Stop_def waiting_def)
next
  case (Test i)
  then have "at_phase (\<lambda>x. x = AtTest) i p" "p' = set_phase i Returned p"
    using assms by (auto simp: tp_test_def split: if_splits)
  then show ?thesis using waiting_set [of "\<lambda>x. x = AtTest" i p False Returned] assms(2) by simp
next
  case (WakeUp i)
  then have at: "at_phase (\<lambda>x. x = InWait) i p" "tp_wake i p = Some p'"
    using assms by (auto split: if_splits)
  show ?thesis
  proof (cases "tp_queue p")
    case Nil
    with at assms(2) have "p' = set_phase i Returned p" by (simp add: tp_wake_def)
    then show ?thesis using waiting_set [OF at(1), of True Returned] assms(2) by simp
  next
    case (Cons t ts)
    let ?p = "p\<lparr>tp_queue := ts, idleThreadnum := idleThreadnum p - 1, tp_started := tp_started p @ [t]\<rparr>"
    have "p' = set_phase i (Running (Some t)) ?p" using at(2) Cons by (simp add: tp_wake_def)
    moreover have "at_phase (\<lambda>x. x = InWait) i ?p" using at(1) by simp
    ultimately show ?thesis
      using waiting_set [of "\<lambda>x. x = InWait" i ?p True "Running (Some t)"] assms(2) by simp
  qed
next
  case (TimeOut i)
  then show ?thesis using assms by (auto simp: tp_timeout_def split: if_splits)
next
  case (Finish i)
  let ?p = "p\<lparr>idleThreadnum := idleThreadnum p + 1\<rparr>"
  have "at_phase is_running i ?p" "p' = set_phase i AtTest ?p"
    using assms Finish by (auto simp: tp_finish_def at_phase_def split: if_splits)
  moreover have "x = InWait \<longleftrightarrow> False" if "is_running x" for x :: "'a phase"
    using that by (cases x) simp_all
  ultimately show ?thesis
    using waiting_set [of is_running i ?p False AtTest] assms(2) by simp
next
  case Reap
  then obtain j "is" where "p' = set_phase j Reaped (p\<lparr>deadThreadQueue := is\<rparr>)" "at_phase (\<lambda>x. True) j p"
    using assms by (auto simp: tp_reap_def at_phase_def split: list.splits if_splits)
  then show ?thesis
    using assms(2) cnt_update [of j "tp_threads p" "\<lambda>x. x = InWait" Reaped]
    by (simp add: waiting_def set_phase_def at_phase_def)
qed

lemma stopped_run:
  "tp_run es p = Some (Inr p') \<Longrightarrow> tp_stop p \<Longrightarrow>
     tp_stop p' \<and> length (tp_started p') + waiting p' \<le> length (tp_started p) + waiting p"
proof (induction es arbitrary: p)
  case (Cons e es)
  then obtain p1 where 1: "tp_step e p = Some (Inr p1)" "tp_run es p1 = Some (Inr p')"
    by (auto split: option.splits sum.splits)
  from stopped_step [OF 1(1) Cons.prems(2)] Cons.IH [OF 1(2)] show ?case by simp
qed simp

text \<open>The work left for the workers of a stopped pool.\<close>

fun weight :: "'t phase \<Rightarrow> nat" where
  "weight InWait = 3"
| "weight (Running t) = 2"
| "weight AtTest = 1"
| "weight _ = 0"

definition work_left :: "'t pool \<Rightarrow> nat" where
  "work_left p = sum_list (map weight (tp_threads p))"

definition worker_event :: "'t tp_event \<Rightarrow> bool" where
  "worker_event e = (case e of Test _ \<Rightarrow> True | WakeUp _ \<Rightarrow> True | TimeOut _ \<Rightarrow> True | Finish _ \<Rightarrow> True | _ \<Rightarrow> False)"

lemma work_left_set:
  assumes "at_phase Q i p"
  shows "work_left (set_phase i x p) + weight (tp_threads p ! i) = work_left p + weight x"
proof -
  have i: "i < length (tp_threads p)" using assms by (rule at_phase_len)
  then have "tp_threads p = take i (tp_threads p) @ tp_threads p ! i # drop (Suc i) (tp_threads p)"
    by (rule id_take_nth_drop)
  with i show ?thesis
    by (simp add: work_left_def set_phase_def upd_conv_take_nth_drop)
       (metis (no_types) add.commute add.left_commute list.simps(9) map_append sum_list.Cons sum_list.append)
qed

lemma stopped_worker_step:
  assumes "tp_step e p = Some (Inr p')" "tp_stop p" "worker_event e"
  shows "work_left p' < work_left p"
proof -
  have run: "weight x = 2" if "is_running x" for x :: "'a phase"
    using that by (cases x) simp_all
  have upd: "work_left (p\<lparr>tp_queue := q, idleThreadnum := n, tp_started := st\<rparr>) = work_left p"
    "work_left (p\<lparr>idleThreadnum := n\<rparr>) = work_left p" for q n st
    by (simp_all add: work_left_def)
  show ?thesis
  proof (cases e)
    case (Test i)
    then have at: "at_phase (\<lambda>x. x = AtTest) i p" "p' = set_phase i Returned p"
      using assms by (auto simp: tp_test_def split: if_splits)
    then show ?thesis using work_left_set [OF at(1), of Returned] by (simp add: at_phase_def)
  next
    case (WakeUp i)
    then have at: "at_phase (\<lambda>x. x = InWait) i p" "tp_wake i p = Some p'"
      using assms by (auto split: if_splits)
    show ?thesis
    proof (cases "tp_queue p")
      case Nil
      with at assms(2) have "p' = set_phase i Returned p" by (simp add: tp_wake_def)
      then show ?thesis using work_left_set [OF at(1), of Returned] at(1) by (simp add: at_phase_def)
    next
      case (Cons t ts)
      let ?p = "p\<lparr>tp_queue := ts, idleThreadnum := idleThreadnum p - 1, tp_started := tp_started p @ [t]\<rparr>"
      have "p' = set_phase i (Running (Some t)) ?p" using at(2) Cons by (simp add: tp_wake_def)
      moreover have "at_phase (\<lambda>x. x = InWait) i ?p" using at(1) by simp
      ultimately show ?thesis
        using work_left_set [of "\<lambda>x. x = InWait" i ?p "Running (Some t)"] at(1) upd
        by (simp add: at_phase_def)
    qed
  next
    case (TimeOut i)
    then show ?thesis using assms by (auto simp: tp_timeout_def split: if_splits)
  next
    case (Finish i)
    let ?p = "p\<lparr>idleThreadnum := idleThreadnum p + 1\<rparr>"
    have at: "at_phase is_running i ?p" "p' = set_phase i AtTest ?p"
      using assms Finish by (auto simp: tp_finish_def at_phase_def split: if_splits)
    then have "weight (tp_threads p ! i) = 2" using run by (simp add: at_phase_def)
    then show ?thesis using work_left_set [OF at(1), of AtTest] at upd by simp
  qed (use assms in \<open>simp_all add: worker_event_def\<close>)
qed

lemma weight_le: "weight x \<le> 3"
  by (cases x) simp_all

lemma work_left_bound: "work_left p \<le> 3 * length (tp_threads p)"
proof -
  have "sum_list (map weight xs) \<le> 3 * length xs" for xs :: "'a phase list"
  proof (induction xs)
    case (Cons x xs)
    with weight_le [of x] show ?case by simp
  qed simp
  then show ?thesis by (simp add: work_left_def)
qed

fun finished :: "'t phase \<Rightarrow> bool" where
  "finished Returned = True"
| "finished Retired = True"
| "finished Reaped = True"
| "finished _ = False"

lemma stopped_progress:
  assumes "tp_stop p" "i < length (tp_threads p)" "\<not> finished (tp_threads p ! i)"
  shows "\<exists>e p'. worker_event e \<and> tp_step e p = Some (Inr p')"
proof (cases "tp_threads p ! i")
  case AtTest
  then show ?thesis using assms
    by (intro exI [of _ "Test i"]) (simp add: worker_event_def at_phase_def)
next
  case InWait
  then show ?thesis using assms
    by (intro exI [of _ "WakeUp i"])
      (simp add: worker_event_def at_phase_def tp_wake_def split: list.splits)
next
  case (Running t)
  then show ?thesis using assms
    by (intro exI [of _ "Finish i"]) (simp add: worker_event_def at_phase_def)
qed (use assms in simp_all)

text \<open>A stopped pool left to its workers runs down to the state in which all of them are finished.\<close>

definition worker_step :: "'t tp_event \<Rightarrow> 't pool \<Rightarrow> 't pool option" where
  "worker_step e p = (if worker_event e then unfaulted tp_step e p else None)"

definition all_finished :: "'t pool \<Rightarrow> bool" where
  "all_finished p \<longleftrightarrow> (\<forall>i < length (tp_threads p). finished (tp_threads p ! i))"

interpretation stopped_pool: runs_down worker_step tp_stop all_finished work_left
proof
  show "tp_stop p' \<and> work_left p' < work_left p" if "tp_stop p" "worker_step e p = Some p'" for e and p p' :: "'t pool"
    using that stopped_step [of e p p'] stopped_worker_step [of e p p']
    by (simp add: worker_step_def unfaulted_Some split: if_splits)
  show "\<exists>e p'. worker_step e p = Some p'" if p: "tp_stop p" "\<not> all_finished p" for p :: "'t pool"
  proof -
    obtain i where "i < length (tp_threads p)" "\<not> finished (tp_threads p ! i)"
      using p(2) by (auto simp: all_finished_def)
    from stopped_progress [OF p(1) this] show ?thesis
      by (auto simp: worker_step_def unfaulted_Some)
  qed
qed

lemma worker_run_steps:
  "tp_run es p = Some (Inr p') \<Longrightarrow> list_all worker_event es \<Longrightarrow> steps worker_step es p = Some p'"
proof (induction es arbitrary: p)
  case (Cons e es)
  then obtain p1 where "tp_step e p = Some (Inr p1)" "tp_run es p1 = Some (Inr p')"
    by (auto split: option.splits sum.splits)
  with Cons show ?case by (simp add: worker_step_def unfaulted_def)
qed simp

lemma tp_run_limits:
  "tp_run es p = Some (Inr p') \<Longrightarrow> minThreadnum p' = minThreadnum p \<and> maxThreadnum p' = maxThreadnum p"
proof (induction es arbitrary: p)
  case (Cons e es)
  then obtain p1 where 1: "tp_step e p = Some (Inr p1)" "tp_run es p1 = Some (Inr p')"
    by (auto split: option.splits sum.splits)
  have "minThreadnum p1 = minThreadnum p \<and> maxThreadnum p1 = maxThreadnum p"
    using 1(1) by (cases e) (auto simp: addtask_def Stop_def tp_test_def tp_wake_def tp_timeout_def
        tp_finish_def tp_reap_def Let_def split: if_splits list.splits)
  with Cons.IH [OF 1(2)] show ?case by simp
qed simp

section \<open>Properties\<close>



text \<open>
  C24. Tasks are neither lost nor repeated nor reordered while the pool runs: at any time the tasks
  taken so far followed by the queue are the tasks submitted, in the order of submission.
\<close>

theorem pool_fifo:
  assumes "tp_run es (new_pool m n) = Some (Inr p)"
  shows "tp_started p @ tp_queue p = submitted es"
  using tp_run_tasks [OF assms] by (simp add: new_pool_def)

text \<open>
  \<open>Stop\<close> drops queued tasks: afterwards at most one more task is taken for each worker that is
  waiting at that moment, so the rest of the queue is never run.
\<close>

theorem pool_stop_drops:
  assumes "tp_run es (Stop p) = Some (Inr p')"
  shows "length (tp_started p') \<le> length (tp_started p) + waiting p \<and>
    length (tp_queue p) + length (submitted es) - waiting p \<le> length (tp_queue p')"
proof -
  have "length (tp_started p') \<le> length (tp_started p) + waiting p"
    using stopped_run [OF assms] by (simp add: Stop_def waiting_def)
  moreover have "length (tp_started p') + length (tp_queue p') =
      length (tp_started p) + length (tp_queue p) + length (submitted es)"
    using arg_cong [OF tp_run_tasks [OF assms], of length] by (simp add: Stop_def)
  ultimately show ?thesis by linarith
qed

text \<open>
  \<open>Stop\<close> ends: once it is called the workers make at most three steps per thread, and as long
  as some worker has not returned one of them can make a step, so all of them return (given that
  the tasks do) and the joins of \<open>Stop\<close> come back.
\<close>

theorem pool_stop_terminates:
  assumes "tp_run es (Stop p) = Some (Inr p')" "list_all worker_event es"
  shows "length es \<le> 3 * length (tp_threads p) \<and>
    ((\<forall>i < length (tp_threads p'). finished (tp_threads p' ! i)) \<or>
     (\<exists>e p''. worker_event e \<and> tp_step e p' = Some (Inr p'')))"
proof -
  have stop: "tp_stop (Stop p)" by (simp add: Stop_def)
  from stopped_pool.bounded [OF stop worker_run_steps [OF assms]]
  have "tp_stop p'" "length es \<le> work_left (Stop p)" by simp_all
  with work_left_bound [of "Stop p"] stopped_progress [of p'] show ?thesis
    by (auto simp: Stop_def)
qed


section \<open>Witnesses\<close>

text \<open>Two workers with room for a third, which is made for the third task and leaves again.\<close>

definition busy_schedule :: "nat tp_event list" where
  "busy_schedule = [Test 0, Test 1, AddTask 5, WakeUp 1, AddTask 6, WakeUp 0, AddTask 7, Test 2,
     WakeUp 2, Finish 2, Test 2, TimeOut 2, Reap]"

lemma busy_run:
  "case tp_run busy_schedule (new_pool 2 3) of
     Some (Inr p) \<Rightarrow> pool_size p = 2 \<and> tp_started p = [5, 6, 7] \<and> length (tp_threads p) = 3
   | _ \<Rightarrow> False"
  by code_simp

lemma busy_run_result:
  obtains p where "tp_run busy_schedule (new_pool 2 3) = Some (Inr p)" "pool_size p = 2"
    "tp_started p = [5, 6, 7]"
  using busy_run by (auto split: option.splits sum.splits)


theorem pool_fifo_witness:
  "\<exists>p. tp_run busy_schedule (new_pool 2 3) = Some (Inr p) \<and> tp_started p @ tp_queue p = [5, 6, 7]"
proof -
  obtain p where p: "tp_run busy_schedule (new_pool 2 3) = Some (Inr p)"
    by (rule busy_run_result)
  from pool_fifo [OF p] p show ?thesis by (simp add: busy_schedule_def)
qed

text \<open>One worker, waiting, and two queued tasks when \<open>Stop\<close> is called.\<close>

definition stopping_pool :: "nat pool" where
  "stopping_pool = (new_pool 1 1)\<lparr>tp_threads := [InWait], tp_queue := [5, 6]\<rparr>"

lemma stopping_run:
  "case tp_run [WakeUp 0, Finish 0, Test 0] (Stop stopping_pool) of
     Some (Inr p) \<Rightarrow> tp_queue p = [6] | _ \<Rightarrow> False"
  by code_simp

theorem pool_stop_drops_witness:
  "\<exists>p. tp_run [WakeUp 0, Finish 0, Test 0] (Stop stopping_pool) = Some (Inr p) \<and> 1 \<le> length (tp_queue p)"
proof -
  obtain p where p: "tp_run [WakeUp 0, Finish 0, Test 0] (Stop stopping_pool) = Some (Inr p)"
    using stopping_run by (auto split: option.splits sum.splits)
  from pool_stop_drops [OF p] p show ?thesis by (simp add: stopping_pool_def waiting_def)
qed

theorem pool_stop_terminates_witness:
  "\<exists>p. tp_run [WakeUp 0, Finish 0, Test 0] (Stop stopping_pool) = Some (Inr p) \<and>
     (finished (tp_threads p ! 0) \<or> (\<exists>e p''. worker_event e \<and> tp_step e p = Some (Inr p'')))"
proof -
  obtain p where p: "tp_run [WakeUp 0, Finish 0, Test 0] (Stop stopping_pool) = Some (Inr p)"
    using stopping_run by (auto split: option.splits sum.splits)
  have "length (tp_threads p) = 1"
    using p by (auto simp: stopping_pool_def Stop_def at_phase_def tp_wake_def tp_finish_def tp_test_def
        set_phase_def split: if_splits)
  with pool_stop_terminates [OF p] p show ?thesis by (auto simp: worker_event_def)
qed

end
