(* ===== verification/RpcServer.thy ===== *)
theory RpcServer
  imports Config ZkClient TinypbDecode Dispatcher TcpServerModel ThreadPoll
begin

text \<open>
  \<open>src/server/Rpc/rpc_server\<close>: what the server does with a message, from the decoder over the
  dispatcher to the connection, directly in the I/O thread or as a task of the thread pool, and
  what it publishes in ZooKeeper. The coder is used through \<open>AbstractCoder\<close>; its contract is the
  locale \<open>abstract_coder\<close>, interpreted on \<open>TinyPBCoder\<close>.
\<close>

section \<open>The coder's contract\<close>

locale abstract_coder =
  fixes enc :: "'p list \<Rightarrow> ('p list \<times> string) res"
    and dec :: "string \<Rightarrow> 'p list res option"
    and ok :: "'p list \<Rightarrow> bool"
    and image :: "'p \<Rightarrow> 'p"
  assumes dec_enc: "ok ms \<Longrightarrow> \<exists>ms' buf. enc ms = Inr (ms', buf) \<and> dec buf = Some (Inr (map image ms))"
begin

text \<open>What a peer reads in the answer to what it has written.\<close>

lemma exchange:
  assumes "ok reqs" "enc reqs = Inr (ms', bytes)"
    and "serve (map image reqs) = Inr (replies, w')" "ok replies"
  shows "\<exists>out. map_option (\<lambda>r. bind_res r (\<lambda>ms. bind_res (serve ms) (\<lambda>(replies, w').
      bind_res (enc replies) (\<lambda>(_, out). Inr (out, w'))))) (dec bytes) = Some (Inr (out, w')) \<and>
    dec out = Some (Inr (map image replies))"
  using dec_enc [OF assms(1)] dec_enc [OF assms(4)] assms(2,3) by auto

end

definition total_len :: "tinypb list \<Rightarrow> nat" where
  "total_len ms = sum_list (map (\<lambda>m. frame_len (with_msg_id m)) ms)"

definition sendable :: "tinypb list \<Rightarrow> bool" where
  "sendable ms \<longleftrightarrow> list_all wf_msg ms \<and> int (total_len ms) + 1 < 2 ^ 31"

definition received :: "tinypb \<Rightarrow> tinypb" where
  "received m = wire_image (with_msg_id m)"

lemma encode_sendable:
  assumes "sendable ms"
  shows "\<exists>ms' buf. encode ms = Inr (ms', buf) \<and> length buf = total_len ms"
proof -
  have "int (frame_len (with_msg_id m)) + 1 < 2 ^ 31" if "m \<in> set ms" for m
  proof -
    have "frame_len (with_msg_id m) \<le> total_len ms"
      using that unfolding total_len_def by (auto intro: member_le_sum_list)
    then show ?thesis using assms by (simp add: sendable_def)
  qed
  then obtain ms' buf where e: "encode ms = Inr (ms', buf)"
    using encode_total [of ms] by (metis surj_pair)
  then have "length buf = total_len ms"
    using encode_bytes [OF e] by (simp add: total_len_def length_concat comp_def)
  with e show ?thesis by blast
qed

interpretation tinypb_coder: abstract_coder encode decode sendable received
proof
  fix ms
  assume ok: "sendable ms"
  obtain ms' buf where e: "encode ms = Inr (ms', buf)" "length buf = total_len ms"
    using encode_sendable [OF ok] by blast
  have "decode buf = Some (Inr (map (\<lambda>m. m\<lparr>m_check_sum := 0\<rparr>) ms'))"
    by (rule decode_encoded [OF e(1)]) (use ok e(2) in \<open>auto simp: sendable_def list_all_iff\<close>)
  also have "map (\<lambda>m. m\<lparr>m_check_sum := 0\<rparr>) ms' = map received ms"
    using encode_messages [OF e(1)] unfolding received_def by (rule sym)
  finally show "\<exists>ms' buf. encode ms = Inr (ms', buf) \<and> decode buf = Some (Inr (map received ms))"
    using e(1) by blast
qed

section \<open>Answering a message\<close>

text \<open>The loop of \<open>OnMessage\<close>: each request gets a new reply object, in order.\<close>

fun dispatch_all :: "('m, 'w) dispatcher \<Rightarrow> tinypb list \<Rightarrow> 'w \<Rightarrow> (tinypb list \<times> 'w) res" where
  "dispatch_all d [] w = Inr ([], w)"
| "dispatch_all d (r # rs) w =
     bind_res (dispatch d r new_tinypb w) (\<lambda>(reply, w1).
     bind_res (dispatch_all d rs w1) (\<lambda>(replies, w2). Inr (reply # replies, w2)))"

text \<open>
  \<open>answer\<close> is \<open>OnMessage\<close> up to \<open>m_out_buffer\<close>; \<open>OnMessage\<close> hands it to \<open>Connection::send\<close>.
\<close>

definition answer :: "('m, 'w) dispatcher \<Rightarrow> string \<Rightarrow> 'w \<Rightarrow> (string \<times> 'w) res option" where
  "answer d message w =
     map_option (\<lambda>r. bind_res r (\<lambda>reqs.
       bind_res (dispatch_all d reqs w) (\<lambda>(replies, w').
       bind_res (encode replies) (\<lambda>(_, out). Inr (out, w')))))
     (decode message)"

definition OnMessage :: "'k epoll_ctl \<Rightarrow> bool \<Rightarrow> ('m, 'w) dispatcher \<Rightarrow> string \<Rightarrow>
    'w \<times> (string, 'c) event_loop \<times> 'k \<times> conn \<Rightarrow> ('w \<times> (string, 'c) event_loop \<times> 'k \<times> conn) res option" where
  "OnMessage ctl inloopthread d message = (\<lambda>(w, lkc).
     map_option (\<lambda>r. bind_res r (\<lambda>(out, w').
       bind_res (conn_send ctl inloopthread out lkc) (\<lambda>lkc'. Inr (w', lkc'))))
     (answer d message w))"

text \<open>\<open>HandleMessage\<close>: at once when the pool has no thread, else as a task of the pool.\<close>

definition HandleMessage :: "('s \<Rightarrow> 's res option) \<Rightarrow> 't \<Rightarrow> 't pool \<times> 's \<Rightarrow> ('t pool \<times> 's) res option" where
  "HandleMessage on_message task = (\<lambda>(pool, s).
     if pool_size pool = 0 then map_option (\<lambda>r. bind_res r (\<lambda>s'. Inr (pool, s'))) (on_message s)
     else Some (Inr (addtask task pool, s)))"

section \<open>Registration\<close>

text \<open>
  \<open>Start\<close>, for the registry in its order: the node of the service, then the address printed into
  \<open>char[128]\<close>, then the ephemeral node of the method. The main loop that follows is in
  \<open>EventLoopModel\<close>.
\<close>

definition host_data :: "string \<Rightarrow> nat \<Rightarrow> string res" where
  "host_data ip port =
     (let s = ip @ '':'' @ dec_str port in if length s + 1 \<le> 128 then Inr s else Inl BadWrite)"

fun start_methods :: "'z zk_api \<Rightarrow> ('z \<Rightarrow> 'z) \<Rightarrow> string \<Rightarrow> nat \<Rightarrow> string \<Rightarrow> ('m, 'w) rpc_method list \<Rightarrow>
    'z \<Rightarrow> 'z res" where
  "start_methods zk others ip port service_name [] z = Inr z"
| "start_methods zk others ip port service_name (m # ms) z =
     (let service_path = ''/'' @ service_name; method_path = service_path @ ''/'' @ md_name m in
      bind_res (zk_Create zk others service_path None False z) (\<lambda>z1.
      bind_res (host_data ip port) (\<lambda>method_path_data.
      bind_res (zk_Create zk others method_path (Some method_path_data) True z1)
        (start_methods zk others ip port service_name ms))))"

fun Start :: "'z zk_api \<Rightarrow> ('z \<Rightarrow> 'z) \<Rightarrow> string \<Rightarrow> nat \<Rightarrow> ('m, 'w) dispatcher \<Rightarrow> 'z \<Rightarrow> 'z res" where
  "Start zk others ip port [] z = Inr z"
| "Start zk others ip port ((service_name, service) # d) z =
     bind_res (start_methods zk others ip port service_name (sd_methods service) z)
       (Start zk others ip port d)"

text \<open>The address \<open>Start\<close> publishes is the configured one.\<close>

definition server_Start :: "'z zk_api \<Rightarrow> ('z \<Rightarrow> 'z) \<Rightarrow> config \<Rightarrow> ('m, 'w) dispatcher \<Rightarrow> 'z \<Rightarrow> 'z res" where
  "server_Start zk others cfg d z = Start zk others (m_ip cfg) (nat (m_port cfg mod 2 ^ 16)) d z"

text \<open>
  The constructor: what it passes on to the server and to the pool of workers, where zero stands for
  the configured value, with the conversions to \<open>uint16_t\<close> and \<open>size_t\<close>.
\<close>

record server_params =
  listen_port :: nat
  io_threadnum :: int
  work_threadnum :: nat

definition RPCServer_new :: "config \<Rightarrow> nat \<Rightarrow> int \<Rightarrow> int \<Rightarrow> server_params" where
  "RPCServer_new cfg port threads workthreads =
     \<lparr>listen_port = nat ((if port = 0 then m_port cfg else int port) mod 2 ^ 16),
      io_threadnum = (if threads = 0 then m_io_threads cfg else threads),
      work_threadnum = nat ((if workthreads = 0 then m_work_threads cfg else workthreads) mod 2 ^ 64)\<rparr>"

section \<open>Laws\<close>

lemma dispatch_all_length:
  "dispatch_all d rs w = Inr (replies, w') \<Longrightarrow> length replies = length rs"
  by (induction rs arbitrary: w replies) (auto simp: bind_res_Inr)

lemma dispatch_all_each:
  "dispatch_all d rs w = Inr (replies, w') \<Longrightarrow>
     list_all2 (\<lambda>r reply. \<exists>w1 w2. dispatch d r new_tinypb w1 = Inr (reply, w2)) rs replies"
  by (induction rs arbitrary: w replies) (auto simp: bind_res_Inr)

lemma answer_encoded:
  assumes "sendable reqs" "encode reqs = Inr (ms', bytes)"
    and "dispatch_all d (map received reqs) w = Inr (replies, w')" "sendable replies"
  shows "\<exists>out. answer d bytes w = Some (Inr (out, w')) \<and>
    decode out = Some (Inr (map received replies))"
  using tinypb_coder.exchange [OF assms(1,2), where serve = "\<lambda>ms. dispatch_all d ms w", OF assms(3,4)]
  by (simp add: answer_def)

lemma answer_length:
  assumes "sendable reqs" "encode reqs = Inr (ms', bytes)"
    and "dispatch_all d (map received reqs) w = Inr (replies, w')" "sendable replies"
    and "answer d bytes w = Some (Inr (out, w'))"
  shows "length out = total_len replies"
proof -
  have "decode bytes = Some (Inr (map received reqs))"
    using tinypb_coder.dec_enc [OF assms(1)] assms(2) by auto
  moreover obtain rs buf where "encode replies = Inr (rs, buf)" "length buf = total_len replies"
    using encode_sendable [OF assms(4)] by blast
  ultimately show ?thesis using assms(3,5) by (simp add: answer_def)
qed

lemma received_sel [simp]:
  "m_msg_id (received m) = (if m_msg_id m = [] then default_msg_id else m_msg_id m)"
  "m_method_name (received m) = m_method_name m" "m_err_code (received m) = m_err_code m"
  "m_err_info (received m) = m_err_info m" "m_pb_data (received m) = m_pb_data m"
  by (simp_all add: received_def wire_image_def new_tinypb_def with_msg_id_def)

lemma decode_no_start:
  assumes "PB_START \<notin> set b" "int (length b) < 2 ^ 31"
  shows "decode b = Some (Inr [])"
  using decode_stream [of "[]" b] assms by simp

text \<open>The request of the test client at a server with the order service, and its reply.\<close>

definition makeOrder_reply :: tinypb where
  "makeOrder_reply = new_tinypb\<lparr>m_method_name := ''Order.makeOrder'', m_msg_id := ''9912312998888'',
     m_pb_data := ''9912312998888apple'', m_err_code := 0\<rparr>"

lemma makeOrder_served:
  "sendable [order_request]" "sendable [makeOrder_reply]" "total_len [makeOrder_reply] \<le> 1024"
  "dispatch (registerService order_service []) (received order_request) new_tinypb 0 = Inr (makeOrder_reply, 1)"
proof -
  show "sendable [order_request]" by (simp add: sendable_def total_len_def sample_simps)
  show "sendable [makeOrder_reply]" "total_len [makeOrder_reply] \<le> 1024"
    by (simp_all add: makeOrder_reply_def sendable_def total_len_def wf_msg_def cstr_ok_def new_tinypb_def
        frame_len_def with_msg_id_def)
  show "dispatch (registerService order_service []) (received order_request) new_tinypb 0 = Inr (makeOrder_reply, 1)"
    by (simp add: dispatch_def sample_simps parseServiceFullName_def find_first_of_def Let_def makeOrder_reply_def
        registerService_def order_service_def order_method_def smap_find_def FindMethodByName_def controller_ops)
qed

section \<open>Properties\<close>

text \<open>
  C16. The server answers messages the way its dispatcher answers requests: for the bytes of any
  sendable list of requests the answer decodes to exactly one reply per request, in order, each
  reply being what the dispatcher returns for that request.
\<close>

theorem answer_requests:
  assumes "sendable reqs" "encode reqs = Inr (ms', bytes)"
    and "dispatch_all d (map received reqs) w = Inr (replies, w')" "sendable replies"
  shows "\<exists>out. answer d bytes w = Some (Inr (out, w')) \<and>
    decode out = Some (Inr (map received replies)) \<and>
    list_all2 (\<lambda>req reply. \<exists>w1 w2. dispatch d (received req) new_tinypb w1 = Inr (reply, w2)) reqs replies"
  using answer_encoded [OF assms] dispatch_all_each [OF assms(3)]
  by (auto simp: list_all2_map1)

theorem answer_requests_witness:
  "\<exists>ms' bytes out reply. encode [order_request] = Inr (ms', bytes) \<and>
     answer (registerService order_service []) bytes 0 = Some (Inr (out, 1)) \<and>
     decode out = Some (Inr [received reply]) \<and> m_pb_data reply = ''9912312998888apple''"
proof -
  let ?d = "registerService order_service []"
  obtain ms' bytes where e: "encode [order_request] = Inr (ms', bytes)"
    using encode_sendable [OF makeOrder_served(1)] by blast
  have d: "dispatch_all ?d (map received [order_request]) 0 = Inr ([makeOrder_reply], 1)"
    by (simp add: makeOrder_served(4))
  obtain out where "answer ?d bytes 0 = Some (Inr (out, 1))"
    "decode out = Some (Inr (map received [makeOrder_reply]))"
    using answer_requests [OF makeOrder_served(1) e d makeOrder_served(2)] by blast
  with e show ?thesis
    by (intro exI [of _ ms'] exI [of _ bytes] exI [of _ out] exI [of _ makeOrder_reply])
      (simp add: makeOrder_reply_def)
qed

text \<open>
  A request for an unknown service is answered with an error, but not under its own id: the
  dispatcher leaves the id of the reply empty and the encoder then writes the default
  \<open>123456789\<close>, whatever id the client has sent.
\<close>

theorem error_reply_loses_id:
  assumes "sendable [req]" "encode [req] = Inr (ms', bytes)"
    and "m_method_name req = s @ CHR ''.'' # n" "CHR ''.'' \<notin> set s" "smap_find s d = None"
  shows "\<exists>out r. answer d bytes w = Some (Inr (out, w)) \<and> decode out = Some (Inr [r]) \<and>
    m_err_code r = ERROR_SERVICE_NOT_FOUND \<and> m_msg_id r = default_msg_id \<and> m_pb_data r = []"
proof -
  let ?r = "setTinyPBError ERROR_SERVICE_NOT_FOUND ''parse sevice not found'' new_tinypb"
  have d: "dispatch_all d (map received [req]) w = Inr ([?r], w)"
    using parse_name_dot [OF assms(4), of n] assms(3,5) by (simp add: dispatch_def)
  have r: "sendable [?r]"
    by (simp add: sendable_def total_len_def wf_msg_def cstr_ok_def setTinyPBError_def new_tinypb_def
        frame_len_def with_msg_id_def default_msg_id_def error_codes)
  from answer_encoded [OF assms(1,2) d r] show ?thesis
    by (auto simp: setTinyPBError_def new_tinypb_def)
qed

theorem error_reply_loses_id_witness:
  "\<exists>ms' bytes out r. encode [order_request] = Inr (ms', bytes) \<and>
     answer ([] :: (string, nat) dispatcher) bytes 0 = Some (Inr (out, 0)) \<and>
     decode out = Some (Inr [r]) \<and> m_msg_id r = ''123456789'' \<and> m_msg_id order_request = ''9912312998888''"
proof -
  have s: "sendable [order_request]"
    by (simp add: sendable_def total_len_def sample_simps)
  obtain ms' bytes where e: "encode [order_request] = Inr (ms', bytes)"
    using encode_sendable [OF s] by blast
  have n: "m_method_name order_request = ''Order'' @ CHR ''.'' # ''makeOrder''" by (simp add: sample_simps)
  have f: "CHR ''.'' \<notin> set ''Order''" "smap_find ''Order'' ([] :: (string, nat) dispatcher) = None"
    by (simp_all add: smap_find_def)
  from error_reply_loses_id [OF s e n f, of 0] e show ?thesis
    by (auto simp: default_msg_id_def sample_simps)
qed



text \<open>The nodes \<open>Start\<close> asks for, as a list.\<close>

definition service_node :: "string \<Rightarrow> string \<times> string option \<times> bool" where
  "service_node s = (''/'' @ s, None, False)"

definition node_path :: "string \<Rightarrow> string \<Rightarrow> string" where
  "node_path s m = ''/'' @ s @ ''/'' @ m"

definition service_nodes :: "string \<Rightarrow> string \<Rightarrow> ('m, 'w) rpc_method list \<Rightarrow> (string \<times> string option \<times> bool) list" where
  "service_nodes host s ms = concat (map (\<lambda>m. [service_node s, (node_path s (md_name m), Some host, True)]) ms)"

definition all_nodes :: "string \<Rightarrow> ('m, 'w) dispatcher \<Rightarrow> (string \<times> string option \<times> bool) list" where
  "all_nodes host d = concat (map (\<lambda>(s, service). service_nodes host s (sd_methods service)) d)"

lemma start_methods_nodes:
  assumes "host_data ip port = Inr host"
  shows "start_methods zk others ip port s ms z = create_all zk others (service_nodes host s ms) z"
proof (induction ms arbitrary: z)
  case (Cons m ms)
  have n: "service_nodes host s (m # ms) =
      service_node s # (node_path s (md_name m), Some host, True) # service_nodes host s ms"
    by (simp add: service_nodes_def)
  show ?case
    unfolding start_methods.simps n service_node_def create_all.simps Let_def assms bind_res.simps
    by (intro bind_res_cong ext) (simp_all add: Cons.IH node_path_def cong: bind_res_cong)
qed (simp add: service_nodes_def)

lemma Start_all_nodes:
  assumes "host_data ip port = Inr host"
  shows "Start zk others ip port d z = create_all zk others (all_nodes host d) z"
proof (induction d arbitrary: z)
  case (Cons x d)
  obtain s v where x: "x = (s, v)" by (cases x)
  have "all_nodes host (x # d) = service_nodes host s (sd_methods v) @ all_nodes host d"
    by (simp add: all_nodes_def x)
  with Cons.IH show ?case
    by (simp add: x create_all_append start_methods_nodes [OF assms] cong: bind_res_cong)
qed (simp add: all_nodes_def)

text \<open>Names as protobuf has them: not empty and without a slash.\<close>

definition name_ok :: "string \<Rightarrow> bool" where
  "name_ok s \<longleftrightarrow> s \<noteq> [] \<and> CHR ''/'' \<notin> set s"

definition names_ok :: "('m, 'w) dispatcher \<Rightarrow> bool" where
  "names_ok d \<longleftrightarrow> (\<forall>(s, service) \<in> set d. name_ok s \<and> (\<forall>m \<in> set (sd_methods service). name_ok (md_name m)))"

lemma parent_service: "name_ok s \<Longrightarrow> parent_in P (CHR ''/'' # s)"
  unfolding parent_in_def name_ok_def by (intro exI [of _ "[]"] exI [of _ s]) simp

lemma parent_method: "name_ok m \<Longrightarrow> CHR ''/'' # s \<in> P \<Longrightarrow> parent_in P (node_path s m)"
  unfolding parent_in_def name_ok_def node_path_def
  by (intro exI [of _ "''/'' @ s"] exI [of _ m]) simp

lemma parents_ok_append: "parents_ok P ns \<Longrightarrow> parents_ok P ms \<Longrightarrow> parents_ok P (ns @ ms)"
proof (induction ns arbitrary: P)
  case (Cons n ns)
  obtain p d e where "n = (p, d, e)" by (cases n)
  with Cons parents_ok_mono [of P ms "insert p P"] show ?case by auto
qed simp

lemma parents_ok_service:
  "name_ok s \<Longrightarrow> \<forall>m \<in> set ms. name_ok (md_name m) \<Longrightarrow> parents_ok P (service_nodes host s ms)"
proof (induction ms)
  case (Cons m ms)
  have "parents_ok P ([service_node s, (node_path s (md_name m), Some host, True)] @ service_nodes host s ms)"
    using Cons by (intro parents_ok_append)
      (auto simp: service_node_def intro: parent_service parent_method)
  then show ?case by (simp add: service_nodes_def)
qed (simp add: service_nodes_def)

lemma parents_ok_all: "names_ok d \<Longrightarrow> parents_ok P (all_nodes host d)"
proof (induction d)
  case (Cons x d)
  obtain s v where x: "x = (s, v)" by (cases x)
  have "parents_ok P (service_nodes host s (sd_methods v))" "parents_ok P (all_nodes host d)"
    using Cons by (auto simp: x names_ok_def intro: parents_ok_service)
  then show ?case using parents_ok_append by (simp add: all_nodes_def x)
qed (simp add: all_nodes_def)

lemma nodes_mem:
  "x \<in> set (concat (map (\<lambda>(s, v). concat (map (\<lambda>m. [f s, g s m]) (h v))) d)) \<longleftrightarrow>
     (\<exists>s v m. (s, v) \<in> set d \<and> m \<in> set (h v) \<and> (x = f s \<or> x = g s m))"
proof (induction d)
  case (Cons a d)
  have "x \<in> set (concat (map (\<lambda>m. [f s, g s m]) ms)) \<longleftrightarrow> (\<exists>m \<in> set ms. x = f s \<or> x = g s m)" for s ms
    by (induction ms) auto
  with Cons.IH show ?case by (cases a) (simp only: list.simps concat.simps set_append Un_iff
        split_conv, blast)
qed simp

lemma all_nodes_mem:
  "n \<in> set (all_nodes host d) \<longleftrightarrow> (\<exists>s v m. (s, v) \<in> set d \<and> m \<in> set (sd_methods v) \<and>
     (n = service_node s \<or> n = (node_path s (md_name m), Some host, True)))"
  unfolding all_nodes_def service_nodes_def by (rule nodes_mem)

lemma node_path_not_service: "name_ok s \<Longrightarrow> node_path s' m \<noteq> ''/'' @ s"
  by (auto simp: node_path_def name_ok_def)

lemma method_data:
  assumes "names_ok d" "(s, v) \<in> set d" "m \<in> set (sd_methods v)"
  shows "map_of (map node_data (all_nodes host d)) (node_path s (md_name m)) = Some (Some host)"
proof -
  let ?ns = "map node_data (all_nodes host d)" and ?p = "node_path s (md_name m)"
  have "(?p, Some host, True) \<in> set (all_nodes host d)"
    using assms(2,3) by (auto simp: all_nodes_mem)
  then have "(?p, Some host) \<in> set ?ns"
    by (force simp: node_data_def)
  then obtain x where x: "map_of ?ns ?p = Some x" by (metis weak_map_of_SomeI)
  then have "(?p, x) \<in> set ?ns" by (rule map_of_SomeD)
  then obtain n where n: "n \<in> set (all_nodes host d)" "(?p, x) = node_data n" by auto
  then obtain s' v' m' where "(s', v') \<in> set d" "m' \<in> set (sd_methods v')"
    "n = service_node s' \<or> n = (node_path s' (md_name m'), Some host, True)"
    unfolding all_nodes_mem by blast
  moreover have "name_ok s'" using assms(1) calculation(1) by (auto simp: names_ok_def)
  ultimately have "x = Some host"
    using n(2) node_path_not_service [of s'] by (auto simp: node_data_def service_node_def)
  with x show ?thesis by simp
qed

lemma Start_host_too_long:
  assumes "host_data ip port = Inl f" "zk_spec zk tree" "name_ok s" "sd_methods v \<noteq> []"
  shows "Start zk (\<lambda>z. z) ip port ((s, v) # d) z = Inl f"
proof -
  obtain m ms where m: "sd_methods v = m # ms" using assms(4) by (cases "sd_methods v") auto
  obtain z1 where "zk_Create zk (\<lambda>z. z) (''/'' @ s) None False z = Inr z1"
    using zk_Create_alone [OF assms(2), of z "''/'' @ s" None False] parent_service [OF assms(3)] by auto
  then show ?thesis by (simp add: m assms(1) Let_def)
qed

lemma Start_ok:
  assumes "zk_spec zk tree" "names_ok d" "length ip + 1 + length (dec_str port) < 128"
  shows "\<exists>z'. Start zk (\<lambda>z. z) ip port d z = Inr z' \<and>
    (\<forall>(s, service) \<in> set d. \<forall>m \<in> set (sd_methods service).
       tree z' (node_path s (md_name m)) =
         (case tree z (node_path s (md_name m)) of
            None \<Rightarrow> Some (Some (ip @ '':'' @ dec_str port)) | Some x \<Rightarrow> Some x)) \<and>
    (\<forall>p. p \<notin> fst ` set (all_nodes (ip @ '':'' @ dec_str port) d) \<longrightarrow> tree z' p = tree z p)"
proof -
  let ?host = "ip @ '':'' @ dec_str port" and ?ns = "map node_data (all_nodes (ip @ '':'' @ dec_str port) d)"
  have h: "host_data ip port = Inr ?host" using assms(3) by (simp add: host_data_def Let_def)
  obtain z' where z': "Start zk (\<lambda>z. z) ip port d z = Inr z'" "tree z' = map_of ?ns ++ tree z"
    using create_all_alone [OF assms(1) parents_ok_all [OF assms(2)]] Start_all_nodes [OF h] by metis
  have "map_of ?ns p = None" if "p \<notin> fst ` set (all_nodes ?host d)" for p
    using that by (auto simp: map_of_eq_None_iff node_data_def image_iff)
  then show ?thesis
    using z' method_data [OF assms(2)]
    by (intro exI [of _ z']) (auto simp: map_add_def split: option.split)
qed

text \<open>
  C33. What \<open>Start\<close> leaves in ZooKeeper when no other client interferes: below the node of each
  registered service the node of each method holds \<open>ip:port\<close>, unless a node of that path was there
  before, which is kept with its old data; no other node is touched. With an address of more than
  127 characters the first method overruns a local array.
\<close>

theorem start_publishes:
  assumes "zk_spec zk tree" "names_ok d"
  shows "if length ip + 1 + length (dec_str port) < 128 then
      \<exists>z'. Start zk (\<lambda>z. z) ip port d z = Inr z' \<and>
        (\<forall>(s, service) \<in> set d. \<forall>m \<in> set (sd_methods service).
           tree z' (node_path s (md_name m)) =
             (case tree z (node_path s (md_name m)) of
                None \<Rightarrow> Some (Some (ip @ '':'' @ dec_str port)) | Some x \<Rightarrow> Some x)) \<and>
        (\<forall>p. p \<notin> fst ` set (all_nodes (ip @ '':'' @ dec_str port) d) \<longrightarrow> tree z' p = tree z p)
    else case d of (s, v) # _ \<Rightarrow> sd_methods v \<noteq> [] \<longrightarrow> Start zk (\<lambda>z. z) ip port d z = Inl BadWrite
      | [] \<Rightarrow> Start zk (\<lambda>z. z) ip port d z = Inr z"
proof (cases "length ip + 1 + length (dec_str port) < 128")
  case True
  from Start_ok [OF assms True] show ?thesis unfolding if_P [OF True] .
next
  case False
  then have h: "host_data ip port = Inl BadWrite" by (simp add: host_data_def Let_def)
  show ?thesis
    unfolding if_not_P [OF False] using assms Start_host_too_long [OF h assms(1)]
    by (cases d) (auto simp: names_ok_def simp del: Start.simps(2))
qed

theorem start_publishes_witness:
  "\<exists>z'. Start map_zk (\<lambda>z. z) ''127.0.0.1'' 5000 (registerService order_service []) (\<lambda>_. None) = Inr z' \<and>
     z' ''/Order/makeOrder'' = Some (Some ''127.0.0.1:5000'')"
proof -
  have d: "registerService order_service [] = [(''Order'', order_service)]"
    by (simp add: registerService_def order_service_def)
  have m: "sd_methods order_service = [order_method]" "md_name order_method = ''makeOrder''"
    by (simp_all add: order_service_def order_method_def)
  have p: "dec_str 5000 = ''5000''"
    by (simp add: dec_str.simps digit_eqI [of "CHR ''5''"] digit_eqI [of "CHR ''0''"])
  have n: "names_ok (registerService order_service [])"
    by (simp add: d m names_ok_def name_ok_def)
  have "length ''127.0.0.1'' + 1 + length (dec_str 5000) < 128" by (simp add: p)
  from start_publishes [OF map_zk_spec n, of "''127.0.0.1''" 5000, unfolded if_P [OF this], of "\<lambda>_. None"] show ?thesis
    by (auto simp: d m p node_path_def)
qed

end
