(* ===== verification/MsgId.thy ===== *)
theory MsgId
  imports Prelude
begin

text \<open>
  \<open>src/common/msg_id_util\<close>: request ids, twenty random digits counted up from call to call. The
  two strings are the thread's own; the bytes of \<open>/dev/urandom\<close> are an argument, \<^const>\<open>None\<close>
  for a read that does not deliver twenty bytes.
\<close>

section \<open>State and operation\<close>

record msg_id_state =
  t_msg_id_no :: string
  t_max_msg_id_no :: string

definition new_msg_id_state :: msg_id_state where
  "new_msg_id_state = \<lparr>t_msg_id_no = [], t_max_msg_id_no = []\<rparr>"

definition g_msg_id_length :: nat where "g_msg_id_length = 20"

definition random_digit :: "char \<Rightarrow> char" where
  "random_digit c = digit (of_char c mod 10)"

text \<open>
  \<open>while (t_msg_id_no[i] == '9' \<and> i >= 0) i--\<close> with an unsigned \<open>i\<close>: \<^const>\<open>None\<close> when it runs below
  zero, where the next read is outside the string.
\<close>

fun skip_nines :: "string \<Rightarrow> nat \<Rightarrow> nat option" where
  "skip_nines s 0 = (if s ! 0 = CHR ''9'' then None else Some 0)"
| "skip_nines s (Suc i) = (if s ! Suc i = CHR ''9'' then skip_nines s i else Some (Suc i))"

text \<open>\<open>t_msg_id_no[i] += 1\<close>, then zeros behind it.\<close>

definition next_id :: "string \<Rightarrow> string res" where
  "next_id s =
     (case skip_nines s (length s - 1) of
        None \<Rightarrow> Inl BadRead
      | Some i \<Rightarrow> Inr (take i s @ [char_of ((of_char (s ! i) :: nat) + 1)] @
          replicate (length s - i - 1) (CHR ''0'')))"

definition GenMsgID :: "string option \<Rightarrow> msg_id_state \<Rightarrow> (string \<times> msg_id_state) res" where
  "GenMsgID urandom st =
     (if t_msg_id_no st = [] \<or> t_msg_id_no st = t_max_msg_id_no st then
        (case urandom of
           None \<Rightarrow> Inr ([], st)
         | Some bytes \<Rightarrow>
             let res = map random_digit (take g_msg_id_length bytes);
                 st' = \<lparr>t_msg_id_no = res,
                        t_max_msg_id_no = t_max_msg_id_no st @ replicate g_msg_id_length (CHR ''9'')\<rparr>
             in Inr (res, st'))
      else bind_res (next_id (t_msg_id_no st)) (\<lambda>s. Inr (s, st\<lparr>t_msg_id_no := s\<rparr>)))"

section \<open>Counting\<close>

definition all_digits :: "string \<Rightarrow> bool" where
  "all_digits s \<longleftrightarrow> list_all is_digit s"

lemma is_digit_iff: "is_digit c \<longleftrightarrow> (\<exists>k < 10. c = digit k)"
proof
  assume d: "is_digit c"
  define k where "k = (of_char c :: nat) - 48"
  have "(of_char c :: nat) = 48 + k" "k < 10" using d by (auto simp: is_digit_def k_def)
  then have "c = digit k \<and> k < 10"
    by (metis digit_def char_of_char)
  then show "\<exists>k < 10. c = digit k" by blast
qed (auto simp: digit_props)

lemma digit_9: "digit 9 = CHR ''9''"
proof -
  have "(of_char (digit 9) :: nat) = of_char (CHR ''9'')" by (simp add: of_char_digit)
  then show ?thesis by (simp only: of_char_eq_iff)
qed

lemma digits_val_append: "digits_val (s @ t) = digits_val s * 10 ^ length t + digits_val t"
proof (induction t rule: rev_induct)
  case Nil
  then show ?case by (simp add: digits_val_def)
next
  case (snoc c t)
  then show ?case
    by (simp only: append_assoc [symmetric] digits_val_snoc) (simp add: algebra_simps)
qed

lemma digits_val_single: "k < 10 \<Longrightarrow> digits_val [digit k] = k"
  by (simp add: digits_val_def of_char_digit)

lemma digits_val_nines: "digits_val (replicate n (CHR ''9'')) + 1 = 10 ^ n"
proof (induction n)
  case (Suc n)
  have "replicate (Suc n) (CHR ''9'') = replicate n (CHR ''9'') @ [CHR ''9'']"
    by (simp add: replicate_append_same)
  then have "digits_val (replicate (Suc n) (CHR ''9'')) = 10 * digits_val (replicate n (CHR ''9'')) + 9"
    by (simp add: digits_val_snoc)
  with Suc show ?case by simp
qed (simp add: digits_val_def)

lemma digits_val_zeros: "digits_val (replicate n (CHR ''0'')) = 0"
proof (induction n)
  case (Suc n)
  have "replicate (Suc n) (CHR ''0'') = replicate n (CHR ''0'') @ [CHR ''0'']"
    by (simp add: replicate_append_same)
  with Suc show ?case by (simp add: digits_val_snoc)
qed (simp add: digits_val_def)

lemma digits_val_bound: "all_digits s \<Longrightarrow> digits_val s < 10 ^ length s"
proof (induction s rule: rev_induct)
  case Nil
  then show ?case by (simp add: digits_val_def)
next
  case (snoc c s)
  then have "is_digit c" "digits_val s < 10 ^ length s" by (simp_all add: all_digits_def)
  then obtain k where "k < 10" "c = digit k" by (auto simp: is_digit_iff)
  with \<open>digits_val s < 10 ^ length s\<close> show ?case
    by (simp add: digits_val_snoc of_char_digit)
qed

lemma skip_nines_Some:
  "skip_nines s i = Some j \<Longrightarrow> i < length s \<Longrightarrow> j \<le> i \<and> s ! j \<noteq> CHR ''9'' \<and> (\<forall>k. j < k \<and> k \<le> i \<longrightarrow> s ! k = CHR ''9'')"
  by (induction s i rule: skip_nines.induct) (auto simp: le_Suc_eq split: if_splits)

lemma skip_nines_None: "skip_nines s i = None \<longleftrightarrow> (\<forall>k \<le> i. s ! k = CHR ''9'')"
  by (induction s i rule: skip_nines.induct) (auto simp: le_Suc_eq)

lemma next_id_value:
  assumes "all_digits s" "s \<noteq> []" "digits_val s + 1 < 10 ^ length s"
  shows "\<exists>s'. next_id s = Inr s' \<and> all_digits s' \<and> length s' = length s \<and> digits_val s' = digits_val s + 1"
proof -
  let ?n = "length s"
  have n: "?n - 1 < ?n" using assms(2) by simp
  obtain i where i: "skip_nines s (?n - 1) = Some i"
  proof (cases "skip_nines s (?n - 1)")
    case None
    then have "s = replicate ?n (CHR ''9'')"
      by (intro nth_equalityI) (auto simp: skip_nines_None)
    then have "digits_val s + 1 = 10 ^ ?n" using digits_val_nines by metis
    then show ?thesis using assms(3) by simp
  qed
  from skip_nines_Some [OF i n] have j: "i < ?n" "s ! i \<noteq> CHR ''9''"
    and nines: "\<forall>k. i < k \<and> k < ?n \<longrightarrow> s ! k = CHR ''9''" using n by auto
  let ?m = "?n - i - 1"
  have "drop (Suc i) s = replicate ?m (CHR ''9'')"
    by (rule nth_equalityI) (use nines j in auto)
  then have s: "s = take i s @ [s ! i] @ replicate ?m (CHR ''9'')"
    using id_take_nth_drop [OF j(1)] by simp
  have "is_digit (s ! i)" using assms(1) j(1) by (simp add: all_digits_def list_all_length)
  then obtain k where k: "k < 10" "s ! i = digit k" by (auto simp: is_digit_iff)
  have "k \<noteq> 9" using j(2) k by (auto simp: digit_9)
  then have k9: "k + 1 < 10" using k by simp
  have c: "char_of ((of_char (s ! i) :: nat) + 1) = digit (k + 1)"
    by (simp add: k of_char_digit) (simp add: digit_def)
  let ?s = "take i s @ [digit (k + 1)] @ replicate ?m (CHR ''0'')"
  have e: "next_id s = Inr ?s" by (simp only: next_id_def i option.case c)
  have v: "digits_val s = (digits_val (take i s) * 10 + k) * 10 ^ ?m + digits_val (replicate ?m (CHR ''9''))"
    by (subst s) (simp only: append_assoc [symmetric] digits_val_append [of _ "replicate _ _"],
      simp add: digits_val_snoc k of_char_digit)
  have v': "digits_val ?s = (digits_val (take i s) * 10 + (k + 1)) * 10 ^ ?m"
    by (simp only: append_assoc [symmetric] digits_val_append [of _ "replicate _ _"] digits_val_zeros,
      use of_char_digit [of "Suc k"] k9 in \<open>simp add: digits_val_snoc algebra_simps\<close>)
  have "digits_val ?s = digits_val s + 1"
    unfolding v v' using digits_val_nines [of ?m] by (simp add: algebra_simps)
  moreover have "all_digits ?s"
    using assms(1) digit_props(1) [OF k9]
    by (auto simp: all_digits_def list_all_iff digit_props is_digit_def dest: in_set_takeD)
  moreover have "length ?s = ?n" using j by simp
  ultimately show ?thesis using e by blast
qed

section \<open>Properties\<close>

text \<open>The ids of \<open>n\<close> calls on one thread.\<close>

fun gen_ids :: "nat \<Rightarrow> msg_id_state \<Rightarrow> (string list \<times> msg_id_state) res" where
  "gen_ids 0 st = Inr ([], st)"
| "gen_ids (Suc n) st =
     bind_res (GenMsgID None st) (\<lambda>(i, st1).
     bind_res (gen_ids n st1) (\<lambda>(is, st2). Inr (i # is, st2)))"

lemma GenMsgID_step:
  assumes "all_digits (t_msg_id_no st)" "length (t_msg_id_no st) = 20" "t_max_msg_id_no st = replicate m (CHR ''9'')"
    and "digits_val (t_msg_id_no st) + 1 < 10 ^ 20"
  shows "\<exists>s. GenMsgID r st = Inr (s, st\<lparr>t_msg_id_no := s\<rparr>) \<and> all_digits s \<and> length s = 20 \<and>
    digits_val s = digits_val (t_msg_id_no st) + 1"
proof -
  have ne: "t_msg_id_no st \<noteq> []" using assms(2) by auto
  have "t_msg_id_no st \<noteq> t_max_msg_id_no st"
  proof
    assume e: "t_msg_id_no st = t_max_msg_id_no st"
    then have "m = 20" using assms(2,3) by simp
    then have "digits_val (t_msg_id_no st) + 1 = 10 ^ 20"
      using e assms(3) digits_val_nines [of 20] by simp
    then show False using assms(4) by simp
  qed
  with next_id_value [OF assms(1) ne] assms(2,4) ne show ?thesis
    by (auto simp: GenMsgID_def)
qed

text \<open>
  Ids count: from a state with a current id of twenty digits, \<open>n\<close> calls return the \<open>n\<close> decimal
  successors of it, each of twenty digits, as long as they exist; so the ids of a thread are
  pairwise distinct until the twenty digits run out.
\<close>

theorem msg_ids_count_up:
  assumes "all_digits (t_msg_id_no st)" "length (t_msg_id_no st) = 20" "t_max_msg_id_no st = replicate m (CHR ''9'')"
    and "digits_val (t_msg_id_no st) + n < 10 ^ 20"
  shows "\<exists>is st'. gen_ids n st = Inr (is, st') \<and> distinct is \<and> list_all (\<lambda>i. all_digits i \<and> length i = 20) is \<and>
    map digits_val is = map (\<lambda>k. digits_val (t_msg_id_no st) + k) [1..<Suc n]"
proof -
  have "\<exists>is st'. gen_ids n st = Inr (is, st') \<and> list_all (\<lambda>i. all_digits i \<and> length i = 20) is \<and>
    map digits_val is = map (\<lambda>k. digits_val (t_msg_id_no st) + k) [1..<Suc n]"
    using assms
  proof (induction n arbitrary: st)
    case (Suc n)
    obtain s where s: "GenMsgID None st = Inr (s, st\<lparr>t_msg_id_no := s\<rparr>)" "all_digits s" "length s = 20"
      "digits_val s = digits_val (t_msg_id_no st) + 1"
      using GenMsgID_step [OF Suc.prems(1-3)] Suc.prems(4) by fastforce
    let ?st = "st\<lparr>t_msg_id_no := s\<rparr>"
    obtain "is" st' where i: "gen_ids n ?st = Inr (is, st')" "list_all (\<lambda>i. all_digits i \<and> length i = 20) is"
      "map digits_val is = map (\<lambda>k. digits_val s + k) [1..<Suc n]"
      using Suc.IH [of ?st] s Suc.prems(3,4) by auto
    have "map (\<lambda>k. digits_val (t_msg_id_no st) + k) [1..<Suc (Suc n)] =
        (digits_val (t_msg_id_no st) + 1) # map (\<lambda>k. digits_val s + k) [1..<Suc n]"
    proof -
      have "[1..<Suc (Suc n)] = 1 # map Suc [1..<Suc n]"
        by (simp add: map_Suc_upt upt_conv_Cons del: upt_Suc)
      then show ?thesis by (simp only: list.simps(9) map_map comp_def s(4) add.assoc plus_1_eq_Suc)
    qed
    with s i show ?case by (auto simp del: upt_Suc)
  qed simp
  then obtain "is" st' where i: "gen_ids n st = Inr (is, st')" "list_all (\<lambda>i. all_digits i \<and> length i = 20) is"
    "map digits_val is = map (\<lambda>k. digits_val (t_msg_id_no st) + k) [1..<Suc n]"
    by blast
  have "distinct (map digits_val is)"
    unfolding i(3) by (simp add: distinct_map inj_on_def del: upt_Suc)
  then have "distinct is" by (simp add: distinct_map)
  with i show ?thesis by blast
qed

definition sample_ids :: msg_id_state where
  "sample_ids = \<lparr>t_msg_id_no = replicate 18 (CHR ''0'') @ ''19'', t_max_msg_id_no = replicate 20 (CHR ''9'')\<rparr>"

theorem msg_ids_count_up_witness:
  "\<exists>is st'. gen_ids 2 sample_ids = Inr (is, st') \<and> distinct is \<and> map digits_val is = [20, 21]"
proof -
  have "all_digits (t_msg_id_no sample_ids)" "length (t_msg_id_no sample_ids) = 20"
    "t_max_msg_id_no sample_ids = replicate 20 (CHR ''9'')"
    by (simp_all add: sample_ids_def all_digits_def is_digit_def list_all_iff)
  moreover have v: "digits_val (t_msg_id_no sample_ids) = 19" by code_simp
  ultimately show ?thesis
    using msg_ids_count_up [of sample_ids 20 2] by (auto simp: v upt_conv_Cons)
qed

text \<open>
  The ids run out only once: a regeneration appends twenty nines to the bound instead of
  replacing it, so after the second one the current id can never equal it again, and the call on an
  id of twenty nines reads outside the string.
\<close>

theorem msg_id_second_wrap_faults:
  assumes "t_msg_id_no st = [] \<or> t_msg_id_no st = t_max_msg_id_no st"
    "t_max_msg_id_no st = replicate (20 * k) (CHR ''9'')" "0 < k"
    "GenMsgID (Some bytes) st = Inr (i, st1)" "length bytes = 20"
  shows "t_max_msg_id_no st1 = replicate (20 * Suc k) (CHR ''9'') \<and> length i = 20 \<and>
    GenMsgID r (st1\<lparr>t_msg_id_no := replicate 20 (CHR ''9'')\<rparr>) = Inl BadRead"
proof -
  have st1: "t_max_msg_id_no st1 = replicate (20 * k + 20) (CHR ''9'')" "length i = 20"
    using assms by (auto simp: GenMsgID_def g_msg_id_length_def Let_def replicate_add)
  have "next_id (replicate 20 (CHR ''9'')) = Inl BadRead"
  proof -
    have "skip_nines (replicate 20 (CHR ''9'')) (length (replicate 20 (CHR ''9'')) - 1) = None"
      unfolding skip_nines_None by auto
    then show ?thesis by (simp only: next_id_def option.case)
  qed
  moreover have "replicate 20 (CHR ''9'') \<noteq> replicate (20 * k + 20) (CHR ''9'')"
    using assms(3) by (metis add_cancel_left_left length_replicate mult_is_0 nat_less_le zero_neq_numeral)
  ultimately have "GenMsgID r (st1\<lparr>t_msg_id_no := replicate 20 (CHR ''9'')\<rparr>) = Inl BadRead"
    by (simp add: GenMsgID_def st1(1))
  with st1 show ?thesis by (simp add: add.commute)
qed

theorem msg_id_second_wrap_faults_witness:
  "\<exists>i st1. GenMsgID (Some (replicate 20 (CHR ''a'')))
      \<lparr>t_msg_id_no = replicate 20 (CHR ''9''), t_max_msg_id_no = replicate 20 (CHR ''9'')\<rparr> = Inr (i, st1) \<and>
     GenMsgID None (st1\<lparr>t_msg_id_no := replicate 20 (CHR ''9'')\<rparr>) = Inl BadRead"
proof -
  let ?st = "\<lparr>t_msg_id_no = replicate 20 (CHR ''9''), t_max_msg_id_no = replicate 20 (CHR ''9'')\<rparr>"
  obtain i st1 where g: "GenMsgID (Some (replicate 20 (CHR ''a''))) ?st = Inr (i, st1)"
    by (simp add: GenMsgID_def Let_def)
  from msg_id_second_wrap_faults [OF _ _ _ g, of 1] g show ?thesis by auto
qed

end
