(* ===== verification/RpcChannel.thy ===== *)
theory RpcChannel
  imports RpcServer MsgId
begin

text \<open>
  \<open>src/server/Rpc/rpc_channel\<close>, the client: \<open>CallMethod\<close> with all its early returns, and the
  part of \<open>src/common/zookeeperutil\<close> it uses to find the server. ZooKeeper, the socket and the
  protobuf messages are arguments: what \<open>zoo_get\<close> stores, the results of \<open>connect\<close>, \<open>send\<close> and
  \<open>recv\<close>, and the serialiser and parser of the request and response types.
\<close>

section \<open>Finding the server\<close>

text \<open>The split of \<open>ip:port\<close>: \<^const>\<open>None\<close> without a colon; the port is converted to 16 bits.\<close>

definition parse_host :: "string \<Rightarrow> (string \<times> int) option res" where
  "parse_host h =
     (case find_first_of (CHR '':'') h of
        None \<Rightarrow> Inr None
      | Some idx \<Rightarrow>
          bind_res (atoi (take (length h - idx) (drop (idx + 1) h))) (\<lambda>p.
          Inr (Some (take idx h, p mod 2 ^ 16))))"

section \<open>The channel\<close>

record rpc_channel =
  ch_ip :: string
  ch_port :: int
  ch_init :: bool
  ch_connected :: bool
  ch_sock_open :: bool

definition new_rpc_channel :: "string \<Rightarrow> int \<Rightarrow> rpc_channel" where
  "new_rpc_channel ip port =
     \<lparr>ch_ip = ip, ch_port = port, ch_init = False, ch_connected = False, ch_sock_open = True\<rparr>"

definition Init :: "rpc_channel \<Rightarrow> rpc_channel" where
  "Init c = (if ch_init c then c else c\<lparr>ch_init := True\<rparr>)"

text \<open>
  The loop from \<open>ConnectionErrorGoTo\<close> to the end of \<open>send\<close>: each element says whether \<open>connect\<close>
  succeeds (not asked when connected) and whether \<open>send\<close> then fails with ENOTCONN. \<^const>\<open>None\<close>: the
  list is used up and the code still tries. The result says whether the request was sent.
\<close>

fun connect_send :: "(bool \<times> bool) list \<Rightarrow> rpc_channel \<Rightarrow> (bool \<times> rpc_channel) option" where
  "connect_send [] c = None"
| "connect_send ((connects, notconn) # as) c =
     (if \<not> ch_connected c \<and> \<not> connects then Some (False, c\<lparr>ch_sock_open := False\<rparr>)
      else if notconn then connect_send as (c\<lparr>ch_connected := False\<rparr>)
      else Some (True, c\<lparr>ch_connected := True\<rparr>))"

record method_descriptor =
  mth_full_name :: string
  mth_service_name :: string
  mth_name :: string

text \<open>What the call gets from outside.\<close>

record 'm call_env =
  ce_urandom :: "string option"
  ce_node :: "string \<Rightarrow> string option"
  ce_junk :: string
  ce_pton :: "string \<Rightarrow> bool"
  ce_attempts :: "(bool \<times> bool) list"
  ce_recv :: "string option"
  ce_serialize :: "string option"
  ce_parse :: "string \<Rightarrow> 'm option"

record 'm call_result =
  cr_controller :: "rpc_controller option"
  cr_channel :: rpc_channel
  cr_ids :: msg_id_state
  cr_sent :: "string option"
  cr_response :: "'m option"

text \<open>
  \<open>CallMethod\<close> after the request is serialised: look up, connect, send, receive, decode, parse.
  The outer \<^const>\<open>None\<close> is a call that does not return (the connect loop, or the decoder).
\<close>

definition exchange_call :: "'m call_env \<Rightarrow> string \<Rightarrow> string \<Rightarrow> 'm call_result \<Rightarrow> 'm call_result res option" where
  "exchange_call env method_path out_buf r =
     (let fail = (\<lambda>why. Some (Inr (r\<lparr>cr_controller := map_option (SetFailed (method_path @ why)) (cr_controller r)\<rparr>))) in
      case GetData (ce_junk env) (ce_node env method_path) of
        Inl f \<Rightarrow> Some (Inl f)
      | Inr host \<Rightarrow>
      if host = [] then fail '' is not exist!''
      else case parse_host host of
        Inl f \<Rightarrow> Some (Inl f)
      | Inr None \<Rightarrow> fail '' address is invalid!''
      | Inr (Some (ip, port)) \<Rightarrow>
      if \<not> ce_pton env ip then Some (Inl Exit)
      else case connect_send (ce_attempts env) ((cr_channel r)\<lparr>ch_ip := ip, ch_port := port\<rparr>) of
        None \<Rightarrow> None
      | Some (False, c) \<Rightarrow> Some (Inr (r\<lparr>cr_channel := c\<rparr>))
      | Some (True, c) \<Rightarrow>
      let r1 = r\<lparr>cr_channel := c, cr_sent := Some out_buf\<rparr> in
      case ce_recv env of
        None \<Rightarrow> Some (Inl LengthError)
      | Some buf \<Rightarrow>
      map_option (\<lambda>d. bind_res d (\<lambda>out_messages.
        case out_messages of
          [m] \<Rightarrow> Inr (r1\<lparr>cr_response := ce_parse env (m_pb_data m)\<rparr>)
        | _ \<Rightarrow> Inr r1))
      (decode (take 1024 buf)))"

definition CallMethod :: "'m call_env \<Rightarrow> method_descriptor \<Rightarrow> rpc_controller option \<Rightarrow> rpc_channel \<Rightarrow>
    msg_id_state \<Rightarrow> 'm call_result res option" where
  "CallMethod env mth controller cnl ids =
     (case controller of
        None \<Rightarrow> Some (Inr \<lparr>cr_controller = None, cr_channel = cnl, cr_ids = ids, cr_sent = None, cr_response = None\<rparr>)
      | Some ctrl \<Rightarrow>
      case (if GetMsgId ctrl = [] then GenMsgID (ce_urandom env) ids else Inr (GetMsgId ctrl, ids)) of
        Inl f \<Rightarrow> Some (Inl f)
      | Inr (msg_id, ids1) \<Rightarrow>
      let ctrl1 = (if GetMsgId ctrl = [] then SetMsgId msg_id ctrl else ctrl);
          r = \<lparr>cr_controller = Some ctrl1, cr_channel = cnl, cr_ids = ids1, cr_sent = None, cr_response = None\<rparr> in
      if \<not> ch_init cnl then
        Some (Inr (r\<lparr>cr_controller := Some (SetError ERROR_RPC_CHANNEL_INIT ''RpcChannel not init'' ctrl1)\<rparr>))
      else case ce_serialize env of
        None \<Rightarrow> Some (Inr (r\<lparr>cr_controller := Some (SetError ERROR_FAILED_SERIALIZE ''failed to serialize'' ctrl1)\<rparr>))
      | Some data \<Rightarrow>
      case encode [new_tinypb\<lparr>m_msg_id := msg_id, m_method_name := mth_full_name mth, m_pb_data := data\<rparr>] of
        Inl f \<Rightarrow> Some (Inl f)
      | Inr (_, out_buf) \<Rightarrow>
          exchange_call env (''/'' @ mth_service_name mth @ ''/'' @ mth_name mth) out_buf r)"

section \<open>Laws\<close>

lemma parse_host_split:
  assumes "CHR '':'' \<notin> set ip"
  shows "parse_host (ip @ CHR '':'' # p) = bind_res (atoi p) (\<lambda>n. Inr (Some (ip, n mod 2 ^ 16)))"
  using assms by (simp add: parse_host_def find_first_of_split)

lemma dec_str_NUL: "NUL \<notin> set (dec_str n)"
  using dec_str_digits [of n] digit_props(6) by metis

text \<open>The part of a call behind the look-up, once the request is on the wire.\<close>

lemma exchange_call_sent:
  assumes "GetData (ce_junk env) (ce_node env path) = Inr host" "host \<noteq> []"
    "parse_host host = Inr (Some (ip, port))" "ce_pton env ip" "cr_channel r = cnl"
    "connect_send (ce_attempts env) (cnl\<lparr>ch_ip := ip, ch_port := port\<rparr>) = Some (True, c)"
    "ce_recv env = Some buf" "decode (take 1024 buf) = Some (Inr ms)"
  shows "exchange_call env path out_buf r =
    Some (Inr (r\<lparr>cr_channel := c, cr_sent := Some out_buf,
      cr_response := (case ms of [m] \<Rightarrow> ce_parse env (m_pb_data m) | _ \<Rightarrow> cr_response r)\<rparr>))"
  using assms by (auto simp: exchange_call_def Let_def split: list.split)

text \<open>What a call needs to reach the server.\<close>

definition reachable :: "'m call_env \<Rightarrow> method_descriptor \<Rightarrow> rpc_channel \<Rightarrow> bool" where
  "reachable env mth cnl \<longleftrightarrow> ch_init cnl \<and>
     (\<exists>host ip port c. GetData (ce_junk env) (ce_node env (''/'' @ mth_service_name mth @ ''/'' @ mth_name mth)) = Inr host \<and>
        host \<noteq> [] \<and> parse_host host = Inr (Some (ip, port)) \<and> ce_pton env ip \<and>
        connect_send (ce_attempts env) (cnl\<lparr>ch_ip := ip, ch_port := port\<rparr>) = Some (True, c))"

definition request_of :: "method_descriptor \<Rightarrow> string \<Rightarrow> string \<Rightarrow> tinypb" where
  "request_of mth msg_id data =
     new_tinypb\<lparr>m_msg_id := msg_id, m_method_name := mth_full_name mth, m_pb_data := data\<rparr>"

lemma CallMethod_reaches:
  fixes env :: "'m call_env"
  assumes "reachable env mth cnl" "GetMsgId ctrl \<noteq> []" "ce_serialize env = Some data"
    "encode [request_of mth (GetMsgId ctrl) data] = Inr (ms', bytes)" "ce_recv env = Some buf"
    "decode (take 1024 buf) = Some (Inr ms)"
  shows "\<exists>c. CallMethod env mth (Some ctrl) cnl ids =
    Some (Inr \<lparr>cr_controller = Some ctrl, cr_channel = c, cr_ids = ids, cr_sent = Some bytes,
      cr_response = (case ms of [m] \<Rightarrow> ce_parse env (m_pb_data m) | _ \<Rightarrow> None)\<rparr>)"
proof -
  let ?path = "''/'' @ mth_service_name mth @ ''/'' @ mth_name mth"
  let ?r = "\<lparr>cr_controller = Some ctrl, cr_channel = cnl, cr_ids = ids, cr_sent = None,
    cr_response = (None :: 'm option)\<rparr>"
  obtain host ip port c where h: "GetData (ce_junk env) (ce_node env ?path) = Inr host" "host \<noteq> []"
    "parse_host host = Inr (Some (ip, port))" "ce_pton env ip"
    "cr_channel ?r = cnl"
    "connect_send (ce_attempts env) (cnl\<lparr>ch_ip := ip, ch_port := port\<rparr>) = Some (True, c)"
    and init: "ch_init cnl"
    using assms(1) unfolding reachable_def by auto
  have e: "encode [new_tinypb\<lparr>m_msg_id := GetMsgId ctrl, m_method_name := mth_full_name mth,
      m_pb_data := data\<rparr>] = Inr (ms', bytes)"
    using assms(4) unfolding request_of_def .
  have "CallMethod env mth (Some ctrl) cnl ids = exchange_call env ?path bytes ?r"
    using assms(2,3) init e by (simp add: CallMethod_def Let_def del: encode.simps)
  also have "\<dots> = Some (Inr (?r\<lparr>cr_channel := c, cr_sent := Some bytes,
      cr_response := (case ms of [m] \<Rightarrow> ce_parse env (m_pb_data m) | _ \<Rightarrow> None)\<rparr>))"
    unfolding exchange_call_sent [OF h assms(5,6)] by (simp split: list.split)
  finally show ?thesis by simp
qed

section \<open>Properties\<close>

lemma host_lookup:
  assumes "CHR '':'' \<notin> set ip" "NUL \<notin> set ip" "port < 65536" "length ip + length (dec_str port) < 62"
    "length junk = 64"
  shows "\<exists>h. host_data ip port = Inr h \<and>
    (junk ! length h = NUL \<longrightarrow> bind_res (GetData junk (Some h)) parse_host = Inr (Some (ip, int port))) \<and>
    (\<forall>k < 10. junk ! length h = digit k \<and> junk ! (length h + 1) = NUL \<longrightarrow>
       bind_res (GetData junk (Some h)) parse_host = Inr (Some (ip, int (10 * port + k) mod 65536)))"
proof -
  let ?h = "ip @ CHR '':'' # dec_str port"
  have h: "host_data ip port = Inr ?h"
    using assms(4) by (simp add: host_data_def Let_def)
  have n: "NUL \<notin> set ?h" using assms(2) dec_str_NUL by auto
  have l: "length ?h < 63" using assms(4) by simp
  have "bind_res (GetData junk (Some ?h)) parse_host = Inr (Some (ip, int port))" if "junk ! length ?h = NUL"
    using GetData_terminated [OF _ assms(5) that n] l parse_host_split [OF assms(1)] assms(3)
    by (simp add: atoi_dec_str)
  moreover have "bind_res (GetData junk (Some ?h)) parse_host = Inr (Some (ip, int (10 * port + k) mod 65536))"
    if k: "k < 10" "junk ! length ?h = digit k" "junk ! (length ?h + 1) = NUL" for k
  proof -
    have d: "drop (length ?h) junk = digit k # NUL # drop (length ?h + 2) junk"
      using assms(5) l k by (simp add: Cons_nth_drop_Suc [symmetric])
    have g: "GetData junk (Some ?h) = Inr (?h @ [digit k])"
    proof -
      have n': "NUL \<notin> set (?h @ [digit k])" using n digit_props(6) [OF k(1)] by auto
      have "take 64 ?h = ?h" "take 64 junk = junk" using l assms(5) by simp_all
      then show ?thesis
        using takeWhile_pad [OF n', of "drop (length ?h + 2) junk"] d
        by (simp add: GetData_def Let_def)
    qed
    show ?thesis
    proof (cases "port = 0")
      case True
      have "atoi (dec_str port @ [digit k]) = Inr (int k)"
        using k(1) by (simp add: True dec_str.simps [of 0] atoi_def digit_props Let_def digits_val_def of_char_digit)
      then have "parse_host (?h @ [digit k]) = Inr (Some (ip, int (10 * port + k) mod 65536))"
        using k(1) parse_host_split [OF assms(1), of "dec_str port @ [digit k]"] by (simp add: True)
      then show ?thesis unfolding g by simp
    next
      case False
      then have e: "dec_str port @ [digit k] = dec_str (10 * port + k)"
        using k(1) by (subst (2) dec_str.simps) simp
      have "parse_host (?h @ [digit k]) = parse_host (ip @ CHR '':'' # dec_str (10 * port + k))"
        using e by simp
      also have "\<dots> = Inr (Some (ip, int (10 * port + k) mod 65536))"
        using assms(3) k(1) by (simp add: parse_host_split [OF assms(1)] atoi_dec_str)
      finally show ?thesis unfolding g by simp
    qed
  qed
  ultimately show ?thesis using h by blast
qed

text \<open>
  C35. Server and client find each other through ZooKeeper: after \<open>Start\<close> the node of a method holds
  an address from which the client gets the server's ip and port, provided the byte behind it in
  the client's uninitialised buffer happens to be zero. When that byte is a digit (and the next one
  zero), the client silently connects to another port: the published one with that digit appended,
  modulo 65536.
\<close>

theorem registered_server_found:
  assumes "zk_spec zk tree" "names_ok d" "(s, service) \<in> set d" "m \<in> set (sd_methods service)"
    and "tree z (node_path s (md_name m)) = None"
    and "CHR '':'' \<notin> set ip" "NUL \<notin> set ip" "port < 65536" "length ip + length (dec_str port) < 62"
    and "length junk = 64"
  shows "\<exists>z' h. Start zk (\<lambda>z. z) ip port d z = Inr z' \<and>
    tree z' (node_path s (md_name m)) = Some (Some h) \<and>
    (junk ! length h = NUL \<longrightarrow> bind_res (GetData junk (Some h)) parse_host = Inr (Some (ip, int port))) \<and>
    (\<forall>k < 10. junk ! length h = digit k \<and> junk ! (length h + 1) = NUL \<longrightarrow>
       bind_res (GetData junk (Some h)) parse_host = Inr (Some (ip, int (10 * port + k) mod 65536)))"
proof -
  obtain h where h: "host_data ip port = Inr h"
    "junk ! length h = NUL \<longrightarrow> bind_res (GetData junk (Some h)) parse_host = Inr (Some (ip, int port))"
    "\<forall>k < 10. junk ! length h = digit k \<and> junk ! (length h + 1) = NUL \<longrightarrow>
       bind_res (GetData junk (Some h)) parse_host = Inr (Some (ip, int (10 * port + k) mod 65536))"
    using host_lookup [OF assms(6-10)] by blast
  have l: "length ip + 1 + length (dec_str port) < 128" using assms(9) by simp
  then have "h = ip @ '':'' @ dec_str port" using h(1) by (simp add: host_data_def Let_def)
  with Start_ok [OF assms(1,2) l, of z] assms(3-5) h(2,3) show ?thesis by fastforce
qed

theorem registered_server_found_witness:
  "\<exists>z' h. Start map_zk (\<lambda>z. z) ''10.0.0.1'' 5000 (registerService order_service []) (\<lambda>_. None) = Inr z' \<and>
     z' ''/Order/makeOrder'' = Some (Some h) \<and>
     (replicate 13 NUL @ ''7'' @ replicate 50 NUL) ! length h = digit 7 \<and>
     bind_res (GetData (replicate 13 NUL @ ''7'' @ replicate 50 NUL) (Some h)) parse_host = Inr (Some (''10.0.0.1'', 50007))"
proof -
  define j where "j = replicate 13 NUL @ ''7'' @ replicate 50 NUL"
  have j: "length j = 64" "j ! 13 = digit 7" "j ! 14 = NUL"
    by (simp_all add: j_def digit_eqI [of "CHR ''7''"] nth_append)
  have d: "registerService order_service [] = [(''Order'', order_service)]"
    by (simp add: registerService_def order_service_def)
  have m: "sd_methods order_service = [order_method]" "md_name order_method = ''makeOrder''"
    by (simp_all add: order_service_def order_method_def)
  have p: "dec_str 5000 = ''5000''"
    by (simp add: dec_str.simps digit_eqI [of "CHR ''5''"] digit_eqI [of "CHR ''0''"])
  have n: "names_ok (registerService order_service [])"
    by (simp add: d m names_ok_def name_ok_def)
  have l: "length h = 13" if "Start map_zk (\<lambda>z. z) ''10.0.0.1'' 5000 (registerService order_service []) (\<lambda>_. None) = Inr z'"
    "z' ''/Order/makeOrder'' = Some (Some h)" for z' h
    using Start_ok [OF map_zk_spec n, of "''10.0.0.1''" 5000 "\<lambda>_. None"] that
    by (auto simp: p d m node_path_def)
  have s: "(''Order'', order_service) \<in> set (registerService order_service [])" "order_method \<in> set (sd_methods order_service)"
    by (simp_all add: d m)
  obtain z' h where z': "Start map_zk (\<lambda>z. z) ''10.0.0.1'' 5000 (registerService order_service []) (\<lambda>_. None) = Inr z'"
    "z' ''/Order/makeOrder'' = Some (Some h)"
    "\<forall>k < 10. j ! length h = digit k \<and> j ! (length h + 1) = NUL \<longrightarrow>
       bind_res (GetData j (Some h)) parse_host = Inr (Some (''10.0.0.1'', int (10 * 5000 + k) mod 65536))"
    using registered_server_found [OF map_zk_spec n s, of "\<lambda>_. None" "''10.0.0.1''" 5000 j] j(1)
    unfolding p m node_path_def by fastforce
  have h: "length h = 13" by (rule l [OF z'(1,2)])
  have "bind_res (GetData j (Some h)) parse_host = Inr (Some (''10.0.0.1'', int (10 * 5000 + 7) mod 65536))"
    using z'(3) j(2,3) h by (auto dest!: spec [of _ "7::nat"])
  with z'(1,2) j(2) h show ?thesis unfolding j_def by auto
qed

text \<open>The call of the test client, with everything in place, for the witnesses.\<close>

definition order_descriptor :: method_descriptor where
  "order_descriptor = \<lparr>mth_full_name = ''Order.makeOrder'', mth_service_name = ''Order'', mth_name = ''makeOrder''\<rparr>"

definition order_env :: "string option \<Rightarrow> string call_env" where
  "order_env reply = \<lparr>ce_urandom = None,
     ce_node = (\<lambda>p. if p = ''/Order/makeOrder'' then Some ''127.0.0.1:7'' else None),
     ce_junk = replicate 64 NUL, ce_pton = (\<lambda>ip. ip = ''127.0.0.1''), ce_attempts = [(True, False)],
     ce_recv = reply, ce_serialize = Some ''apple'', ce_parse = Some\<rparr>"

definition order_channel :: rpc_channel where
  "order_channel = Init (new_rpc_channel ''127.0.0.1'' 5000)"

definition order_controller :: rpc_controller where
  "order_controller = SetMsgId ''9912312998888'' new_controller"

lemma order_reachable: "reachable (order_env reply) order_descriptor order_channel"
proof -
  have 7: "''7'' = dec_str 7" by (simp add: dec_str.simps digit_eqI [of "CHR ''7''"])
  have at: "atoi ''7'' = Inr 7" unfolding 7 by (simp add: atoi_dec_str)
  have n: "ce_node (order_env reply) (''/'' @ mth_service_name order_descriptor @ ''/'' @ mth_name order_descriptor) =
      Some ''127.0.0.1:7''" by (simp add: order_env_def order_descriptor_def)
  have "GetData (replicate 64 NUL) (Some ''127.0.0.1:7'') = Inr ''127.0.0.1:7''"
    by (rule GetData_terminated) simp_all
  moreover have "parse_host (''127.0.0.1'' @ CHR '':'' # ''7'') = Inr (Some (''127.0.0.1'', 7))"
    by (subst parse_host_split) (simp_all add: at)
  ultimately show ?thesis
    unfolding reachable_def n
    by (intro conjI exI [of _ "''127.0.0.1:7''"] exI [of _ "''127.0.0.1''"] exI [of _ 7])
      (simp_all add: order_env_def order_channel_def Init_def new_rpc_channel_def)
qed

text \<open>
  The whole call, client and server together: the client finds the server, its request bytes
  reach the server, and the server's answer comes back in one piece of at most 1024 bytes. Then the
  client's response object is what the response type parses from the payload of the dispatcher's
  reply to exactly this request, the request went out once, and the controller is the one passed in:
  its state does not depend on the reply's error code.
\<close>

lemma call_end_to_end:
  assumes "reachable env mth cnl" "GetMsgId ctrl \<noteq> []" "ce_serialize env = Some data"
    and "sendable [request_of mth (GetMsgId ctrl) data]"
    and "encode [request_of mth (GetMsgId ctrl) data] = Inr (ms', bytes)"
    and "dispatch d (received (request_of mth (GetMsgId ctrl) data)) new_tinypb w = Inr (reply, w')"
    and "sendable [reply]" "total_len [reply] \<le> 1024"
    and "answer d bytes w = Some (Inr (out, w''))" "ce_recv env = Some out"
  shows "w'' = w' \<and> (\<exists>c. CallMethod env mth (Some ctrl) cnl ids =
      Some (Inr \<lparr>cr_controller = Some ctrl, cr_channel = c, cr_ids = ids, cr_sent = Some bytes,
        cr_response = ce_parse env (m_pb_data reply)\<rparr>))"
proof -
  let ?q = "request_of mth (GetMsgId ctrl) data"
  have d: "dispatch_all d (map received [?q]) w = Inr ([reply], w')"
    using assms(6) by simp
  have out: "w'' = w'" "decode out = Some (Inr (map received [reply]))"
    using answer_encoded [OF assms(4,5) d assms(7)] assms(9) by auto
  have "take 1024 out = out"
    using answer_length [OF assms(4,5) d assms(7)] assms(8,9) out(1) by simp
  then have "decode (take 1024 out) = Some (Inr [received reply])" using out(2) by simp
  from CallMethod_reaches [OF assms(1-3,5,10) this, of ids] out(1) show ?thesis
    by auto
qed

text \<open>The call of the test client.\<close>

lemma order_call:
  "request_of order_descriptor (GetMsgId order_controller) ''apple'' = order_request"
  "GetMsgId order_controller \<noteq> []"
  by (simp_all add: request_of_def order_descriptor_def order_controller_def order_request_def controller_ops)

lemmas order_call_served = order_call makeOrder_served

text \<open>
  An error reply goes unnoticed: when the server does not know the service, the client's call
  ends without failure, with no error in the controller, and the response object is whatever the
  response type makes of an empty payload.
\<close>

theorem error_reply_unnoticed:
  assumes "reachable env mth cnl" "GetMsgId ctrl \<noteq> []" "ce_serialize env = Some data"
    and "sendable [request_of mth (GetMsgId ctrl) data]"
    and "encode [request_of mth (GetMsgId ctrl) data] = Inr (ms', bytes)"
    and "mth_full_name mth = s @ CHR ''.'' # n" "CHR ''.'' \<notin> set s" "smap_find s d = None"
    and "answer d bytes w = Some (Inr (out, w'))" "ce_recv env = Some out" "\<not> Failed ctrl"
  shows "\<exists>res. CallMethod env mth (Some ctrl) cnl ids = Some (Inr res) \<and>
    cr_controller res = Some ctrl \<and> cr_response res = ce_parse env [] \<and>
    (\<exists>r. decode out = Some (Inr [r]) \<and> m_err_code r = ERROR_SERVICE_NOT_FOUND)"
proof -
  let ?q = "request_of mth (GetMsgId ctrl) data"
  let ?r = "setTinyPBError ERROR_SERVICE_NOT_FOUND ''parse sevice not found'' new_tinypb"
  have d: "dispatch_all d (map received [?q]) w = Inr ([?r], w)"
    using parse_name_dot [OF assms(7), of n] assms(6,8) by (simp add: dispatch_def request_of_def)
  have r: "sendable [?r]" "total_len [?r] \<le> 1024"
    by (simp_all add: sendable_def total_len_def wf_msg_def cstr_ok_def setTinyPBError_def new_tinypb_def
        frame_len_def with_msg_id_def default_msg_id_def error_codes)
  have out: "w' = w" "decode out = Some (Inr [received ?r])"
    using answer_encoded [OF assms(4,5) d r(1)] assms(9) by auto
  have "take 1024 out = out"
    using answer_length [OF assms(4,5) d r(1)] assms(9) r(2) out(1) by simp
  then have "decode (take 1024 out) = Some (Inr [received ?r])" using out(2) by simp
  from CallMethod_reaches [OF assms(1-3,5,10) this, of ids] out(2) show ?thesis
    by (auto simp: setTinyPBError_def new_tinypb_def)
qed

theorem error_reply_unnoticed_witness:
  "\<exists>bytes out res. answer ([] :: (string, nat) dispatcher) bytes 0 = Some (Inr (out, 0)) \<and>
     CallMethod (order_env (Some out)) order_descriptor (Some order_controller) order_channel new_msg_id_state =
       Some (Inr res) \<and> cr_response res = Some [] \<and> cr_controller res = Some order_controller \<and>
     \<not> Failed order_controller"
proof -
  let ?q = "request_of order_descriptor (GetMsgId order_controller) ''apple''"
  let ?d = "[] :: (string, nat) dispatcher"
  let ?r = "setTinyPBError ERROR_SERVICE_NOT_FOUND ''parse sevice not found'' new_tinypb"
  have q: "?q = order_request"
    by (simp add: request_of_def order_descriptor_def order_controller_def order_request_def controller_ops)
  have g: "GetMsgId order_controller \<noteq> []" "\<not> Failed order_controller"
    by (simp_all add: order_controller_def controller_ops new_controller_def)
  have s: "ce_serialize (order_env (Some out)) = Some ''apple''" for out by (simp add: order_env_def)
  have sq: "sendable [?q]"
    unfolding q by (simp add: sendable_def total_len_def sample_simps)
  have n: "mth_full_name order_descriptor = ''Order'' @ CHR ''.'' # ''makeOrder''" "CHR ''.'' \<notin> set ''Order''"
    "smap_find ''Order'' ?d = None"
    by (simp_all add: order_descriptor_def smap_find_def)
  obtain ms' bytes where e: "encode [?q] = Inr (ms', bytes)"
    using encode_sendable [OF sq] by blast
  have dn: "dispatch_all ?d (map received [?q]) 0 = Inr ([?r], 0)"
    using parse_name_dot [OF n(2), of "''makeOrder''"] n(3) by (simp add: dispatch_def q sample_simps)
  have r: "sendable [?r]"
    by (simp add: sendable_def total_len_def wf_msg_def cstr_ok_def setTinyPBError_def new_tinypb_def
        frame_len_def with_msg_id_def default_msg_id_def error_codes)
  obtain out where a: "answer ?d bytes 0 = Some (Inr (out, 0))"
    using answer_encoded [OF sq e dn r] by blast
  have rc: "ce_recv (order_env (Some out)) = Some out" by (simp add: order_env_def)
  from error_reply_unnoticed [OF order_reachable g(1) s sq e n a rc g(2), of new_msg_id_state] a g(2)
  show ?thesis by (auto simp: order_env_def)
qed

text \<open>
  A reply longer than the 1024 bytes of the single \<open>recv\<close> is lost: its first 1024 bytes decode
  to nothing, the call returns without a response and without an error.
\<close>

theorem large_reply_lost:
  assumes "reachable env mth cnl" "GetMsgId ctrl \<noteq> []" "ce_serialize env = Some data"
    and "encode [request_of mth (GetMsgId ctrl) data] = Inr (ms', bytes)"
    and "ce_recv env = Some (frame_bytes reply)" "1024 < frame_len reply" "int (frame_len reply) < 2 ^ 31"
    and "PB_START \<notin> set (tl (take 1024 (frame_bytes reply)))"
  shows "\<exists>c. CallMethod env mth (Some ctrl) cnl ids =
      Some (Inr \<lparr>cr_controller = Some ctrl, cr_channel = c, cr_ids = ids, cr_sent = Some bytes,
        cr_response = None\<rparr>)"
proof -
  have "decode (take 1024 (frame_bytes reply)) = Some (Inr [])"
    by (rule decode_cut [OF refl _ assms(6,7,8)]) simp
  from CallMethod_reaches [OF assms(1-5) this, of ids] show ?thesis by simp
qed

definition large_reply :: tinypb where
  "large_reply = makeOrder_reply\<lparr>m_msg_id := ''7'', m_pb_data := replicate 2000 (CHR ''x'')\<rparr>"

theorem large_reply_lost_witness:
  "\<exists>res. CallMethod (order_env (Some (frame_bytes large_reply))) order_descriptor (Some order_controller)
     order_channel new_msg_id_state = Some (Inr res) \<and> cr_response res = None"
proof -
  let ?q = "request_of order_descriptor (GetMsgId order_controller) ''apple''"
  have q: "?q = order_request"
    by (simp add: request_of_def order_descriptor_def order_controller_def order_request_def controller_ops)
  have g: "GetMsgId order_controller \<noteq> []" by (simp add: order_controller_def controller_ops)
  have s: "ce_serialize (order_env out) = Some ''apple''" for out by (simp add: order_env_def)
  have sq: "sendable [?q]"
    unfolding q by (simp add: sendable_def total_len_def sample_simps)
  obtain ms' bytes where e: "encode [?q] = Inr (ms', bytes)"
    using encode_sendable [OF sq] by blast
  have rc: "ce_recv (order_env (Some (frame_bytes large_reply))) = Some (frame_bytes large_reply)"
    by (simp add: order_env_def)
  have l: "frame_len large_reply = 2042"
    by (simp add: large_reply_def makeOrder_reply_def frame_len_def new_tinypb_def)
  have h: "list_all (\<lambda>c. c \<noteq> PB_START) (net32 2042 @ net32 1 @ ''7'' @ net32 15 @ ''Order.makeOrder'' @
      net32 0 @ net32 0 @ net32 1 @ [PB_END])"
    by code_simp
  have t: "tl (frame_bytes large_reply) = net32 2042 @ net32 1 @ ''7'' @ net32 15 @ ''Order.makeOrder'' @
      net32 0 @ net32 0 @ replicate 2000 (CHR ''x'') @ net32 1 @ [PB_END]"
    unfolding frame_bytes_def l by (simp add: large_reply_def makeOrder_reply_def new_tinypb_def)
  have x: "CHR ''x'' \<noteq> PB_START" by (simp add: PB_START_def)
  have "PB_START \<notin> set (tl (frame_bytes large_reply))"
    unfolding t using h x by (auto simp: list_all_iff)
  then have p: "PB_START \<notin> set (tl (take 1024 (frame_bytes large_reply)))"
    by (auto simp: tl_take dest: in_set_takeD)
  have "1024 < frame_len large_reply" "int (frame_len large_reply) < 2 ^ 31" by (simp_all add: l)
  from large_reply_lost [OF order_reachable g s e rc this p, where ids = new_msg_id_state]
  show ?thesis by fastforce
qed

lemma connect_send_closed:
  "connect_send as c = Some (False, c') \<Longrightarrow> \<not> ch_sock_open c'"
  by (induction "as" c rule: connect_send.induct) (auto split: if_splits)

lemma exchange_call_result:
  assumes "exchange_call env path out_buf r = Some (Inr r')" "cr_controller r = Some c"
    "cr_sent r = None" "cr_response r = None"
  shows "(cr_sent r' = None \<and> cr_response r' = None \<and>
      ((\<exists>why. cr_controller r' = Some (SetFailed why c)) \<or>
       cr_controller r' = Some c \<and> \<not> ch_sock_open (cr_channel r'))) \<or>
    (cr_sent r' = Some out_buf \<and> cr_controller r' = Some c)"
proof (cases "GetData (ce_junk env) (ce_node env path)")
  case (Inl f)
  with assms show ?thesis by (simp add: exchange_call_def Let_def)
next
  case (Inr host)
  note H = Inr
  show ?thesis
  proof (cases "parse_host host")
    case (Inl f)
    with assms H show ?thesis by (auto simp: exchange_call_def Let_def split: if_splits)
  next
    case (Inr ho)
    show ?thesis
    proof (cases ho)
      case None
      with assms H Inr show ?thesis by (auto simp: exchange_call_def Let_def split: if_splits)
    next
      case (Some ipp)
      obtain ip port where ipp: "ipp = (ip, port)" by fastforce
      note ho = Inr [unfolded Some ipp]
      have ne: "host \<noteq> []" using ho by (auto simp: parse_host_def find_first_of_def)
      have pt: "ce_pton env ip"
        using assms(1) H ho ne by (auto simp: exchange_call_def Let_def split: if_splits)
      obtain b c' where cs: "connect_send (ce_attempts env) ((cr_channel r)\<lparr>ch_ip := ip, ch_port := port\<rparr>) = Some (b, c')"
        using assms(1) H ho ne pt by (auto simp: exchange_call_def Let_def split: option.splits)
      show ?thesis
      proof (cases b)
        case False
        then show ?thesis
          using assms H ho ne pt cs connect_send_closed [of _ _ c']
          by (auto simp: exchange_call_def Let_def)
      next
        case True
        obtain buf where buf: "ce_recv env = Some buf"
          using assms(1) H ho ne pt cs True
          by (cases "ce_recv env") (auto simp: exchange_call_def Let_def)
        obtain ms where "decode (take 1024 buf) = Some (Inr ms)"
          using assms(1) H ho ne pt cs True buf
          by (auto simp: exchange_call_def Let_def bind_res_Inr)
        moreover have "connect_send (ce_attempts env) ((cr_channel r)\<lparr>ch_ip := ip, ch_port := port\<rparr>) =
            Some (True, c')" using cs True by simp
        ultimately have "exchange_call env path out_buf r = Some (Inr (r\<lparr>cr_channel := c', cr_sent := Some out_buf,
            cr_response := (case ms of [m] \<Rightarrow> ce_parse env (m_pb_data m) | _ \<Rightarrow> cr_response r)\<rparr>))"
          using exchange_call_sent [OF H ne ho pt refl _ buf] by blast
        with assms show ?thesis by auto
      qed
    qed
  qed
qed



end
