(* ===== verification/PoolStop.thy ===== *)
theory PoolStop
  imports ThreadPoll
begin

text \<open>
  \<open>src/common/ThreadPoll\<close> again, with the clearing thread and the caller of \<open>Stop\<close> step by step:
  which of them holds \<open>deadThreadQueueMutex\<close>, who waits on \<open>deadThreadQueueCondition_\<close>, and when the
  joins come back. The workers are those of \<open>ThreadPoll\<close>.
\<close>

section \<open>The clearing thread and the caller of Stop\<close>

text \<open>
  \<open>clearDeadThread\<close>: at the loop test; with the mutex, before the predicate of the wait; the
  predicate was false and it is about to block; blocked (the mutex is free); in the loop over the dead
  queue; in the same loop behind the \<open>while(!stop_)\<close>; returned.
\<close>

datatype clear_phase = ClTest | ClPred | ClBlock | ClWait | ClDrain | ClFinal | ClDone

text \<open>
  \<open>Stop\<close>: not called; \<open>stop_\<close> is set; both conditions are notified and it joins the clearing thread;
  it joins the workers; returned.
\<close>

datatype stop_phase = StIdle | StSet | StJoinClear | StJoinWorkers | StDone

record 't pool_sys =
  ps_pool :: "'t pool"
  ps_clear :: clear_phase
  ps_stop :: stop_phase

text \<open>
  The constructor starts the clearing thread in its initialiser list, where \<open>clearThread\<close> comes
  before \<open>stop_\<close>: \<open>garbage\<close> is what the thread reads if it is faster than the initialisation.
\<close>

definition new_sys :: "bool \<Rightarrow> nat \<Rightarrow> nat \<Rightarrow> 't pool_sys" where
  "new_sys garbage m n = \<lparr>ps_pool = new_pool m n, ps_clear = (if garbage then ClFinal else ClTest), ps_stop = StIdle\<rparr>"

fun cl_holds :: "clear_phase \<Rightarrow> bool" where
  "cl_holds x \<longleftrightarrow> x = ClPred \<or> x = ClBlock \<or> x = ClDrain \<or> x = ClFinal"

text \<open>\<open>notify_all\<close> on the dead queue's condition: only a blocked thread notices.\<close>

definition notify_clear :: "clear_phase \<Rightarrow> clear_phase" where
  "notify_clear x = (if x = ClWait then ClPred else x)"

section \<open>Steps\<close>

text \<open>A step of the clearing thread; in \<open>ClWait\<close> it needs a notification (or a spurious wake-up).\<close>

definition clear_step :: "'t pool_sys \<Rightarrow> 't pool_sys res option" where
  "clear_step s =
     (let p = ps_pool s; reap = map_option (\<lambda>r. bind_res r (\<lambda>p'. Inr (s\<lparr>ps_pool := p'\<rparr>))) (tp_reap p) in
      case ps_clear s of
        ClTest \<Rightarrow> Some (Inr (s\<lparr>ps_clear := (if tp_stop p then ClFinal else ClPred)\<rparr>))
      | ClPred \<Rightarrow> Some (Inr (s\<lparr>ps_clear := (if tp_stop p \<or> deadThreadQueue p \<noteq> [] then ClDrain else ClBlock)\<rparr>))
      | ClBlock \<Rightarrow> Some (Inr (s\<lparr>ps_clear := ClWait\<rparr>))
      | ClWait \<Rightarrow> None
      | ClDrain \<Rightarrow> if deadThreadQueue p = [] then Some (Inr (s\<lparr>ps_clear := ClTest\<rparr>)) else reap
      | ClFinal \<Rightarrow> if deadThreadQueue p = [] then Some (Inr (s\<lparr>ps_clear := ClDone\<rparr>)) else reap
      | ClDone \<Rightarrow> None)"

text \<open>\<open>join\<close> returns for a thread that has left \<open>Threadwork\<close>; reaped ones are no longer in \<open>threads_\<close>.\<close>

definition stop_step :: "'t pool_sys \<Rightarrow> 't pool_sys option" where
  "stop_step s =
     (case ps_stop s of
        StIdle \<Rightarrow> Some (if tp_stop (ps_pool s) then s\<lparr>ps_stop := StDone\<rparr>
          else s\<lparr>ps_pool := Stop (ps_pool s), ps_stop := StSet\<rparr>)
      | StSet \<Rightarrow> Some (s\<lparr>ps_clear := notify_clear (ps_clear s), ps_stop := StJoinClear\<rparr>)
      | StJoinClear \<Rightarrow> if ps_clear s = ClDone then Some (s\<lparr>ps_stop := StJoinWorkers\<rparr>) else None
      | StJoinWorkers \<Rightarrow> if all_finished (ps_pool s) then Some (s\<lparr>ps_stop := StDone\<rparr>) else None
      | StDone \<Rightarrow> None)"

datatype 't sys_event = Worker "'t tp_event" | Submit 't | Clear | Spurious | Stopper

text \<open>
  A worker that retires takes the mutex of the dead queue and notifies the clearing thread, which
  then evaluates its predicate again.
\<close>

definition worker_sys_step :: "'t tp_event \<Rightarrow> 't pool_sys \<Rightarrow> 't pool_sys res option" where
  "worker_sys_step e s =
     (case tp_step e (ps_pool s) of
        Some (Inr p) \<Rightarrow>
          if deadThreadQueue p = deadThreadQueue (ps_pool s) then Some (Inr (s\<lparr>ps_pool := p\<rparr>))
          else if cl_holds (ps_clear s) then None
          else Some (Inr (s\<lparr>ps_pool := p, ps_clear := notify_clear (ps_clear s)\<rparr>))
      | Some (Inl f) \<Rightarrow> Some (Inl f)
      | None \<Rightarrow> None)"

fun sys_step :: "'t sys_event \<Rightarrow> 't pool_sys \<Rightarrow> 't pool_sys res option" where
  "sys_step (Worker e) s = (if worker_event e then worker_sys_step e s else None)"
| "sys_step (Submit t) s = Some (Inr (s\<lparr>ps_pool := addtask t (ps_pool s)\<rparr>))"
| "sys_step Clear s = clear_step s"
| "sys_step Spurious s = (if ps_clear s = ClWait then Some (Inr (s\<lparr>ps_clear := ClPred\<rparr>)) else None)"
| "sys_step Stopper s = map_option Inr (stop_step s)"

fun sys_run :: "'t sys_event list \<Rightarrow> 't pool_sys \<Rightarrow> 't pool_sys res option" where
  "sys_run [] s = Some (Inr s)"
| "sys_run (e # es) s =
     (case sys_step e s of
        Some (Inr s') \<Rightarrow> sys_run es s'
      | r \<Rightarrow> r)"

section \<open>The pool below\<close>

text \<open>Every run here is a run of the pool of \<open>ThreadPoll\<close>, so its invariants hold here too.\<close>

lemma clear_step_pool:
  assumes "clear_step s = Some (Inr s')"
  shows "ps_stop s' = ps_stop s \<and> (ps_pool s' = ps_pool s \<or> tp_reap (ps_pool s) = Some (Inr (ps_pool s')))"
  using assms by (auto simp: clear_step_def Let_def bind_res_Inr split: clear_phase.splits if_splits)

lemma stop_step_pool:
  assumes "stop_step s = Some s'"
  shows "ps_pool s' = ps_pool s \<or> ps_pool s' = Stop (ps_pool s)"
  using assms by (auto simp: stop_step_def split: stop_phase.splits if_splits)

lemma sys_step_pool:
  assumes "sys_step e s = Some (Inr s')"
  shows "\<exists>es. tp_run es (ps_pool s) = Some (Inr (ps_pool s'))"
proof -
  have refl: "\<exists>es. tp_run es p = Some (Inr p)" for p :: "'a pool" by (rule exI [of _ "[]"]) simp
  have one: "\<exists>es. tp_run es p = Some (Inr p')" if "tp_step e p = Some (Inr p')" for e and p p' :: "'a pool"
    using that by (intro exI [of _ "[e]"]) simp
  show ?thesis
  proof (cases e)
    case (Worker w)
    then have "tp_step w (ps_pool s) = Some (Inr (ps_pool s'))"
      using assms by (auto simp: worker_sys_step_def split: if_splits option.splits sum.splits)
    then show ?thesis by (rule one)
  next
    case (Submit t)
    then show ?thesis using assms one [of "AddTask t"] by auto
  next
    case Clear
    then show ?thesis using clear_step_pool [of s s'] assms one [of Reap] refl by auto
  next
    case Spurious
    then show ?thesis using assms refl by (auto split: if_splits)
  next
    case Stopper
    then show ?thesis using stop_step_pool [of s s'] assms one [of StopPool] refl by auto
  qed
qed

lemma sys_run_pool:
  "sys_run es s = Some (Inr s') \<Longrightarrow> \<exists>es. tp_run es (ps_pool s) = Some (Inr (ps_pool s'))"
proof (induction es arbitrary: s)
  case Nil
  then show ?case by (intro exI [of _ "[]"]) simp
next
  case (Cons e es)
  then obtain s1 where 1: "sys_step e s = Some (Inr s1)" "sys_run es s1 = Some (Inr s')"
    by (auto split: option.splits sum.splits)
  from sys_step_pool [OF 1(1)] Cons.IH [OF 1(2)] tp_run_append show ?case by metis
qed

lemma tp_inv_sys:
  assumes "sys_run es (new_sys g m n) = Some (Inr s)"
  shows "tp_inv (ps_pool s)"
  using sys_run_pool [OF assms] tp_inv_run [OF _ tp_inv_new] by (fastforce simp: new_sys_def)

lemma stop_set_step:
  assumes "sys_step e s = Some (Inr s')" "ps_stop s \<noteq> StIdle \<longrightarrow> tp_stop (ps_pool s)"
  shows "ps_stop s' \<noteq> StIdle \<longrightarrow> tp_stop (ps_pool s')"
proof -
  have mono: "tp_stop p'" if "tp_step e p = Some (Inr p')" "tp_stop p" for e and p p' :: "'a pool"
    using stopped_step [OF that] by simp
  show ?thesis
  proof (cases e)
    case (Worker w)
    then show ?thesis
      using assms mono by (auto simp: worker_sys_step_def split: if_splits option.splits sum.splits)
  next
    case (Submit t)
    then show ?thesis using assms mono [of "AddTask t"] by auto
  next
    case Clear
    then show ?thesis using assms clear_step_pool [of s s'] mono [of Reap] by auto
  next
    case Stopper
    then show ?thesis
      using assms by (auto simp: stop_step_def Stop_def split: stop_phase.splits if_splits)
  qed (use assms in \<open>auto split: if_splits\<close>)
qed

lemma stop_set:
  assumes "sys_run es (new_sys g m n) = Some (Inr s)" "ps_stop s \<noteq> StIdle"
  shows "tp_stop (ps_pool s)"
proof -
  have "sys_run es s0 = Some (Inr s) \<Longrightarrow> ps_stop s0 \<noteq> StIdle \<longrightarrow> tp_stop (ps_pool s0) \<Longrightarrow>
      ps_stop s \<noteq> StIdle \<longrightarrow> tp_stop (ps_pool s)" for s0
  proof (induction es arbitrary: s0)
    case (Cons e es)
    then obtain s1 where 1: "sys_step e s0 = Some (Inr s1)" "sys_run es s1 = Some (Inr s)"
      by (auto split: option.splits sum.splits)
    from Cons.IH [OF 1(2) stop_set_step [OF 1(1) Cons.prems(2)]] show ?case .
  qed simp
  from this [OF assms(1)] assms(2) show ?thesis by (simp add: new_sys_def)
qed

section \<open>When Stop comes back\<close>

text \<open>In a stopped pool nobody retires.\<close>

lemma stopped_dead:
  assumes "tp_step e p = Some (Inr p')" "tp_stop p" "worker_event e"
  shows "deadThreadQueue p' = deadThreadQueue p"
  using assms by (cases e) (auto simp: worker_event_def tp_test_def tp_wake_def tp_timeout_def tp_finish_def
      split: if_splits list.splits)

lemma worker_sys_stopped:
  assumes "tp_stop (ps_pool s)" "worker_event e" "worker_sys_step e s = Some r"
  shows "\<exists>p. tp_step e (ps_pool s) = Some (Inr p) \<and> r = Inr (s\<lparr>ps_pool := p\<rparr>) \<and> tp_stop p"
proof -
  have "\<exists>p. tp_step e (ps_pool s) = Some (Inr p)"
    using assms by (cases e) (auto simp: worker_event_def worker_sys_step_def split: option.splits if_splits)
  then obtain p where p: "tp_step e (ps_pool s) = Some (Inr p)" by blast
  with stopped_dead [OF p assms(1,2)] stopped_step [OF p assms(1)] assms(3) show ?thesis
    by (simp add: worker_sys_step_def)
qed

text \<open>The clearing thread has missed the notification: it blocks, or is blocked, for good.\<close>

definition hung :: "'t pool_sys \<Rightarrow> bool" where
  "hung s \<longleftrightarrow> tp_stop (ps_pool s) \<and> (ps_clear s = ClBlock \<or> ps_clear s = ClWait) \<and> ps_stop s = StJoinClear"

lemma hung_step:
  assumes "hung s" "sys_step e s = Some (Inr s')" "e \<noteq> Spurious"
  shows "hung s'"
proof (cases e)
  case (Worker w)
  then have "worker_event w" "worker_sys_step w s = Some (Inr s')" using assms(2) by (auto split: if_splits)
  with worker_sys_stopped [of s w "Inr s'"] assms(1) show ?thesis by (auto simp: hung_def)
next
  case (Submit t)
  then show ?thesis using assms by (auto simp: hung_def addtask_def Let_def)
next
  case Clear
  then show ?thesis using assms by (auto simp: hung_def clear_step_def)
next
  case Stopper
  then show ?thesis using assms by (auto simp: hung_def stop_step_def)
qed (use assms in simp)

lemma hung_run:
  "sys_run es s = Some (Inr s') \<Longrightarrow> hung s \<Longrightarrow> Spurious \<notin> set es \<Longrightarrow> hung s'"
proof (induction es arbitrary: s)
  case (Cons e es)
  then obtain s1 where 1: "sys_step e s = Some (Inr s1)" "sys_run es s1 = Some (Inr s')"
    by (auto split: option.splits sum.splits)
  from Cons.IH [OF 1(2) hung_step [OF Cons.prems(2) 1(1)]] Cons.prems(3) show ?case by auto
qed simp

text \<open>Otherwise everything runs down to the return of \<open>Stop\<close>, given that the tasks come back.\<close>

definition shutdown_step :: "'t sys_event \<Rightarrow> 't pool_sys \<Rightarrow> 't pool_sys option" where
  "shutdown_step e s = (case e of Submit _ \<Rightarrow> None | Spurious \<Rightarrow> None | _ \<Rightarrow> unfaulted sys_step e s)"

definition shutting_down :: "'t pool_sys \<Rightarrow> bool" where
  "shutting_down s \<longleftrightarrow> tp_inv (ps_pool s) \<and> tp_stop (ps_pool s) \<and> ps_clear s \<noteq> ClBlock \<and> ps_clear s \<noteq> ClWait \<and>
     ps_stop s \<noteq> StIdle \<and> ps_stop s \<noteq> StSet"

fun clear_weight :: "clear_phase \<Rightarrow> nat" where
  "clear_weight ClPred = 4"
| "clear_weight ClDrain = 3"
| "clear_weight ClTest = 2"
| "clear_weight ClFinal = 1"
| "clear_weight _ = 0"

fun stop_weight :: "stop_phase \<Rightarrow> nat" where
  "stop_weight StJoinClear = 2"
| "stop_weight StJoinWorkers = 1"
| "stop_weight _ = 0"

definition shutdown_left :: "'t pool_sys \<Rightarrow> nat" where
  "shutdown_left s = work_left (ps_pool s) + length (deadThreadQueue (ps_pool s)) +
     clear_weight (ps_clear s) + stop_weight (ps_stop s)"

lemma reap_stopped:
  assumes "tp_inv p" "deadThreadQueue p \<noteq> []" 
  shows "\<exists>p'. tp_reap p = Some (Inr p') \<and> tp_inv p' \<and> tp_stop p' = tp_stop p \<and> work_left p' = work_left p \<and>
    length (deadThreadQueue p') < length (deadThreadQueue p)"
proof -
  obtain j "is" where j: "deadThreadQueue p = j # is" using assms(2) by (cases "deadThreadQueue p") auto
  then obtain r where "tp_reap p = Some r" by (simp add: tp_reap_def)
  with tp_inv_reap [OF assms(1)] obtain p' where p': "tp_reap p = Some (Inr p')" "tp_inv p'" by blast
  then have e: "p' = set_phase j Reaped (p\<lparr>deadThreadQueue := is\<rparr>)"
    using j by (auto simp: tp_reap_def split: if_splits)
  have "at_phase (\<lambda>x. x = Retired) j (p\<lparr>deadThreadQueue := is\<rparr>)" using assms(1) j by (auto simp: tp_inv_def)
  from work_left_set [OF this, of Reaped] this have "work_left p' = work_left (p\<lparr>deadThreadQueue := is\<rparr>)"
    by (simp add: e at_phase_def)
  then show ?thesis using p' by (simp add: e j work_left_def)
qed

lemma shutdown_clear:
  assumes "shutting_down s"
  shows "clear_step s = Some (Inr s') \<Longrightarrow> shutting_down s' \<and> shutdown_left s' < shutdown_left s"
    and "ps_clear s \<noteq> ClDone \<Longrightarrow> \<exists>s'. clear_step s = Some (Inr s')"
proof -
  have r: "tp_inv (ps_pool s)" using assms by (simp add: shutting_down_def)
  show "ps_clear s \<noteq> ClDone \<Longrightarrow> \<exists>s'. clear_step s = Some (Inr s')"
    using assms reap_stopped [OF r] by (cases "ps_clear s"; cases "deadThreadQueue (ps_pool s) = []")
      (auto simp: shutting_down_def clear_step_def Let_def)
  show "shutting_down s' \<and> shutdown_left s' < shutdown_left s" if c: "clear_step s = Some (Inr s')"
  proof (cases "(ps_clear s = ClDrain \<or> ps_clear s = ClFinal) \<and> deadThreadQueue (ps_pool s) \<noteq> []")
    case True
    then obtain p where p: "tp_reap (ps_pool s) = Some (Inr p)" "tp_inv p" "tp_stop p = tp_stop (ps_pool s)"
        "work_left p = work_left (ps_pool s)" "length (deadThreadQueue p) < length (deadThreadQueue (ps_pool s))"
      using reap_stopped [OF r] by blast
    then have "s' = s\<lparr>ps_pool := p\<rparr>" using c True by (auto simp: clear_step_def Let_def)
    then show ?thesis using p assms by (simp add: shutting_down_def shutdown_left_def)
  next
    case False
    then show ?thesis
      using c assms by (cases "ps_clear s")
        (auto simp: shutting_down_def clear_step_def shutdown_left_def Let_def split: if_splits)
  qed
qed

interpretation shutdown: runs_down shutdown_step shutting_down "\<lambda>s. ps_stop s = StDone" shutdown_left
proof
  fix e and s s' :: "'a pool_sys"
  assume s: "shutting_down s" and st: "shutdown_step e s = Some s'"
  have stop: "tp_stop (ps_pool s)" using s by (simp add: shutting_down_def)
  show "shutting_down s' \<and> shutdown_left s' < shutdown_left s"
  proof (cases e)
    case (Worker w)
    then have w: "worker_event w" "worker_sys_step w s = Some (Inr s')"
      using st by (auto simp: shutdown_step_def unfaulted_Some split: if_splits)
    then obtain p where p: "tp_step w (ps_pool s) = Some (Inr p)" "s' = s\<lparr>ps_pool := p\<rparr>" "tp_stop p"
      using worker_sys_stopped [OF stop w(1)] by blast
    have "tp_inv p" using tp_inv_step [OF _ p(1)] s by (auto simp: shutting_down_def)
    with p stopped_worker_step [OF p(1) stop w(1)] stopped_dead [OF p(1) stop w(1)] s show ?thesis
      by (simp add: shutting_down_def shutdown_left_def)
  next
    case Clear
    then have "clear_step s = Some (Inr s')" using st by (simp add: shutdown_step_def unfaulted_Some)
    then show ?thesis by (rule shutdown_clear(1) [OF s])
  next
    case Stopper
    then have "stop_step s = Some s'" using st by (auto simp: shutdown_step_def unfaulted_Some)
    then show ?thesis
      using s by (auto simp: shutting_down_def shutdown_left_def stop_step_def split: stop_phase.splits if_splits)
  qed (use st in \<open>simp_all add: shutdown_step_def\<close>)
next
  fix s :: "'a pool_sys"
  assume s: "shutting_down s" "ps_stop s \<noteq> StDone"
  have stop: "tp_stop (ps_pool s)" using s by (simp add: shutting_down_def)
  show "\<exists>e s'. shutdown_step e s = Some s'"
  proof (cases "ps_clear s = ClDone")
    case False
    with shutdown_clear(2) [OF s(1)] show ?thesis
      by (intro exI [of _ Clear]) (auto simp: shutdown_step_def unfaulted_Some)
  next
    case True
    consider "ps_stop s = StJoinClear" | "ps_stop s = StJoinWorkers" "all_finished (ps_pool s)"
      | i where "i < length (tp_threads (ps_pool s))" "\<not> finished (tp_threads (ps_pool s) ! i)"
      using s by (cases "ps_stop s") (auto simp: shutting_down_def all_finished_def)
    then show ?thesis
    proof cases
      case 3
      from stopped_progress [OF stop 3] obtain e p where e: "worker_event e" "tp_step e (ps_pool s) = Some (Inr p)"
        by blast
      with stopped_dead [OF e(2) stop e(1)] show ?thesis
        by (intro exI [of _ "Worker e"] exI [of _ "s\<lparr>ps_pool := p\<rparr>"])
          (simp add: shutdown_step_def unfaulted_Some worker_sys_step_def)
    qed (use True in \<open>auto simp: shutdown_step_def unfaulted_Some stop_step_def intro!: exI [of _ Stopper]\<close>)
  qed
qed

section \<open>Properties\<close>

text \<open>
  C17. Whether \<open>Stop\<close> returns is decided by one race. At the moment it has set \<open>stop_\<close> and is about to
  notify: if the clearing thread has evaluated its predicate and not yet blocked, the notification is
  lost, the thread blocks and \<open>Stop\<close> never returns from joining it (short of a spurious wake-up). In
  every other case \<open>Stop\<close> returns: no schedule of the threads is longer than a bound, and until
  \<open>Stop\<close> has returned some thread can make a step.
\<close>

theorem pool_stop_outcome:
  assumes "sys_run es (new_sys garbage m n) = Some (Inr s)" "ps_stop s = StSet" "sys_step Stopper s = Some (Inr s1)"
  shows "if ps_clear s = ClBlock
    then \<forall>fs s2. Spurious \<notin> set fs \<longrightarrow> sys_run fs s1 = Some (Inr s2) \<longrightarrow> ps_stop s2 = StJoinClear
    else \<forall>fs s2. steps shutdown_step fs s1 = Some s2 \<longrightarrow>
      length fs \<le> 3 * length (tp_threads (ps_pool s)) + length (deadThreadQueue (ps_pool s)) + 6 \<and>
      (ps_stop s2 = StDone \<or> (\<exists>e s3. shutdown_step e s2 = Some s3))"
proof -
  have s1: "s1 = s\<lparr>ps_clear := notify_clear (ps_clear s), ps_stop := StJoinClear\<rparr>"
    using assms(2,3) by (simp add: stop_step_def)
  have stop: "tp_stop (ps_pool s)" by (rule stop_set [OF assms(1)]) (simp add: assms(2))
  show ?thesis
  proof (cases "ps_clear s = ClBlock")
    case True
    then have "hung s1" using stop by (simp add: s1 hung_def notify_clear_def)
    then have "ps_stop s2 = StJoinClear" if "Spurious \<notin> set fs" "sys_run fs s1 = Some (Inr s2)" for fs s2
      using hung_run [OF that(2) _ that(1)] by (simp add: hung_def)
    with True show ?thesis by simp
  next
    case False
    then have down: "shutting_down s1"
      using tp_inv_sys [OF assms(1)] stop by (simp add: s1 shutting_down_def notify_clear_def)
    have "clear_weight x \<le> 4" for x by (cases x) simp_all
    then have left: "shutdown_left s1 \<le> 3 * length (tp_threads (ps_pool s)) + length (deadThreadQueue (ps_pool s)) + 6"
      using work_left_bound [of "ps_pool s"]
      by (simp add: s1 shutdown_left_def) (metis add.commute add_le_mono)
    have "length fs \<le> shutdown_left s1 \<and> (ps_stop s2 = StDone \<or> (\<exists>e s3. shutdown_step e s2 = Some s3))"
      if "steps shutdown_step fs s1 = Some s2" for fs s2
      using shutdown.bounded [OF down that] shutdown.not_stuck [of s2] by auto
    with left False show ?thesis by fastforce
  qed
qed

text \<open>Both cases occur, with one worker and a clearing thread that is at its wait when \<open>Stop\<close> is called.\<close>

lemma stop_samples:
  "case sys_run [Clear, Clear, Stopper] (new_sys False 1 1 :: nat pool_sys) of
     Some (Inr s) \<Rightarrow> ps_stop s = StSet \<and> ps_clear s = ClBlock \<and>
       sys_step Stopper s = Some (Inr (s\<lparr>ps_stop := StJoinClear\<rparr>)) | _ \<Rightarrow> False"
  "case sys_run [Clear, Clear, Clear, Stopper] (new_sys False 1 1 :: nat pool_sys) of
     Some (Inr s) \<Rightarrow> ps_stop s = StSet \<and> ps_clear s = ClWait \<and>
       sys_step Stopper s = Some (Inr (s\<lparr>ps_clear := ClPred, ps_stop := StJoinClear\<rparr>)) | _ \<Rightarrow> False"
  by (simp_all add: new_sys_def clear_step_def stop_step_def new_pool_def Stop_def notify_clear_def)

theorem pool_stop_outcome_witness:
  "(\<exists>s1. \<forall>fs s2. Spurious \<notin> set fs \<longrightarrow> sys_run fs s1 = Some (Inr s2) \<longrightarrow> ps_stop (s2 :: nat pool_sys) = StJoinClear) \<and>
   (\<exists>s1. \<forall>fs s2. steps shutdown_step fs (s1 :: nat pool_sys) = Some s2 \<longrightarrow> ps_stop s2 = StDone \<or> (\<exists>e s3. shutdown_step e s2 = Some s3))"
proof (rule conjI)
  obtain s where s: "sys_run [Clear, Clear, Stopper] (new_sys False 1 1 :: nat pool_sys) = Some (Inr s)" "ps_stop s = StSet"
    "ps_clear s = ClBlock" "sys_step Stopper s = Some (Inr (s\<lparr>ps_stop := StJoinClear\<rparr>))"
    using stop_samples(1) unfolding case_Some_Inr by blast
  from pool_stop_outcome [OF s(1,2,4)] s(3)
  show "\<exists>s1. \<forall>fs s2. Spurious \<notin> set fs \<longrightarrow> sys_run fs s1 = Some (Inr s2) \<longrightarrow> ps_stop (s2 :: nat pool_sys) = StJoinClear"
    by (intro exI [of _ "s\<lparr>ps_stop := StJoinClear\<rparr>"]) simp
  obtain s where s: "sys_run [Clear, Clear, Clear, Stopper] (new_sys False 1 1 :: nat pool_sys) = Some (Inr s)" "ps_stop s = StSet"
    "ps_clear s = ClWait" "sys_step Stopper s = Some (Inr (s\<lparr>ps_clear := ClPred, ps_stop := StJoinClear\<rparr>))"
    using stop_samples(2) unfolding case_Some_Inr by blast
  from pool_stop_outcome [OF s(1,2,4)] s(3)
  show "\<exists>s1. \<forall>fs s2. steps shutdown_step fs (s1 :: nat pool_sys) = Some s2 \<longrightarrow> ps_stop s2 = StDone \<or> (\<exists>e s3. shutdown_step e s2 = Some s3)"
    by (intro exI [of _ "s\<lparr>ps_clear := ClPred, ps_stop := StJoinClear\<rparr>"]) simp
qed

end
