(* ===== verification/ServerRun.thy ===== *)
theory ServerRun
  imports RpcServer
begin

text \<open>
  A running \<open>RPCServer\<close>: the event loops, the pool of workers and the dispatcher together. One step
  is what one thread does between two points where another may run; a run is any interleaving of
  accepts, readable and writable events, wake-ups, timers, errors and moves of the workers. Every
  connection of the server is present, so the properties say what reaches the wire of each of them.
\<close>

section \<open>Sending and writing in the server's tables\<close>

text \<open>\<open>Connection\<close> objects live in \<open>objs\<close>, the kernel's interest lists in \<open>epolls\<close>, one per loop.\<close>

definition sv_put :: "nat \<Rightarrow> nat \<Rightarrow> 'k \<times> conn \<Rightarrow> 'k tcp_server \<Rightarrow> 'k tcp_server" where
  "sv_put i h = (\<lambda>(k, c) sv. sv\<lparr>epolls := (epolls sv)[i := k],
     objs := (objs sv)[h := (objs sv ! h)\<lparr>sc_conn := c\<rparr>]\<rparr>)"

text \<open>\<open>Connection::send\<close> of connection \<open>h\<close>; the task queued names the connection.\<close>

definition sv_send :: "'k epoll_ctl \<Rightarrow> bool \<Rightarrow> nat \<Rightarrow> string \<Rightarrow> 'k tcp_server \<Rightarrow> 'k tcp_server res" where
  "sv_send ctl inloopthread h data sv =
     (let c = sc_conn (objs sv ! h) in
      if disconnect c then Inr sv
      else bind_res (subloop_index sv (sv_fd h sv)) (\<lambda>i.
        if inloopthread then bind_res (sendinloop ctl data (epolls sv ! i, c)) (\<lambda>kc. Inr (sv_put i h kc sv))
        else Inr (sv\<lparr>subloops := (subloops sv)[i := queueinloop (h, data) (subloops sv ! i)]\<rparr>)))"

text \<open>The wake-up event of loop \<open>i\<close>: its tasks are calls of \<open>sendinloop\<close> on their connections.\<close>

definition run_send :: "'k epoll_ctl \<Rightarrow> nat \<times> string \<Rightarrow> 'k \<times> sconn list \<Rightarrow> ('k \<times> sconn list) res" where
  "run_send ctl = (\<lambda>(h, data) (k, os).
     if h < length os then
       bind_res (sendinloop ctl data (k, sc_conn (os ! h))) (\<lambda>(k', c).
       Inr (k', os[h := (os ! h)\<lparr>sc_conn := c\<rparr>]))
     else Inl BadRead)"

definition sv_wake :: "'k epoll_ctl \<Rightarrow> nat \<Rightarrow> 'k tcp_server \<Rightarrow> 'k tcp_server res" where
  "sv_wake ctl i sv =
     bind_res (handlewakeup (run_send ctl) (subloops sv ! i, epolls sv ! i, objs sv)) (\<lambda>(l, k, os).
     Inr (sv\<lparr>subloops := (subloops sv)[i := l], epolls := (epolls sv)[i := k], objs := os\<rparr>))"

text \<open>
  The writable event of connection \<open>h\<close>, where the socket has room for \<open>n\<close> bytes (\<open>Some n\<close>) or
  \<open>::send\<close> answers \<open>-1\<close>; the result is what went out. When the buffer is empty the fourth callback
  is called.
\<close>

definition sv_write :: "'k epoll_ctl \<Rightarrow> nat option \<Rightarrow> nat \<Rightarrow> 'k tcp_server \<Rightarrow> (string \<times> 'k tcp_server) res" where
  "sv_write ctl room h sv =
     bind_res (subloop_index sv (sv_fd h sv)) (\<lambda>i.
     let c = sc_conn (objs sv ! h); out = buffer_data (outputbuffer c); n = writen room out in
     bind_res (writecallback ctl n (epolls sv ! i, c)) (\<lambda>(fin, kc).
     if fin \<and> sc_installed (objs sv ! h) < 4 then Inl EmptyCall
     else Inr (take (nat n) out, sv_put i h kc sv)))"

section \<open>The server\<close>

text \<open>
  The two servers of the sources, \<open>RPCServer\<close> and \<open>EchoServer\<close>, own a \<open>TcpServer\<close> and a pool in the same
  way and differ in what \<open>OnMessage\<close> sends back. That is the parameter \<open>d\<close> below: for \<open>RPCServer\<close> it is
  \<open>answer\<close> of its registry, for \<open>EchoServer\<close> it is \<open>echo_answer\<close>.
\<close>

type_synonym 'w app = "string \<Rightarrow> 'w \<Rightarrow> (string \<times> 'w) res option"

text \<open>A task of the pool is a call of \<open>OnMessage\<close>: the connection and the copied message.\<close>

type_synonym task = "nat \<times> string"

text \<open>The log of the answers, for the statements: who asked what, the reply, and whether \<open>send\<close> took it.\<close>

record reply_entry =
  re_conn :: nat
  re_msg :: string
  re_out :: string
  re_sent :: bool

record ('k, 'w) rpc_server =
  tcp :: "'k tcp_server"
  workers :: "task pool"
  world :: 'w
  wires :: "nat \<Rightarrow> string"
  messages :: "task list"
  replies :: "reply_entry list"

definition rpc_server_over :: "'k tcp_server \<Rightarrow> nat \<Rightarrow> nat \<Rightarrow> 'w \<Rightarrow> ('k, 'w) rpc_server" where
  "rpc_server_over sv minthreads maxthreads w =
     \<lparr>tcp = sv, workers = new_pool minthreads maxthreads, world = w,
      wires = (\<lambda>_. []), messages = [], replies = []\<rparr>"

abbreviation new_rpc_server :: "int \<Rightarrow> nat \<Rightarrow> nat \<Rightarrow> (nat \<Rightarrow> 'k) \<Rightarrow> 'w \<Rightarrow> ('k, 'w) rpc_server" where
  "new_rpc_server io_threads minthreads maxthreads ks \<equiv> rpc_server_over (new_tcpserver io_threads ks) minthreads maxthreads"

text \<open>\<open>OnMessage\<close> for connection \<open>h\<close>; \<^const>\<open>None\<close> is a decoder that does not return.\<close>

definition server_OnMessage :: "'k epoll_ctl \<Rightarrow> 'w app \<Rightarrow> bool \<Rightarrow> task \<Rightarrow>
    ('k, 'w) rpc_server \<Rightarrow> ('k, 'w) rpc_server res option" where
  "server_OnMessage ctl d inloopthread = (\<lambda>(h, message) s.
     map_option (\<lambda>r. bind_res r (\<lambda>(out, w).
       bind_res (sv_send ctl inloopthread h out (tcp s)) (\<lambda>sv.
       Inr (s\<lparr>tcp := sv, world := w, replies := replies s @
         [\<lparr>re_conn = h, re_msg = message, re_out = out,
           re_sent = (\<not> disconnect (sc_conn (objs (tcp s) ! h)))\<rparr>]\<rparr>))))
     (d message (world s)))"

text \<open>The callback of a readable event: \<open>HandleMessage\<close> for each message, in order.\<close>

definition server_HandleMessage :: "'k epoll_ctl \<Rightarrow> 'w app \<Rightarrow> task \<Rightarrow>
    ('k, 'w) rpc_server \<Rightarrow> ('k, 'w) rpc_server res option" where
  "server_HandleMessage ctl d t s =
     map_option (\<lambda>r. bind_res r (\<lambda>(p, s'). Inr (s'\<lparr>workers := p\<rparr>)))
       (HandleMessage (server_OnMessage ctl d True t) t (workers s, s\<lparr>messages := messages s @ [t]\<rparr>))"

fun handle_messages :: "'k epoll_ctl \<Rightarrow> 'w app \<Rightarrow> nat \<Rightarrow> string list \<Rightarrow>
    ('k, 'w) rpc_server \<Rightarrow> ('k, 'w) rpc_server res option" where
  "handle_messages ctl d h [] s = Some (Inr s)"
| "handle_messages ctl d h (m # ms) s =
     (case server_HandleMessage ctl d (h, m) s of
        Some (Inr s') \<Rightarrow> handle_messages ctl d h ms s'
      | r \<Rightarrow> r)"

section \<open>Steps\<close>

definition out_of :: "'k tcp_server \<Rightarrow> nat \<Rightarrow> buffer" where
  "out_of sv h = outputbuffer (sc_conn (objs sv ! h))"

text \<open>
  Events: the kernel's answers are part of them. \<open>Move\<close> is a step of the pool other than taking
  the next task's end: a worker's test, its wait ending with a task or a timeout, \<open>Stop\<close>, the
  clearing thread. \<open>Done i\<close> is worker \<open>i\<close> coming to the end of \<open>task()\<close>. \<open>BrokenPipe h\<close> is a writable
  event whose \<open>::send\<close> meets a socket the peer has reset since \<open>epoll_wait\<close>: it has no
  \<open>MSG_NOSIGNAL\<close> and \<open>SIGPIPE\<close> is handled nowhere, so the signal ends the process.
\<close>

datatype srv_event =
    Accept int int
  | Readable nat int "recv_result list"
  | WritableEv nat "nat option"
  | BrokenPipe nat
  | LoopWake nat
  | Timer nat int
  | ErrorEv nat
  | Move "task tp_event"
  | Done nat

definition pool_move :: "task tp_event \<Rightarrow> bool" where
  "pool_move e \<longleftrightarrow> (case e of AddTask _ \<Rightarrow> False | Finish _ \<Rightarrow> False | _ \<Rightarrow> True)"

definition on_tcp :: "'k tcp_server res \<Rightarrow> ('k, 'w) rpc_server \<Rightarrow> ('k, 'w) rpc_server res option" where
  "on_tcp r s = Some (bind_res r (\<lambda>sv. Inr (s\<lparr>tcp := sv\<rparr>)))"

text \<open>\<^const>\<open>None\<close>: the event cannot happen in this state, or the code it starts does not return.\<close>

fun srv_step :: "'k epoll_ctl \<Rightarrow> 'w app \<Rightarrow> srv_event \<Rightarrow> ('k, 'w) rpc_server \<Rightarrow>
    ('k, 'w) rpc_server res option" where
  "srv_step ctl d (Accept now fd) s =
     (if 0 \<le> fd then on_tcp (bind_res (newconnction ctl now fd (tcp s)) (\<lambda>(h, sv). Inr sv)) s else None)"
| "srv_step ctl d (Readable h now rs) s =
     (if h < length (objs (tcp s)) then
        (case sv_read ctl now rs h (tcp s) of
           None \<Rightarrow> None
         | Some (Inl f) \<Rightarrow> Some (Inl f)
         | Some (Inr (ms, sv)) \<Rightarrow> handle_messages ctl d h ms (s\<lparr>tcp := sv\<rparr>))
      else None)"
| "srv_step ctl d (WritableEv h room) s =
     (if h < length (objs (tcp s)) then
        Some (bind_res (sv_write ctl room h (tcp s)) (\<lambda>(out, sv).
          Inr (s\<lparr>tcp := sv, wires := (wires s)(h := wires s h @ out)\<rparr>)))
      else None)"
| "srv_step ctl d (BrokenPipe h) s =
     (if h < length (objs (tcp s)) \<and> b_buf (out_of (tcp s) h) \<noteq> [] then Some (Inl Exit) else None)"
| "srv_step ctl d (LoopWake i) s =
     (if i < length (subloops (tcp s)) \<and> 0 < wakeups (subloops (tcp s) ! i) then on_tcp (sv_wake ctl i (tcp s)) s
      else None)"
| "srv_step ctl d (Timer i now) s =
     (if i < length (subloops (tcp s)) then Some (Inr (s\<lparr>tcp := sv_timer now i (tcp s)\<rparr>)) else None)"
| "srv_step ctl d (ErrorEv h) s =
     (if h < length (objs (tcp s)) then on_tcp (sv_error ctl h (tcp s)) s else None)"
| "srv_step ctl d (Move e) s =
     (if pool_move e then
        map_option (\<lambda>r. bind_res r (\<lambda>p. Inr (s\<lparr>workers := p\<rparr>))) (tp_step e (workers s))
      else None)"
| "srv_step ctl d (Done i) s =
     (if at_phase is_running i (workers s) then
        (case running_task (tp_threads (workers s) ! i) of
           None \<Rightarrow> Some (Inr (s\<lparr>workers := tp_finish i (workers s)\<rparr>))
         | Some t \<Rightarrow> map_option (\<lambda>r. bind_res r (\<lambda>s'. Inr (s'\<lparr>workers := tp_finish i (workers s')\<rparr>)))
             (server_OnMessage ctl d False t s))
      else None)"

fun srv_run :: "'k epoll_ctl \<Rightarrow> 'w app \<Rightarrow> srv_event list \<Rightarrow> ('k, 'w) rpc_server \<Rightarrow>
    ('k, 'w) rpc_server res option" where
  "srv_run ctl d [] s = Some (Inr s)"
| "srv_run ctl d (e # es) s =
     (case srv_step ctl d e s of
        Some (Inr s') \<Rightarrow> srv_run ctl d es s'
      | r \<Rightarrow> r)"

lemma bind_assoc: "bind_res (bind_res r f) g = bind_res r (\<lambda>x. bind_res (f x) g)"
  by (cases r) simp_all

section \<open>What reaches a connection\<close>

definition loop_of :: "'k tcp_server \<Rightarrow> nat \<Rightarrow> nat" where
  "loop_of sv h = nat (sv_fd h sv mod threadnum sv)"

definition queue_of :: "'k tcp_server \<Rightarrow> nat \<Rightarrow> task list" where
  "queue_of sv i = taskqueue (subloops sv ! i)"

definition posted_to :: "nat \<Rightarrow> task list \<Rightarrow> string" where
  "posted_to h ts = concat (map snd (filter (\<lambda>t. fst t = h) ts))"

text \<open>What was sent to connection \<open>h\<close> and is on its wire, in its buffer or in its loop's queue.\<close>

definition flow :: "'k tcp_server \<Rightarrow> (nat \<Rightarrow> string) \<Rightarrow> nat \<Rightarrow> string" where
  "flow sv ws h = ws h @
     (if h < length (objs sv) then b_buf (out_of sv h) @ posted_to h (queue_of sv (loop_of sv h)) else [])"

text \<open>Tasks name connections of their loop, and a loop with tasks has a wake-up pending.\<close>

definition tasks_ok :: "'k tcp_server \<Rightarrow> bool" where
  "tasks_ok sv \<longleftrightarrow> (\<forall>i < length (subloops sv). \<forall>t \<in> set (queue_of sv i).
     fst t < length (objs sv) \<and> loop_of sv (fst t) = i) \<and>
     (\<forall>i < length (subloops sv). queue_of sv i \<noteq> [] \<longrightarrow> 0 < wakeups (subloops sv ! i))"

definition sv_ok :: "'k tcp_server \<Rightarrow> bool" where
  "sv_ok sv \<longleftrightarrow> sv_inv sv \<and> tasks_ok sv \<and> (\<forall>h < length (objs sv). b_sep (out_of sv h) = 0)"

lemma posted_to_simps [simp]:
  "posted_to h [] = []" "posted_to h (t # ts) = (if fst t = h then snd t else []) @ posted_to h ts"
  "posted_to h (ts @ us) = posted_to h ts @ posted_to h us"
  by (simp_all add: posted_to_def)

lemma posted_to_none: "\<forall>t \<in> set ts. fst t \<noteq> h \<Longrightarrow> posted_to h ts = []"
  by (induction ts) auto

text \<open>The invariant of the tables looks at descriptors and tables only.\<close>

lemma sv_inv_cong:
  assumes "sv_inv sv" "threadnum sv' = threadnum sv" "sv_conns sv' = sv_conns sv"
    and "length (subloops sv') = length (subloops sv)" "length (epolls sv') = length (epolls sv)"
    and "length (objs sv') = length (objs sv)"
    and "\<And>i. i < length (subloops sv) \<Longrightarrow> mainloop (subloops sv' ! i) = mainloop (subloops sv ! i) \<and>
      el_conns (subloops sv' ! i) = el_conns (subloops sv ! i)"
    and "\<And>h. h < length (objs sv) \<Longrightarrow> sv_fd h sv' = sv_fd h sv"
  shows "sv_inv sv'"
proof -
  have n: "nat (fd mod threadnum sv) < length (subloops sv)" for fd
    using assms(1) by (simp add: sv_inv_def)
  have "handle_ok sv' = handle_ok sv"
    using assms(6,8) by (intro ext) (auto simp: handle_ok_def)
  moreover have "loop_find sv' = loop_find sv"
    using assms(2,7) n by (intro ext) (simp add: loop_find_def)
  ultimately show ?thesis
    using assms unfolding sv_inv_def by simp
qed

text \<open>Steps that touch neither the output buffers nor the queues of tasks.\<close>

definition same_out :: "'k tcp_server \<Rightarrow> 'k tcp_server \<Rightarrow> bool" where
  "same_out sv sv' \<longleftrightarrow> threadnum sv' = threadnum sv \<and> length (subloops sv') = length (subloops sv) \<and>
     length (objs sv') = length (objs sv) \<and> (\<forall>i < length (subloops sv). queue_of sv' i = queue_of sv i \<and>
       wakeups (subloops sv' ! i) = wakeups (subloops sv ! i)) \<and>
     (\<forall>h < length (objs sv). out_of sv' h = out_of sv h \<and> sv_fd h sv' = sv_fd h sv)"

lemma loop_of_less: "sv_inv sv \<Longrightarrow> loop_of sv h < length (subloops sv)"
  by (simp add: loop_of_def sv_inv_def)

lemma same_out_ok:
  assumes "same_out sv sv'" "sv_ok sv" "sv_inv sv'"
  shows "sv_ok sv'" "flow sv' = flow sv" "\<And>i. i < length (subloops sv) \<Longrightarrow> queue_of sv' i = queue_of sv i"
proof -
  have l: "loop_of sv' h = loop_of sv h" if "h < length (objs sv)" for h
    using assms(1) that by (simp add: loop_of_def same_out_def)
  show "sv_ok sv'"
    using assms l by (auto simp: sv_ok_def tasks_ok_def same_out_def)
  show "flow sv' = flow sv"
    using assms(1,2) l loop_of_less [of sv] by (intro ext) (auto simp: flow_def same_out_def sv_ok_def)
qed (use assms(1) in \<open>simp add: same_out_def\<close>)

lemma same_out_refl: "same_out sv sv"
  by (simp add: same_out_def)

lemma same_out_trans: "same_out sv sv1 \<Longrightarrow> same_out sv1 sv2 \<Longrightarrow> same_out sv sv2"
  by (simp add: same_out_def)

lemma same_out_put:
  assumes "c_fd c = sv_fd h sv" "outputbuffer c = out_of sv h" "length ks = length (epolls sv)"
  shows "same_out sv (sv\<lparr>epolls := ks, objs := (objs sv)[h := (objs sv ! h)\<lparr>sc_conn := c\<rparr>]\<rparr>)"
  using assms by (auto simp: same_out_def queue_of_def out_of_def sv_fd_def nth_update_if)

lemma same_out_close:
  assumes "sv_closeconnection h sv = Inr sv'"
  shows "same_out sv sv'"
  using assms by (auto simp: sv_closeconnection_def bind_res_Inr Let_def same_out_def queue_of_def
      out_of_def sv_fd_def nth_update_if el_closeconnection_def)

lemma onmessage_out:
  "onmessagecallback ctl now rs kc = Some (Inr (e, msgs, k', c')) \<Longrightarrow> outputbuffer c' = outputbuffer (snd kc)"
proof (induction ctl now rs kc rule: onmessagecallback.induct)
  case (2 ctl now d rs k c)
  then show ?case
    by (auto simp: bind_res_Inr conn_closecallback_def on_channel_def split: if_splits)
next
  case (4 ctl now rs k c)
  then show ?case by (auto simp: bind_res_Inr)
qed (auto simp: bind_res_Inr)

lemma subloop_index_inv:
  assumes "sv_inv sv" "h < length (objs sv)"
  shows "subloop_index sv (sv_fd h sv) = Inr (loop_of sv h)" "loop_of sv h < length (subloops sv)"
    "loop_of sv h < length (epolls sv)"
  using assms subloop_index_ok [of sv "sv_fd h sv"] by (simp_all add: sv_inv_def loop_of_def)

lemma read_ok:
  assumes "sv_ok sv" "h < length (objs sv)" "sv_read ctl now rs h sv = Some (Inr (ms, sv'))"
  shows "sv_inv sv' \<and> same_out sv sv'"
proof -
  have inv: "sv_inv sv" using assms(1) by (simp add: sv_ok_def)
  note i = subloop_index_inv [OF inv assms(2)]
  obtain e k c where r: "onmessagecallback ctl now rs (epolls sv ! loop_of sv h, sc_conn (objs sv ! h)) =
      Some (Inr (e, ms, k, c))"
    and sv': "let sv1 = sv\<lparr>epolls := (epolls sv)[loop_of sv h := k],
        objs := (objs sv)[h := (objs sv ! h)\<lparr>sc_conn := c\<rparr>]\<rparr>
      in sv' = sv1 \<or> sv_closeconnection h sv1 = Inr sv'"
    using assms(3) i(1) by (auto simp: sv_read_def Let_def bind_res_Inr split: if_splits)
  have c: "c_fd c = sv_fd h sv" "outputbuffer c = out_of sv h"
    using onmessage_fd [OF r] onmessage_out [OF r] by (simp_all add: sv_fd_def out_of_def)
  let ?sv1 = "sv\<lparr>epolls := (epolls sv)[loop_of sv h := k],
      objs := (objs sv)[h := (objs sv ! h)\<lparr>sc_conn := c\<rparr>]\<rparr>"
  have 1: "sv_inv ?sv1" "same_out sv ?sv1"
    using sv_inv_objs(1) [OF inv _ c(1)] same_out_put [OF c] by simp_all
  have "h < length (objs ?sv1)" using assms(2) by simp
  from sv_inv_close [OF 1(1) this] have "sv_inv sv'" if "sv_closeconnection h ?sv1 = Inr sv'"
    using that by auto
  then show ?thesis
    using sv' 1 same_out_trans [OF 1(2) same_out_close, of h sv'] by (auto simp: Let_def)
qed

lemma error_ok:
  assumes "sv_ok sv" "sv_error ctl h sv = Inr sv'"
  shows "sv_inv sv' \<and> same_out sv sv'"
proof -
  obtain i k c where i: "conn_errorcallback ctl (epolls sv ! i, sc_conn (objs sv ! h)) = Inr (k, c)"
    and sv': "sv' = sv_errorconnection h (sv\<lparr>epolls := (epolls sv)[i := k],
      objs := (objs sv)[h := (objs sv ! h)\<lparr>sc_conn := c\<rparr>]\<rparr>)" (is "_ = sv_errorconnection h ?sv1")
    using assms(2) by (auto simp: sv_error_def bind_res_Inr Let_def split: if_splits)
  have c: "c_fd c = sv_fd h sv" "outputbuffer c = out_of sv h"
    using i by (auto simp: conn_errorcallback_def on_channel_def sv_fd_def out_of_def bind_res_Inr)
  have "sv_inv ?sv1" "same_out sv ?sv1"
    using sv_inv_objs(1) [OF _ _ c(1)] same_out_put [OF c] assms(1) by (simp_all add: sv_ok_def)
  moreover have "same_out ?sv1 sv'"
    by (simp add: sv' sv_errorconnection_def same_out_def queue_of_def out_of_def sv_fd_def)
  ultimately show ?thesis using sv_inv_error(1) same_out_trans by (simp add: sv', blast)
qed

lemma timer_ok:
  assumes "sv_ok sv" "i < length (subloops sv)"
  shows "sv_inv (sv_timer now i sv) \<and> same_out sv (sv_timer now i sv)"
proof -
  have inv: "sv_inv sv" using assms(1) by (simp add: sv_ok_def)
  have i: "i < nat (threadnum sv)" using inv assms(2) by (simp add: sv_inv_def)
  obtain fds l where h: "handletimer (\<lambda>lim h. conn_timeout now lim (sc_conn (objs sv ! h))) (subloops sv ! i) = (fds, l)"
    by fastforce
  then have l: "taskqueue l = taskqueue (subloops sv ! i)" "wakeups l = wakeups (subloops sv ! i)"
    by (auto simp: handletimer_def Let_def split: if_splits prod.splits)
  have "sv_timer now i sv = sv\<lparr>subloops := (subloops sv)[i := l], sv_conns := fold smap_erase fds (sv_conns sv)\<rparr>"
    by (simp add: sv_timer_def h removeconnection_fold)
  then have "same_out sv (sv_timer now i sv)"
    by (simp add: same_out_def queue_of_def out_of_def sv_fd_def nth_update_if l)
  with sv_timer_inv [OF inv i] show ?thesis by blast
qed

text \<open>A new object starts with an empty buffer and no task names it.\<close>

lemma accept_ok:
  assumes "sv_ok sv" "0 \<le> fd" "newconnction ctl now fd sv = Inr (h, sv')"
  shows "sv_ok sv' \<and> flow sv' = flow sv \<and> length (objs sv') = Suc (length (objs sv)) \<and>
    length (subloops sv') = length (subloops sv) \<and> (\<forall>i < length (subloops sv). queue_of sv' i = queue_of sv i) \<and>
    (\<exists>c. objs sv' = objs sv @ [\<lparr>sc_conn = c, sc_installed = 4\<rparr>])"
proof -
  have inv: "sv_inv sv" using assms(1) by (simp add: sv_ok_def)
  have th: "0 < threadnum sv" "length (subloops sv) = nat (threadnum sv)"
    using inv by (simp_all add: sv_inv_def)
  note i = subloop_index_ok(1) [OF th assms(2)]
  obtain k c where kc: "new_connection ctl fd now (epolls sv ! nat (fd mod threadnum sv)) = Inr (k, c)"
    using assms(3) i by (auto simp: newconnction_def sv_construct_def bind_res_Inr)
  from sv_inv_newconnction [OF inv assms(2) kc] assms(3) have
    inv': "sv_inv sv'" and objs: "objs sv' = objs sv @ [\<lparr>sc_conn = c, sc_installed = 4\<rparr>]"
    and th': "threadnum sv' = threadnum sv"
    by auto
  have c: "outputbuffer c = new_buffer_sep 0"
    using kc by (auto simp: new_connection_def bind_res_Inr)
  have len: "length (subloops sv') = length (subloops sv)"
    using inv' th' th(2) by (simp add: sv_inv_def)
  have q: "queue_of sv' j = queue_of sv j" "wakeups (subloops sv' ! j) = wakeups (subloops sv ! j)" for j
    using assms(3) i
    by (auto simp: newconnction_def sv_construct_def sv_publish_def sv_install_def queue_of_def
        bind_res_Inr Let_def el_newconnection_def nth_update_if)
  have old: "out_of sv' h = out_of sv h" "loop_of sv' h = loop_of sv h" if "h < length (objs sv)" for h
    using that th' by (simp_all add: out_of_def loop_of_def sv_fd_def objs nth_append)
  have new: "out_of sv' (length (objs sv)) = new_buffer_sep 0"
    using c by (simp add: out_of_def objs)
  have t: "tasks_ok sv" using assms(1) by (simp add: sv_ok_def)
  have "fst x < length (objs sv') \<and> loop_of sv' (fst x) = j" if "j < length (subloops sv)" "x \<in> set (queue_of sv j)" for j x
  proof -
    have "fst x < length (objs sv)" "loop_of sv (fst x) = j" using t that unfolding tasks_ok_def by blast+
    then show ?thesis using old(2) by (simp add: objs)
  qed
  then have "tasks_ok sv'" using t by (simp add: tasks_ok_def len q)
  moreover have "b_sep (out_of sv' h) = 0" if "h < length (objs sv')" for h
    using that old(1) new assms(1) by (cases "h = length (objs sv)") (auto simp: objs sv_ok_def new_buffer_sep_def)
  moreover have "posted_to (length (objs sv)) (queue_of sv (loop_of sv' (length (objs sv)))) = []"
    using t loop_of_less [OF inv', of "length (objs sv)"] by (intro posted_to_none) (fastforce simp: tasks_ok_def len)
  then have "flow sv' ws h = flow sv ws h" for ws h
    using old new by (cases "h = length (objs sv)") (auto simp: flow_def objs q new_buffer_sep_def)
  then have "flow sv' = flow sv" by (intro ext)
  ultimately show ?thesis using inv' len q by (simp add: sv_ok_def objs)
qed

text \<open>\<open>send\<close> adds to the end of what the connection is owed.\<close>

definition sent_by :: "'k tcp_server \<Rightarrow> nat \<Rightarrow> string \<Rightarrow> string" where
  "sent_by sv h data = (if disconnect (sc_conn (objs sv ! h)) then [] else data)"

lemma sendinloop_out:
  assumes "sendinloop ctl data (k, c) = Inr (k', c')" "b_sep (outputbuffer c) = 0"
  shows "b_buf (outputbuffer c') = b_buf (outputbuffer c) @ data" "b_sep (outputbuffer c') = 0" "c_fd c' = c_fd c"
  using assms by (auto simp: sendinloop_def on_channel_def bind_res_Inr appendwithsep_def)

lemma put_sels [simp]:
  "subloops (sv_put i h kc sv) = subloops sv" "threadnum (sv_put i h kc sv) = threadnum sv"
  "length (objs (sv_put i h kc sv)) = length (objs sv)" "sv_conns (sv_put i h kc sv) = sv_conns sv"
  by (simp_all add: sv_put_def case_prod_unfold)

lemma put_ok:
  assumes "sv_ok sv" "h < length (objs sv)" "i = loop_of sv h" "c_fd c = sv_fd h sv" "b_sep (outputbuffer c) = 0"
  shows "sv_ok (sv_put i h (k, c) sv)"
    "flow (sv_put i h (k, c) sv) ws h' = (if h' = h then ws h @ b_buf (outputbuffer c) @ posted_to h (queue_of sv i)
       else flow sv ws h')"
    "length (objs (sv_put i h (k, c) sv)) = length (objs sv)" "subloops (sv_put i h (k, c) sv) = subloops sv"
proof -
  let ?sv = "sv_put i h (k, c) sv"
  have inv: "sv_inv sv" using assms(1) by (simp add: sv_ok_def)
  have "sv_inv ?sv"
    using sv_inv_objs(1) [OF inv _ assms(4), of "(epolls sv)[i := k]"] by (simp add: sv_put_def)
  moreover have fd: "sv_fd h' ?sv = sv_fd h' sv" for h'
    using assms(4) by (auto simp: sv_put_def sv_fd_def nth_update_if)
  moreover have out: "out_of ?sv h' = (if h' = h then outputbuffer c else out_of sv h')" if "h' < length (objs sv)" for h'
    using that by (simp add: sv_put_def out_of_def nth_update_if)
  moreover have "tasks_ok ?sv"
    using assms(1) fd by (fastforce simp: sv_ok_def tasks_ok_def loop_of_def queue_of_def put_sels)
  ultimately show "sv_ok ?sv"
    using assms(1,5) by (simp add: sv_ok_def put_sels)
  show "flow ?sv ws h' = (if h' = h then ws h @ b_buf (outputbuffer c) @ posted_to h (queue_of sv i) else flow sv ws h')"
    using assms(2,3) fd out [of h'] by (cases "h' < length (objs sv)")
      (auto simp: flow_def loop_of_def queue_of_def)
qed (simp_all add: put_sels)

lemma send_ok:
  assumes "sv_ok sv" "h < length (objs sv)" "sv_send ctl inloop h data sv = Inr sv'"
    and "inloop \<Longrightarrow> queue_of sv (loop_of sv h) = []"
  shows "sv_ok sv' \<and> length (objs sv') = length (objs sv) \<and> length (subloops sv') = length (subloops sv) \<and>
    (inloop \<longrightarrow> (\<forall>i < length (subloops sv). queue_of sv' i = queue_of sv i)) \<and>
    (\<forall>h'. flow sv' ws h' = flow sv ws h' @ (if h' = h then sent_by sv h data else []))"
proof -
  have inv: "sv_inv sv" using assms(1) by (simp add: sv_ok_def)
  note i = subloop_index_inv [OF inv assms(2)]
  let ?c = "sc_conn (objs sv ! h)"
  have sep: "b_sep (outputbuffer ?c) = 0" using assms(1,2) by (simp add: sv_ok_def out_of_def)
  consider (closed) "disconnect ?c" "sv' = sv"
    | (inloop) k c where "\<not> disconnect ?c" "inloop" "sendinloop ctl data (epolls sv ! loop_of sv h, ?c) = Inr (k, c)"
        "sv' = sv_put (loop_of sv h) h (k, c) sv"
    | (queued) "\<not> disconnect ?c" "\<not> inloop"
        "sv' = sv\<lparr>subloops := (subloops sv)[loop_of sv h := queueinloop (h, data) (subloops sv ! loop_of sv h)]\<rparr>"
    using assms(3) i(1) by (auto simp: sv_send_def bind_res_Inr Let_def split: if_splits)
  then show ?thesis
  proof cases
    case closed
    then show ?thesis using assms(1) by (simp add: sent_by_def)
  next
    case inloop
    note c = sendinloop_out [OF inloop(3) sep]
    have fd: "c_fd c = sv_fd h sv" using c(3) by (simp add: sv_fd_def)
    note p = put_ok [OF assms(1,2) refl fd c(2), of k]
    show ?thesis
      using p inloop(1) assms(4) [OF inloop(2)] c(1) assms(2) unfolding inloop(4)
      by (auto simp: sent_by_def queue_of_def flow_def out_of_def)
  next
    case queued
    let ?ls = "(subloops sv)[loop_of sv h := queueinloop (h, data) (subloops sv ! loop_of sv h)]"
    have q: "queue_of sv' j = queue_of sv j @ (if j = loop_of sv h then [(h, data)] else [])"
        "0 < wakeups (subloops sv ! j) \<or> j = loop_of sv h \<Longrightarrow> 0 < wakeups (subloops sv' ! j)"
      if "j < length (subloops sv)" for j
      using that by (auto simp: queued(3) queue_of_def nth_update_if queueinloop_def wakeup_def)
    have l: "loop_of sv' = loop_of sv" by (simp add: queued(3) loop_of_def [abs_def] sv_fd_def)
    have "sv_inv sv'"
      by (rule sv_inv_cong [OF inv])
        (auto simp: queued(3) nth_update_if queueinloop_def wakeup_def sv_fd_def)
    moreover have "fst t < length (objs sv') \<and> loop_of sv' (fst t) = j"
      if "j < length (subloops sv')" "t \<in> set (queue_of sv' j)" for j t
    proof -
      have j: "j < length (subloops sv)" using that(1) by (simp add: queued(3))
      with that(2) have "t \<in> set (queue_of sv j) \<or> j = loop_of sv h \<and> t = (h, data)"
        by (auto simp: q split: if_splits)
      then have "fst t < length (objs sv) \<and> loop_of sv (fst t) = j"
        using assms(1,2) j unfolding sv_ok_def tasks_ok_def by auto
      then show ?thesis unfolding l by (simp add: queued(3))
    qed
    moreover have "0 < wakeups (subloops sv' ! j)" if "j < length (subloops sv')" "queue_of sv' j \<noteq> []" for j
    proof -
      have j: "j < length (subloops sv)" using that(1) by (simp add: queued(3))
      with that(2) have "queue_of sv j \<noteq> [] \<or> j = loop_of sv h" by (auto simp: q(1) split: if_splits)
      then have "0 < wakeups (subloops sv ! j) \<or> j = loop_of sv h"
        using assms(1) j by (auto simp: sv_ok_def tasks_ok_def)
      then show ?thesis by (rule q(2) [OF j])
    qed
    ultimately have t: "sv_inv sv'" "tasks_ok sv'" by (simp_all add: tasks_ok_def)
    have out: "out_of sv' = out_of sv" by (simp add: queued(3) out_of_def [abs_def])
    have "flow sv' ws h' = flow sv ws h' @ (if h' = h then data else [])" for h'
      using out q(1) [OF loop_of_less [OF inv], of h'] l assms(2)
      by (auto simp: flow_def) (auto simp: queued(3))
    with out t show ?thesis
      using assms(1) queued(1,2) by (simp add: sv_ok_def sent_by_def) (simp add: queued(3))
  qed
qed

text \<open>The tasks of one loop, run in order, on the objects of the server.\<close>

lemma run_send_out:
  assumes "run_tasks (run_send ctl) ts (k, os) = Inr (k', os')" "\<forall>h < length os. b_sep (outputbuffer (sc_conn (os ! h))) = 0"
  shows "length os' = length os \<and> (\<forall>h < length os. b_sep (outputbuffer (sc_conn (os' ! h))) = 0 \<and>
    c_fd (sc_conn (os' ! h)) = c_fd (sc_conn (os ! h)) \<and>
    b_buf (outputbuffer (sc_conn (os' ! h))) = b_buf (outputbuffer (sc_conn (os ! h))) @ posted_to h ts)"
  using assms
proof (induction ts arbitrary: k os)
  case (Cons t ts)
  obtain h d where t: "t = (h, d)" by fastforce
  from Cons.prems(1) obtain k1 c where h: "h < length os"
    and c: "sendinloop ctl d (k, sc_conn (os ! h)) = Inr (k1, c)"
    and r: "run_tasks (run_send ctl) ts (k1, os[h := (os ! h)\<lparr>sc_conn := c\<rparr>]) = Inr (k', os')"
    by (auto simp: t run_send_def bind_res_Inr split: if_splits)
  note o = sendinloop_out [OF c Cons.prems(2) [rule_format, OF h]]
  let ?os = "os[h := (os ! h)\<lparr>sc_conn := c\<rparr>]"
  have "\<forall>h < length ?os. b_sep (outputbuffer (sc_conn (?os ! h))) = 0"
    using Cons.prems(2) o by (simp add: nth_update_if)
  from Cons.IH [OF r this] show ?case
    using o by (auto simp: t nth_update_if)
qed simp

lemma wake_ok:
  assumes "sv_ok sv" "i < length (subloops sv)" "sv_wake ctl i sv = Inr sv'"
  shows "sv_ok sv' \<and> flow sv' = flow sv \<and> length (objs sv') = length (objs sv) \<and>
    length (subloops sv') = length (subloops sv) \<and>
    (\<forall>j < length (subloops sv). queue_of sv' j = (if j = i then [] else queue_of sv j))"
proof -
  have inv: "sv_inv sv" using assms(1) by (simp add: sv_ok_def)
  let ?l = "subloops sv ! i"
  obtain k os where r: "run_tasks (run_send ctl) (queue_of sv i) (epolls sv ! i, objs sv) = Inr (k, os)"
    and sv': "sv' = sv\<lparr>subloops := (subloops sv)[i := ?l\<lparr>wakeups := 0, taskqueue := []\<rparr>],
      epolls := (epolls sv)[i := k], objs := os\<rparr>"
    using assms(3) by (auto simp: sv_wake_def handlewakeup_def queue_of_def bind_res_Inr)
  have "\<forall>h < length (objs sv). b_sep (outputbuffer (sc_conn (objs sv ! h))) = 0"
    using assms(1) by (simp add: sv_ok_def out_of_def)
  note o = run_send_out [OF r this]
  have q: "queue_of sv' j = (if j = i then [] else queue_of sv j)"
      "j \<noteq> i \<Longrightarrow> wakeups (subloops sv' ! j) = wakeups (subloops sv ! j)" if "j < length (subloops sv)" for j
    using that by (simp_all add: sv' queue_of_def nth_update_if)
  have out: "b_buf (out_of sv' h) = b_buf (out_of sv h) @ posted_to h (queue_of sv i)"
      "b_sep (out_of sv' h) = 0" "sv_fd h sv' = sv_fd h sv" if "h < length (objs sv)" for h
    using o that by (simp_all add: sv' out_of_def sv_fd_def)
  have len: "length (objs sv') = length (objs sv)" "length (subloops sv') = length (subloops sv)"
    "threadnum sv' = threadnum sv"
    using o by (simp_all add: sv')
  have "sv_inv sv'"
    by (rule sv_inv_cong [OF inv]) (use len out in \<open>auto simp: sv' nth_update_if\<close>)
  moreover have l: "loop_of sv' h = loop_of sv h" if "h < length (objs sv)" for h
    using out(3) [OF that] len by (simp add: loop_of_def)
  have t: "tasks_ok sv" using assms(1) by (simp add: sv_ok_def)
  then have "tasks_ok sv'"
    using l q unfolding tasks_ok_def len by (auto split: if_splits)
  moreover have "flow sv' ws h = flow sv ws h" for ws h
  proof (cases "h < length (objs sv)")
    case True
    have "posted_to h (queue_of sv i) = []" if "loop_of sv h \<noteq> i"
      using t that assms(2) by (intro posted_to_none) (auto simp: tasks_ok_def)
    then show ?thesis
      using True out(1) l q [OF loop_of_less [OF inv], of h] len by (simp add: flow_def)
  qed (simp add: flow_def len)
  ultimately show ?thesis using out len q by (auto simp: sv_ok_def)
qed

lemma write_ok:
  assumes "sv_ok sv" "h < length (objs sv)" "sv_write ctl room h sv = Inr (out, sv')"
  shows "sv_ok sv' \<and> length (objs sv') = length (objs sv) \<and> subloops sv' = subloops sv \<and>
    flow sv' (ws(h := ws h @ out)) = flow sv ws"
proof -
  have inv: "sv_inv sv" using assms(1) by (simp add: sv_ok_def)
  note i = subloop_index_inv [OF inv assms(2)]
  let ?c = "sc_conn (objs sv ! h)" and ?b = "b_buf (out_of sv h)"
  let ?n = "writen room ?b"
  obtain fin k c where w: "writecallback ctl ?n (epolls sv ! loop_of sv h, ?c) = Inr (fin, k, c)"
    and r: "out = take (nat ?n) ?b" "sv' = sv_put (loop_of sv h) h (k, c) sv"
    using assms(3) i(1) by (auto simp: sv_write_def bind_res_Inr Let_def buffer_data_def out_of_def split: if_splits)
  have e: "(if ?n > 0 then buffer_erase (out_of sv h) 0 ?n else Inr (out_of sv h)) =
      Inr (out_of sv h\<lparr>b_buf := drop (nat ?n) ?b\<rparr>)"
    unfolding erase_writen by (cases room) (simp_all add: writen_def min_def)
  have c: "b_buf (outputbuffer c) = drop (nat ?n) ?b" "b_sep (outputbuffer c) = b_sep (out_of sv h)" "c_fd c = sv_fd h sv"
    using w e by (auto simp: writecallback_def out_of_def [symmetric] bind_res_Inr Let_def on_channel_def
        sv_fd_def split: if_splits)
  have sep: "b_sep (outputbuffer c) = 0" using c(2) assms(1,2) by (simp add: sv_ok_def)
  note p = put_ok [OF assms(1,2) refl c(3) sep, of k]
  have "flow sv' (ws(h := ws h @ out)) h' = flow sv ws h'" for h'
    using p(2) [of "ws(h := ws h @ out)" h'] c(1) assms(2) by (auto simp: r flow_def)
  then show ?thesis using p(1,3,4) by (auto simp: r)
qed

section \<open>The invariant of a run\<close>

definition entry_task :: "reply_entry \<Rightarrow> task" where
  "entry_task r = (re_conn r, re_msg r)"

text \<open>All bytes handed to \<open>send\<close> for connection \<open>h\<close> while it was connected.\<close>

definition owed :: "reply_entry list \<Rightarrow> nat \<Rightarrow> string" where
  "owed rs h = concat (map re_out (filter (\<lambda>r. re_conn r = h \<and> re_sent r) rs))"

text \<open>The answers to a sequence of messages, one after the other on the same world.\<close>

fun answers :: "'w app \<Rightarrow> string list \<Rightarrow> 'w \<Rightarrow> (string list \<times> 'w) res option" where
  "answers d [] w = Some (Inr ([], w))"
| "answers d (m # ms) w =
     (case d m w of
        Some (Inr (out, w1)) \<Rightarrow> map_option (\<lambda>r. bind_res r (\<lambda>(outs, w2). Inr (out # outs, w2))) (answers d ms w1)
      | Some (Inl f) \<Rightarrow> Some (Inl f)
      | None \<Rightarrow> None)"

definition core_inv :: "'w app \<Rightarrow> 'w \<Rightarrow> ('k, 'w) rpc_server \<Rightarrow> bool" where
  "core_inv d w0 s \<longleftrightarrow> sv_ok (tcp s) \<and> flow (tcp s) (wires s) = owed (replies s) \<and>
     answers d (map re_msg (replies s)) w0 = Some (Inr (map re_out (replies s), world s))"

definition srv_inv :: "'w app \<Rightarrow> 'w \<Rightarrow> ('k, 'w) rpc_server \<Rightarrow> bool" where
  "srv_inv d w0 s \<longleftrightarrow> core_inv d w0 s \<and> tp_inv (workers s) \<and>
     mset (messages s) = mset (map entry_task (replies s)) + mset (tp_queue (workers s)) + running (workers s) \<and>
     (\<forall>t \<in> set (messages s). fst t < length (objs (tcp s))) \<and>
     (minThreadnum (workers s) = 0 \<longrightarrow> tp_threads (workers s) = [] \<and>
       (\<forall>i < length (subloops (tcp s)). queue_of (tcp s) i = []))"

lemma answers_snoc:
  assumes "answers d ms w0 = Some (Inr (outs, w))" "d m w = Some (Inr (out, w'))"
  shows "answers d (ms @ [m]) w0 = Some (Inr (outs @ [out], w'))"
  using assms(1)
proof (induction ms arbitrary: w0 outs)
  case (Cons a ms)
  then show ?case
    by (auto simp: bind_res_Inr split: option.splits sum.splits)
qed (simp add: assms(2))

lemma owed_snoc: "owed (rs @ [r]) h = owed rs h @ (if re_conn r = h \<and> re_sent r then re_out r else [])"
  by (simp add: owed_def)

lemma running_cong: "tp_threads p' = tp_threads p \<Longrightarrow> running p' = running p"
  by (simp add: running_def)

lemma OnMessage_core:
  assumes "core_inv d w0 s" "h < length (objs (tcp s))" "server_OnMessage ctl d inloop (h, m) s = Some (Inr s')"
    and "inloop \<Longrightarrow> queue_of (tcp s) (loop_of (tcp s) h) = []"
  shows "core_inv d w0 s' \<and> workers s' = workers s \<and> messages s' = messages s \<and>
    map entry_task (replies s') = map entry_task (replies s) @ [(h, m)] \<and>
    length (objs (tcp s')) = length (objs (tcp s)) \<and> length (subloops (tcp s')) = length (subloops (tcp s)) \<and>
    (inloop \<longrightarrow> (\<forall>i < length (subloops (tcp s)). queue_of (tcp s') i = queue_of (tcp s) i))"
proof -
  obtain out w sv where a: "d m (world s) = Some (Inr (out, w))"
    and sv: "sv_send ctl inloop h out (tcp s) = Inr sv"
    and s': "s' = s\<lparr>tcp := sv, world := w, replies := replies s @ [\<lparr>re_conn = h, re_msg = m, re_out = out,
       re_sent = (\<not> disconnect (sc_conn (objs (tcp s) ! h)))\<rparr>]\<rparr>"
    using assms(3) by (auto simp: server_OnMessage_def bind_res_Inr)
  have ok: "sv_ok (tcp s)" using assms(1) by (simp add: core_inv_def)
  note o = send_ok [OF ok assms(2) sv assms(4)]
  have "flow sv (wires s) h' = owed (replies s') h'" for h'
    using o [of "wires s"] assms(1) by (auto simp: s' owed_snoc core_inv_def sent_by_def)
  then show ?thesis
    using assms(1) o answers_snoc [where d = d, OF _ a] by (auto simp: core_inv_def s' entry_task_def)
qed

lemma HandleMessage_inv:
  assumes "srv_inv d w0 s" "h < length (objs (tcp s))" "server_HandleMessage ctl d (h, m) s = Some (Inr s')"
  shows "srv_inv d w0 s' \<and> length (objs (tcp s')) = length (objs (tcp s)) \<and> messages s' = messages s @ [(h, m)]"
proof -
  have core: "core_inv d w0 s" and inv: "sv_inv (tcp s)" and tp: "tp_inv (workers s)"
    using assms(1) by (simp_all add: srv_inv_def core_inv_def sv_ok_def)
  let ?s = "s\<lparr>messages := messages s @ [(h, m)]\<rparr>"
  have core': "core_inv d w0 ?s" using core by (simp add: core_inv_def)
  show ?thesis
  proof (cases "pool_size (workers s) = 0")
    case True
    then have z: "minThreadnum (workers s) = 0"
      using tp by (simp add: tp_inv_def pool_size_def)
    obtain s1 where m: "server_OnMessage ctl d True (h, m) ?s = Some (Inr s1)" and s': "s' = s1\<lparr>workers := workers s\<rparr>"
      using assms(3) True by (auto simp: server_HandleMessage_def HandleMessage_def bind_res_Inr)
    have q: "queue_of (tcp ?s) (loop_of (tcp ?s) h) = []"
      using assms(1) z loop_of_less [OF inv, of h] by (simp add: srv_inv_def)
    note o = OnMessage_core [OF core' _ m q]
    have "s' = s1" using o assms(2) by (simp add: s')
    then show ?thesis using o assms(1,2) z by (auto simp: srv_inv_def)
  next
    case False
    then have s': "s' = ?s\<lparr>workers := addtask (h, m) (workers s)\<rparr>"
      using assms(3) by (auto simp: server_HandleMessage_def HandleMessage_def)
    have "running (addtask (h, m) (workers s)) = running (workers s)"
      by (simp add: running_def addtask_def Let_def)
    moreover have "minThreadnum (addtask t p) = minThreadnum p" "tp_queue (addtask t p) = tp_queue p @ [t]" for t :: task and p
      by (simp_all add: addtask_def Let_def)
    moreover have "minThreadnum (workers s) \<noteq> 0"
      using False assms(1) by (auto simp: srv_inv_def tp_inv_def pool_size_def cnt_def)
    ultimately show ?thesis
      using assms(1,2) tp_inv_addtask [OF tp] core by (auto simp: srv_inv_def s' core_inv_def)
  qed
qed

lemma handle_messages_inv:
  assumes "srv_inv d w0 s" "h < length (objs (tcp s))" "handle_messages ctl d h ms s = Some (Inr s')"
  shows "srv_inv d w0 s' \<and> length (objs (tcp s')) = length (objs (tcp s)) \<and>
    messages s' = messages s @ map (Pair h) ms"
  using assms
proof (induction ms arbitrary: s)
  case (Cons m ms)
  then obtain s1 where 1: "server_HandleMessage ctl d (h, m) s = Some (Inr s1)" "handle_messages ctl d h ms s1 = Some (Inr s')"
    by (auto split: option.splits sum.splits)
  from HandleMessage_inv [OF Cons.prems(1,2) 1(1)] Cons.IH [OF _ _ 1(2)] Cons.prems(2) show ?case by simp
qed simp

text \<open>A step of the server's tables that sends nothing.\<close>

lemma tables_inv:
  assumes "srv_inv d w0 s" "sv_ok sv" "flow sv (wires s) = flow (tcp s) (wires s)"
    and "length (objs (tcp s)) \<le> length (objs sv)" "length (subloops sv) = length (subloops (tcp s))"
    and "\<And>i. i < length (subloops sv) \<Longrightarrow> queue_of (tcp s) i = [] \<Longrightarrow> queue_of sv i = []"
  shows "srv_inv d w0 (s\<lparr>tcp := sv\<rparr>)"
proof -
  have "fst t < length (objs sv)" if "t \<in> set (messages s)" for t
    using assms(1,4) that less_le_trans [of "fst t" "length (objs (tcp s))" "length (objs sv)"]
    by (simp add: srv_inv_def)
  with assms show ?thesis by (simp add: srv_inv_def core_inv_def)
qed

lemma same_out_inv:
  assumes "srv_inv d w0 s" "sv_inv sv \<and> same_out (tcp s) sv"
  shows "srv_inv d w0 (s\<lparr>tcp := sv\<rparr>)"
proof -
  have "sv_ok (tcp s)" using assms(1) by (simp add: srv_inv_def core_inv_def)
  note o = same_out_ok [OF _ this, of sv] assms(2)
  show ?thesis
  proof (rule tables_inv [OF assms(1)])
    show "sv_ok sv" "flow sv (wires s) = flow (tcp s) (wires s)" using o by simp_all
    show "length (objs (tcp s)) \<le> length (objs sv)" "length (subloops sv) = length (subloops (tcp s))"
      using assms(2) by (simp_all add: same_out_def)
    show "queue_of sv i = []" if "i < length (subloops sv)" "queue_of (tcp s) i = []" for i
      using that assms(2) by (simp add: same_out_def)
  qed
qed

lemma running_move:
  assumes "tp_step e p = Some (Inr p')" "pool_move e" "tp_inv p"
  shows "mset (tp_queue p') + running p' = mset (tp_queue p) + running p \<and>
    minThreadnum p' = minThreadnum p \<and> (tp_threads p = [] \<longrightarrow> tp_threads p' = [])"
proof (cases e)
  case (Test i)
  then have "at_phase (\<lambda>x. x = AtTest) i p" "p' = tp_test i p"
    using assms(1) by (auto split: if_splits)
  with running_set_phase [of "\<lambda>x. x = AtTest" i p "if tp_stop p then Returned else InWait"] show ?thesis
    by (auto simp: tp_test_def at_phase_def split: if_splits)
next
  case (WakeUp i)
  then have at: "at_phase (\<lambda>x. x = InWait) i p" "tp_wake i p = Some p'"
    using assms by (auto split: if_splits)
  show ?thesis
  proof (cases "tp_queue p")
    case Nil
    with at running_set_phase [OF at(1), of Returned] show ?thesis
      by (auto simp: tp_wake_def at_phase_def split: if_splits)
  next
    case (Cons t ts)
    let ?p = "p\<lparr>tp_queue := ts, idleThreadnum := idleThreadnum p - 1, tp_started := tp_started p @ [t]\<rparr>"
    have "at_phase (\<lambda>x. x = InWait) i ?p" using at(1) by simp
    from running_set_phase [OF this, of "Running (Some t)"] at Cons running_cong [of ?p p] show ?thesis
      by (auto simp: tp_wake_def at_phase_def)
  qed
next
  case (TimeOut i)
  then have at: "at_phase (\<lambda>x. x = InWait) i p" and t: "tp_timeout i p = Some p'"
    using assms by (auto split: if_splits)
  let ?p = "p\<lparr>deadThreadQueue := deadThreadQueue p @ [i], idleThreadnum := idleThreadnum p - 1,
    currentThreadnum := currentThreadnum p - 1\<rparr>" and ?q = "p\<lparr>idleThreadnum := idleThreadnum p - 1\<rparr>"
  have "at_phase (\<lambda>x. x = InWait) i ?p" "at_phase (\<lambda>x. x = InWait) i ?q" using at by (simp_all add: at_phase_def)
  from running_set_phase [OF this(1), of Retired] running_set_phase [OF this(2), of "Running None"]
    running_cong [of ?p p] running_cong [of ?q p] t at show ?thesis
    by (auto simp: tp_timeout_def at_phase_def split: if_splits)
next
  case Reap
  then obtain j "is" where j: "deadThreadQueue p = j # is" "p' = set_phase j Reaped (p\<lparr>deadThreadQueue := is\<rparr>)"
    using assms(1) by (auto simp: tp_reap_def split: list.splits if_splits)
  then have at: "at_phase (\<lambda>x. x = Retired) j p" using assms(3) by (auto simp: tp_inv_def)
  let ?p = "p\<lparr>deadThreadQueue := is\<rparr>"
  have "at_phase (\<lambda>x. x = Retired) j ?p" using at by simp
  from running_set_phase [OF this, of Reaped] running_cong [of ?p p] at j show ?thesis
    by (auto simp: at_phase_def)
qed (use assms in \<open>auto simp: pool_move_def Stop_def running_def\<close>)

lemma done_inv:
  assumes "srv_inv d w0 s" "srv_step ctl d (Done i) s = Some (Inr s')"
  shows "srv_inv d w0 s'"
proof -
  let ?p = "workers s"
  have at: "at_phase is_running i ?p" using assms(2) by (auto split: if_splits)
  have tp: "tp_inv ?p" using assms(1) by (simp add: srv_inv_def)
  have fin: "tp_inv (tp_finish i p)" if "tp_inv p" "at_phase is_running i p" for p :: "task pool"
    using tp_inv_step [OF that(1), of "Finish i"] that(2) by simp
  let ?q = "?p\<lparr>idleThreadnum := idleThreadnum ?p + 1\<rparr>"
  have at': "at_phase is_running i ?q" using at by (simp add: at_phase_def)
  have run: "running (tp_finish i ?p) +
      (case running_task (tp_threads ?p ! i) of None \<Rightarrow> {#} | Some t \<Rightarrow> {#t#}) = running ?p"
    using running_set_phase [OF at', of AtTest] running_cong [of ?q ?p] by (simp add: tp_finish_def)
  have f: "tp_queue (tp_finish i ?p) = tp_queue ?p" "minThreadnum (tp_finish i ?p) = minThreadnum ?p"
    by (simp_all add: tp_finish_def)
  have th: "minThreadnum ?p \<noteq> 0"
    using assms(1) at by (auto simp: srv_inv_def at_phase_def)
  show ?thesis
  proof (cases "running_task (tp_threads ?p ! i)")
    case None
    then have "s' = s\<lparr>workers := tp_finish i ?p\<rparr>" using assms(2) at by simp
    then show ?thesis
      using assms(1) run None f th fin [OF tp at] by (simp add: srv_inv_def core_inv_def)
  next
    case (Some t)
    obtain h m where t: "t = (h, m)" by fastforce
    obtain s1 where s1: "server_OnMessage ctl d False (h, m) s = Some (Inr s1)"
      and s': "s' = s1\<lparr>workers := tp_finish i (workers s1)\<rparr>"
      using assms(2) at Some t by (auto simp: bind_res_Inr)
    have core: "core_inv d w0 s" using assms(1) by (simp add: srv_inv_def)
    have "t \<in># running ?p" using run by (metis Some option.simps(5) union_iff union_single_eq_member add.commute)
    then have "t \<in> set (messages s)"
      using assms(1) unfolding srv_inv_def by (metis set_mset_mset union_iff)
    then have "h < length (objs (tcp s))" using assms(1) t by (auto simp: srv_inv_def)
    note o = OnMessage_core [OF core this s1]
    have "mset (messages s) = mset (map entry_task (replies s)) + mset (tp_queue ?p) + running ?p"
      using assms(1) by (simp add: srv_inv_def)
    also have "running ?p = running (tp_finish i ?p) + {#t#}" using run Some by simp
    finally have "mset (messages s') = mset (map entry_task (replies s')) + mset (tp_queue (workers s')) + running (workers s')"
      using o t f by (simp add: s')
    then show ?thesis
      using assms(1) o th f fin [OF tp at] by (simp add: srv_inv_def s' core_inv_def)
  qed
qed

lemma srv_step_inv:
  assumes "srv_inv d w0 s" "srv_step ctl d e s = Some (Inr s')"
  shows "srv_inv d w0 s'"
proof -
  have ok: "sv_ok (tcp s)" using assms(1) by (simp add: srv_inv_def core_inv_def)
  show ?thesis
  proof (cases e)
    case (Accept now fd)
    then obtain h sv where "0 \<le> fd" "newconnction ctl now fd (tcp s) = Inr (h, sv)" "s' = s\<lparr>tcp := sv\<rparr>"
      using assms(2) by (auto simp: on_tcp_def bind_res_Inr split: if_splits)
    with accept_ok [OF ok this(1,2)] show ?thesis
      by (auto intro: tables_inv [OF assms(1)])
  next
    case (Readable h now rs)
    then obtain ms sv where h: "h < length (objs (tcp s))" "sv_read ctl now rs h (tcp s) = Some (Inr (ms, sv))"
      "handle_messages ctl d h ms (s\<lparr>tcp := sv\<rparr>) = Some (Inr s')"
      using assms(2) by (auto split: if_splits option.splits sum.splits)
    note r = read_ok [OF ok h(1,2)]
    have "h < length (objs (tcp (s\<lparr>tcp := sv\<rparr>)))" using h(1) r by (simp add: same_out_def)
    from handle_messages_inv [OF same_out_inv [OF assms(1) r] this h(3)] show ?thesis by blast
  next
    case (WritableEv h room)
    then obtain out sv where h: "h < length (objs (tcp s))" "sv_write ctl room h (tcp s) = Inr (out, sv)"
      and s': "s' = s\<lparr>tcp := sv, wires := (wires s)(h := wires s h @ out)\<rparr>"
      using assms(2) by (auto simp: bind_res_Inr split: if_splits)
    from write_ok [OF ok h, of "wires s"] assms(1) show ?thesis
      by (auto simp: srv_inv_def core_inv_def s' queue_of_def)
  next
    case (BrokenPipe h)
    then show ?thesis using assms(2) by (simp split: if_splits)
  next
    case (LoopWake i)
    then obtain sv where i: "i < length (subloops (tcp s))" "sv_wake ctl i (tcp s) = Inr sv" and s': "s' = s\<lparr>tcp := sv\<rparr>"
      using assms(2) by (auto simp: on_tcp_def bind_res_Inr split: if_splits)
    from wake_ok [OF ok i] show ?thesis
      unfolding s' by (intro tables_inv [OF assms(1)]) auto
  next
    case (Timer i now)
    then have "i < length (subloops (tcp s))" "s' = s\<lparr>tcp := sv_timer now i (tcp s)\<rparr>"
      using assms(2) by (auto split: if_splits)
    with same_out_inv [OF assms(1) timer_ok [OF ok]] show ?thesis by simp
  next
    case (ErrorEv h)
    then obtain sv where "sv_error ctl h (tcp s) = Inr sv" "s' = s\<lparr>tcp := sv\<rparr>"
      using assms(2) by (auto simp: on_tcp_def bind_res_Inr split: if_splits)
    with same_out_inv [OF assms(1) error_ok [OF ok]] show ?thesis by simp
  next
    case (Move e)
    then obtain p where p: "pool_move e" "tp_step e (workers s) = Some (Inr p)" and s': "s' = s\<lparr>workers := p\<rparr>"
      using assms(2) by (auto simp: bind_res_Inr split: if_splits)
    have tp: "tp_inv (workers s)" using assms(1) by (simp add: srv_inv_def)
    from running_move [OF p(2,1) tp] tp_inv_step [OF tp p(2)] assms(1) show ?thesis
      by (auto simp: srv_inv_def core_inv_def s' add.assoc)
  next
    case (Done i)
    show ?thesis by (rule done_inv [OF assms(1) assms(2) [unfolded Done]])
  qed
qed

lemma srv_inv_new: "0 < io \<Longrightarrow> srv_inv d w (new_rpc_server io m mx ks w)"
proof -
  assume io: "0 < io"
  have "sv_ok (new_tcpserver io ks)" "flow (new_tcpserver io ks) (\<lambda>_. []) = (\<lambda>_. [])"
    using sv_inv_new [OF io, of ks]
    by (auto simp: sv_ok_def tasks_ok_def queue_of_def new_tcpserver_def new_event_loop_def flow_def)
  moreover have "running (new_pool m mx) = {#}"
    by (simp add: running_def new_pool_def) (induction m, simp_all)
  moreover have "owed [] = (\<lambda>_. [])" by (auto simp: owed_def)
  ultimately show ?thesis
    using tp_inv_new [of m mx]
    by (auto simp: srv_inv_def core_inv_def rpc_server_over_def queue_of_def new_tcpserver_def new_event_loop_def)
      (simp_all add: new_pool_def)
qed

lemma srv_run_inv:
  "srv_run ctl d es s = Some (Inr s') \<Longrightarrow> srv_inv d w0 s \<Longrightarrow> srv_inv d w0 s'"
proof (induction es arbitrary: s)
  case (Cons e es)
  then obtain s1 where 1: "srv_step ctl d e s = Some (Inr s1)" "srv_run ctl d es s1 = Some (Inr s')"
    by (auto split: option.splits sum.splits)
  from Cons.IH [OF 1(2) srv_step_inv [OF Cons.prems(2) 1(1)]] show ?case .
qed simp

section \<open>The pool inside the server\<close>

lemma HandleMessage_pool:
  assumes "server_HandleMessage ctl d t s = Some (Inr s')"
  shows "\<exists>es. tp_run es (workers s) = Some (Inr (workers s'))"
proof (cases "pool_size (workers s) = 0")
  case True
  then have "workers s' = workers s"
    using assms by (auto simp: server_HandleMessage_def HandleMessage_def bind_res_Inr)
  then show ?thesis by (intro exI [of _ "[]"]) simp
next
  case False
  then have "workers s' = addtask t (workers s)"
    using assms by (auto simp: server_HandleMessage_def HandleMessage_def)
  then show ?thesis by (intro exI [of _ "[AddTask t]"]) simp
qed

lemma handle_messages_pool:
  "handle_messages ctl d h ms s = Some (Inr s') \<Longrightarrow> \<exists>es. tp_run es (workers s) = Some (Inr (workers s'))"
proof (induction ms arbitrary: s)
  case Nil
  then show ?case by (intro exI [of _ "[]"]) simp
next
  case (Cons m ms)
  then obtain s1 where 1: "server_HandleMessage ctl d (h, m) s = Some (Inr s1)" "handle_messages ctl d h ms s1 = Some (Inr s')"
    by (auto split: option.splits sum.splits)
  from HandleMessage_pool [OF 1(1)] Cons.IH [OF 1(2)] tp_run_append show ?case by metis
qed

lemma OnMessage_pool:
  "server_OnMessage ctl d b t s = Some (Inr s') \<Longrightarrow> workers s' = workers s \<and> messages s' = messages s"
  by (auto simp: server_OnMessage_def bind_res_Inr split: prod.splits)

text \<open>A step of the server is a run of its pool: what holds for every run of a pool holds here.\<close>

lemma srv_step_pool:
  assumes "srv_step ctl d e s = Some (Inr s')"
  shows "\<exists>es. tp_run es (workers s) = Some (Inr (workers s'))"
proof (cases e)
  case (Readable h now rs)
  then obtain ms sv where "handle_messages ctl d h ms (s\<lparr>tcp := sv\<rparr>) = Some (Inr s')"
    using assms by (auto split: if_splits option.splits sum.splits)
  from handle_messages_pool [OF this] show ?thesis by simp
next
  case (Move e)
  then have "tp_step e (workers s) = Some (Inr (workers s'))"
    using assms by (auto simp: bind_res_Inr split: if_splits)
  then show ?thesis by (intro exI [of _ "[e]"]) simp
next
  case (Done i)
  then have "at_phase is_running i (workers s)" "workers s' = tp_finish i (workers s)"
    using assms by (auto simp: bind_res_Inr split: if_splits option.splits dest!: OnMessage_pool)
  then show ?thesis by (intro exI [of _ "[Finish i]"]) simp
qed (use assms in \<open>auto simp: on_tcp_def bind_res_Inr split: if_splits intro: exI [of _ "[]"]\<close>)

lemma srv_run_pool:
  "srv_run ctl d es s = Some (Inr s') \<Longrightarrow> \<exists>es. tp_run es (workers s) = Some (Inr (workers s'))"
proof (induction es arbitrary: s)
  case Nil
  then show ?case by (intro exI [of _ "[]"]) simp
next
  case (Cons e es)
  then obtain s1 where 1: "srv_step ctl d e s = Some (Inr s1)" "srv_run ctl d es s1 = Some (Inr s')"
    by (auto split: option.splits sum.splits)
  from srv_step_pool [OF 1(1)] Cons.IH [OF 1(2)] tp_run_append show ?case by metis
qed

text \<open>As long as the pool is not stopped no worker has returned.\<close>

definition none_returned :: "'t pool \<Rightarrow> bool" where
  "none_returned p \<longleftrightarrow> (\<not> tp_stop p \<longrightarrow> Returned \<notin> set (tp_threads p))"

lemma set_phase_set: "set (tp_threads (set_phase i x p)) \<subseteq> insert x (set (tp_threads p))"
  by (simp add: set_phase_def set_update_subset_insert)

lemma none_returned_step:
  assumes "tp_step e p = Some (Inr p')" "none_returned p"
  shows "none_returned p'"
proof -
  have set: "none_returned (set_phase i x q)" if "tp_threads q = tp_threads p" "tp_stop q = tp_stop p"
    "x = Returned \<Longrightarrow> tp_stop p" for i x and q :: "'a pool"
    using assms(2) that set_phase_set [of i x q] by (auto simp: none_returned_def)
  have "none_returned (addtask t p)" for t
    using assms(2) by (simp add: none_returned_def addtask_def Let_def)
  moreover have "none_returned (Stop p)" by (simp add: none_returned_def Stop_def)
  ultimately show ?thesis
    using assms(1) by (cases e) (auto simp: tp_test_def tp_wake_def tp_timeout_def
        tp_finish_def tp_reap_def split: if_splits list.splits intro!: set)
qed

lemma none_returned_run:
  "tp_run es p = Some (Inr p') \<Longrightarrow> none_returned p \<Longrightarrow> none_returned p'"
proof (induction es arbitrary: p)
  case (Cons e es)
  then obtain p1 where 1: "tp_step e p = Some (Inr p1)" "tp_run es p1 = Some (Inr p')"
    by (auto split: option.splits sum.splits)
  from Cons.IH [OF 1(2) none_returned_step [OF 1(1) Cons.prems(2)]] show ?case .
qed simp

section \<open>One worker keeps the order\<close>

definition in_work :: "task pool \<Rightarrow> task list" where
  "in_work p = List.map_filter running_task (tp_threads p)"

definition at_most_one :: "task pool \<Rightarrow> bool" where
  "at_most_one p \<longleftrightarrow> tp_inv p \<and> length (tp_threads p) = minThreadnum p \<and> minThreadnum p \<le> 1 \<and> maxThreadnum p \<le> 1"

definition in_order :: "('k, 'w) rpc_server \<Rightarrow> bool" where
  "in_order s \<longleftrightarrow> at_most_one (workers s) \<and> (minThreadnum (workers s) = 0 \<longrightarrow> tp_queue (workers s) = []) \<and>
     map entry_task (replies s) @ in_work (workers s) @ tp_queue (workers s) = messages s"

lemma in_work_simps [simp]:
  "tp_threads p = [] \<Longrightarrow> in_work p = []"
  "tp_threads p = [x] \<Longrightarrow> in_work p = (case running_task x of None \<Rightarrow> [] | Some t \<Rightarrow> [t])"
  by (simp_all add: in_work_def List.map_filter_def split: option.splits)

lemma at_most_one_cases:
  assumes "at_most_one p"
  obtains "tp_threads p = []" "minThreadnum p = 0" "currentThreadnum p = 0"
    | x where "tp_threads p = [x]" "minThreadnum p = 1" "currentThreadnum p = 1" "alive x"
proof (cases "tp_threads p")
  case Nil
  with assms that(1) show thesis by (auto simp: at_most_one_def tp_inv_def)
next
  case (Cons x xs)
  have "length (tp_threads p) \<le> 1" "length (tp_threads p) = minThreadnum p" "tp_inv p"
    using assms by (simp_all add: at_most_one_def)
  then have "xs = []" "minThreadnum p = 1" by (simp_all add: Cons)
  with assms that(2) Cons show thesis by (cases "alive x") (auto simp: at_most_one_def tp_inv_def)
qed

lemma at_most_one_step:
  assumes "at_most_one p" "tp_step e p = Some (Inr p')" "pool_move e"
  shows "at_most_one p' \<and> in_work p' @ tp_queue p' = in_work p @ tp_queue p \<and>
    minThreadnum p' = minThreadnum p \<and> (tp_threads p = [] \<longrightarrow> tp_queue p' = tp_queue p)"
proof -
  have tp: "tp_inv p" using assms(1) by (simp add: at_most_one_def)
  have inv': "tp_inv p'" using tp_inv_step [OF tp assms(2)] by simp
  from assms(1) show ?thesis
  proof (cases rule: at_most_one_cases)
    case 1
    then have "deadThreadQueue p = []" using tp by (auto simp: tp_inv_def at_phase_def)
    then show ?thesis
      using assms 1 inv' by (cases e) (auto simp: pool_move_def at_phase_def tp_reap_def Stop_def at_most_one_def)
  next
    case (2 x)
    then have "\<not> at_phase (\<lambda>x. x = Retired) j p" for j by (cases x) (auto simp: at_phase_def)
    then have d: "deadThreadQueue p = []" using tp by (cases "deadThreadQueue p") (auto simp: tp_inv_def)
    have "length (tp_threads p') = 1 \<and> in_work p' @ tp_queue p' = in_work p @ tp_queue p"
      using assms(2,3) 2 d
      by (cases e) (auto simp: pool_move_def at_phase_def tp_test_def tp_wake_def tp_timeout_def tp_reap_def Stop_def
          set_phase_def split: if_splits list.splits)
    moreover have "minThreadnum p' = minThreadnum p" "maxThreadnum p' = maxThreadnum p"
      using tp_run_limits [of "[e]" p p'] assms(2) by simp_all
    ultimately show ?thesis using 2(1,2) assms(1) inv' by (simp add: at_most_one_def)
  qed
qed

lemma HandleMessage_order:
  assumes "in_order s" "server_HandleMessage ctl d t s = Some (Inr s')"
  shows "in_order s'"
proof -
  have one: "at_most_one (workers s)" using assms(1) by (simp add: in_order_def)
  then have tp: "tp_inv (workers s)" by (simp add: at_most_one_def)
  obtain h m where t: "t = (h, m)" by fastforce
  show ?thesis
  proof (cases rule: at_most_one_cases [OF one])
    case 1
    obtain s1 where "server_OnMessage ctl d True t (s\<lparr>messages := messages s @ [t]\<rparr>) = Some (Inr s1)"
      and s': "s' = s1\<lparr>workers := workers s\<rparr>"
      using assms(2) 1 by (auto simp: server_HandleMessage_def HandleMessage_def pool_size_def bind_res_Inr)
    then have "messages s1 = messages s @ [t]" "map entry_task (replies s1) = map entry_task (replies s) @ [t]"
      by (auto simp: server_OnMessage_def bind_res_Inr t entry_task_def)
    then show ?thesis using assms(1) 1 by (auto simp: in_order_def s')
  next
    case (2 x)
    then have s': "s' = s\<lparr>messages := messages s @ [t], workers := addtask t (workers s)\<rparr>"
      using assms(2) by (auto simp: server_HandleMessage_def HandleMessage_def pool_size_def)
    have "maxThreadnum (workers s) \<le> 1" using one by (simp add: at_most_one_def)
    then have a: "addtask t (workers s) = workers s\<lparr>tp_queue := tp_queue (workers s) @ [t]\<rparr>"
      using 2(3) by (simp add: addtask_def Let_def)
    have "at_most_one (addtask t (workers s))"
      using one tp_inv_addtask [OF tp, of t] unfolding at_most_one_def by (simp add: a)
    then show ?thesis using assms(1) 2 by (simp add: in_order_def s' a)
  qed
qed

lemma handle_messages_order:
  "handle_messages ctl d h ms s = Some (Inr s') \<Longrightarrow> in_order s \<Longrightarrow> in_order s'"
proof (induction ms arbitrary: s)
  case (Cons m ms)
  then obtain s1 where "server_HandleMessage ctl d (h, m) s = Some (Inr s1)" "handle_messages ctl d h ms s1 = Some (Inr s')"
    by (auto split: option.splits sum.splits)
  with Cons.IH HandleMessage_order Cons.prems(2) show ?case by blast
qed simp

lemma done_order:
  assumes "in_order s" "srv_step ctl d (Done i) s = Some (Inr s')"
  shows "in_order s'"
proof -
  let ?p = "workers s"
  have one: "at_most_one ?p" using assms(1) by (simp add: in_order_def)
  have at: "at_phase is_running i ?p" using assms(2) by (auto split: if_splits)
  then obtain x where x: "tp_threads ?p = [x]" "minThreadnum ?p = 1" "is_running x" "i = 0"
    by (cases rule: at_most_one_cases [OF one]) (auto simp: at_phase_def)
  have "tp_inv (tp_finish i ?p)" using tp_inv_step [of ?p "Finish i"] one at by (simp add: at_most_one_def)
  then have f: "at_most_one (tp_finish i ?p)" "in_work (tp_finish i ?p) = []"
    "tp_queue (tp_finish i ?p) = tp_queue ?p" "minThreadnum (tp_finish i ?p) = 1"
    using one x by (simp_all add: at_most_one_def tp_finish_def set_phase_def)
  show ?thesis
  proof (cases "running_task x")
    case None
    then have "s' = s\<lparr>workers := tp_finish i ?p\<rparr>" using assms(2) at x by simp
    then show ?thesis using assms(1) f x None by (simp add: in_order_def)
  next
    case (Some t)
    then obtain s1 where s1: "server_OnMessage ctl d False t s = Some (Inr s1)"
      and s': "s' = s1\<lparr>workers := tp_finish i (workers s1)\<rparr>"
      using assms(2) at x by (auto simp: bind_res_Inr)
    then have "map entry_task (replies s1) = map entry_task (replies s) @ [t]"
      by (auto simp: server_OnMessage_def bind_res_Inr entry_task_def split: prod.splits)
    then show ?thesis
      using assms(1) f x Some OnMessage_pool [OF s1] by (simp add: in_order_def s')
  qed
qed

lemma srv_step_order:
  assumes "in_order s" "srv_step ctl d e s = Some (Inr s')"
  shows "in_order s'"
proof (cases e)
  case (Readable h now rs)
  then obtain ms sv where "handle_messages ctl d h ms (s\<lparr>tcp := sv\<rparr>) = Some (Inr s')"
    using assms(2) by (auto split: if_splits option.splits sum.splits)
  from handle_messages_order [OF this] assms(1) show ?thesis by (simp add: in_order_def)
next
  case (Move e)
  then obtain p where p: "pool_move e" "tp_step e (workers s) = Some (Inr p)" and s': "s' = s\<lparr>workers := p\<rparr>"
    using assms(2) by (auto simp: bind_res_Inr split: if_splits)
  have one: "at_most_one (workers s)" using assms(1) by (simp add: in_order_def)
  from at_most_one_step [OF one p(2,1)] assms(1) one show ?thesis
    by (auto simp: in_order_def s' at_most_one_def)
next
  case (Done i)
  show ?thesis by (rule done_order [OF assms(1) assms(2) [unfolded Done]])
qed (use assms in \<open>auto simp: on_tcp_def bind_res_Inr in_order_def split: if_splits\<close>)

lemma srv_run_order:
  "srv_run ctl d es s = Some (Inr s') \<Longrightarrow> in_order s \<Longrightarrow> in_order s'"
proof (induction es arbitrary: s)
  case (Cons e es)
  then obtain s1 where 1: "srv_step ctl d e s = Some (Inr s1)" "srv_run ctl d es s1 = Some (Inr s')"
    by (auto split: option.splits sum.splits)
  from Cons.IH [OF 1(2) srv_step_order [OF Cons.prems(2) 1(1)]] show ?case .
qed simp

end
