(* ===== verification/SocketModel.thy ===== *)
theory SocketModel
  imports Prelude
begin

text \<open>
  \<open>src/net/InetAddress\<close> and \<open>src/net/Socket\<close>: addresses with their C string form, and the wrapper of
  a descriptor. A call of the kernel is written down in a trace; what it answers is an argument.
\<close>

section \<open>Addresses\<close>

text \<open>
  \<open>htons\<close> and \<open>ntohs\<close> swap the two bytes; \<open>inet_ntoa\<close> prints the four bytes in memory order;
  \<open>inet_pton\<close> accepts exactly four decimal numbers up to 255 without leading zeros, and otherwise
  leaves the destination alone.
\<close>

definition htons :: "16 word \<Rightarrow> 16 word" where
  "htons w = of_nat (unat w mod 256 * 256 + unat w div 256)"

definition ntohs :: "16 word \<Rightarrow> 16 word" where
  "ntohs w = of_nat (unat w mod 256 * 256 + unat w div 256)"

fun join_dots :: "string list \<Rightarrow> string" where
  "join_dots [] = []"
| "join_dots [s] = s"
| "join_dots (s # ss) = s @ CHR ''.'' # join_dots ss"

fun split_dots :: "string \<Rightarrow> string list" where
  "split_dots [] = [[]]"
| "split_dots (c # s) =
     (if c = CHR ''.'' then [] # split_dots s
      else case split_dots s of [] \<Rightarrow> [[c]] | x # xs \<Rightarrow> (c # x) # xs)"

definition octet :: "string \<Rightarrow> char option" where
  "octet s =
     (if s \<noteq> [] \<and> list_all is_digit s \<and> digits_val s < 256 \<and> (hd s = CHR ''0'' \<longrightarrow> length s = 1)
      then Some (char_of (digits_val s)) else None)"

definition inet_ntoa :: "32 word \<Rightarrow> string" where
  "inet_ntoa a = join_dots (map (\<lambda>c. dec_str (of_char c)) (mem32 a))"

definition inet_pton :: "string \<Rightarrow> 32 word option" where
  "inet_pton s =
     (let os = map octet (split_dots s) in
      if length os = 4 \<and> None \<notin> set os then Some (of_mem32 (map the os)) else None)"

text \<open>\<open>AF_INET\<close> is 2; the padding of \<open>sockaddr_in\<close> is not used.\<close>

record InetAddress =
  sin_family :: nat
  sin_port :: "16 word"
  sin_addr :: "32 word"

text \<open>
  The constructor from a string does not look at the result of \<open>inet_pton\<close>: \<open>junk\<close> is what the
  uninitialised \<open>sin_addr\<close> holds.
\<close>

definition new_InetAddress :: "32 word \<Rightarrow> string \<Rightarrow> 16 word \<Rightarrow> InetAddress" where
  "new_InetAddress junk ip port =
     \<lparr>sin_family = 2, sin_port = htons port,
      sin_addr = (case inet_pton (takeWhile (\<lambda>c. c \<noteq> NUL) ip) of Some a \<Rightarrow> a | None \<Rightarrow> junk)\<rparr>"

definition addr_ip :: "InetAddress \<Rightarrow> string" where
  "addr_ip a = inet_ntoa (sin_addr a)"

definition addr_port :: "InetAddress \<Rightarrow> 16 word" where
  "addr_port a = ntohs (sin_port a)"

definition setaddr :: "InetAddress \<Rightarrow> InetAddress \<Rightarrow> InetAddress" where
  "setaddr addr a = addr"

section \<open>Sockets\<close>

text \<open>
  The calls of the kernel, an option by its level and number as the Linux headers define them:
  \<open>SOL_SOCKET\<close> is 1, and of its options \<open>SO_DEBUG\<close> is 1, \<open>SO_REUSEADDR\<close> 2, \<open>SO_KEEPALIVE\<close> 9 and
  \<open>SO_REUSEPORT\<close> 15; \<open>TCP_NODELAY\<close> is 1 of level \<open>IPPROTO_TCP\<close> (6).
\<close>

datatype sys_call =
    SysSocket
  | SysSetsockopt int nat nat int
  | SysBind int InetAddress
  | SysListen int int

definition SOL_SOCKET :: nat where "SOL_SOCKET = 1"
definition SO_REUSEADDR :: nat where "SO_REUSEADDR = 2"
definition SO_KEEPALIVE :: nat where "SO_KEEPALIVE = 9"
definition SO_REUSEPORT :: nat where "SO_REUSEPORT = 15"
definition IPPROTO_TCP :: nat where "IPPROTO_TCP = 6"
definition TCP_NODELAY :: nat where "TCP_NODELAY = 1"

lemmas sock_consts = SOL_SOCKET_def SO_REUSEADDR_def SO_KEEPALIVE_def SO_REUSEPORT_def
  IPPROTO_TCP_def TCP_NODELAY_def

text \<open>The answers of the kernel: the descriptor of \<open>socket\<close>, and whether \<open>bind\<close> and \<open>listen\<close> succeed.\<close>

record sock_env =
  se_socket :: int
  se_bind :: "InetAddress \<Rightarrow> bool"
  se_listen :: bool

record socket =
  so_fd :: int
  so_ip :: string
  so_port :: "16 word"

type_synonym traced_socket = "sys_call list \<times> socket"

definition createnonblocking :: "sock_env \<Rightarrow> sys_call list \<Rightarrow> (sys_call list \<times> int) res" where
  "createnonblocking env tr =
     (if se_socket env < 0 then Inl Exit else Inr (tr @ [SysSocket], se_socket env))"

text \<open>\<open>ip_\<close> is empty and \<open>port_\<close> uninitialised until \<open>setipport\<close>.\<close>

definition new_socket :: "16 word \<Rightarrow> int \<Rightarrow> socket" where
  "new_socket junk fd = \<lparr>so_fd = fd, so_ip = [], so_port = junk\<rparr>"

definition setsockopt :: "nat \<Rightarrow> nat \<Rightarrow> bool \<Rightarrow> traced_socket \<Rightarrow> traced_socket" where
  "setsockopt level name on = (\<lambda>(tr, s). (tr @ [SysSetsockopt (so_fd s) level name (if on then 1 else 0)], s))"

definition setreuseaddr :: "bool \<Rightarrow> traced_socket \<Rightarrow> traced_socket" where
  "setreuseaddr on = setsockopt SOL_SOCKET SO_REUSEADDR on"

definition setreuseport :: "bool \<Rightarrow> traced_socket \<Rightarrow> traced_socket" where
  "setreuseport on = setsockopt SOL_SOCKET SO_REUSEPORT on"

definition settcpnodelay :: "bool \<Rightarrow> traced_socket \<Rightarrow> traced_socket" where
  "settcpnodelay on = setsockopt SOL_SOCKET TCP_NODELAY on"

definition setkeepalive :: "bool \<Rightarrow> traced_socket \<Rightarrow> traced_socket" where
  "setkeepalive on = setsockopt SOL_SOCKET SO_KEEPALIVE on"

definition setipport :: "string \<Rightarrow> 16 word \<Rightarrow> socket \<Rightarrow> socket" where
  "setipport ip port s = s\<lparr>so_ip := ip, so_port := port\<rparr>"

definition sock_bind :: "sock_env \<Rightarrow> InetAddress \<Rightarrow> traced_socket \<Rightarrow> traced_socket res" where
  "sock_bind env servaddr = (\<lambda>(tr, s).
     if se_bind env servaddr
     then Inr (tr @ [SysBind (so_fd s) servaddr], setipport (addr_ip servaddr) (addr_port servaddr) s)
     else Inl Exit)"

definition sock_listen :: "sock_env \<Rightarrow> int \<Rightarrow> traced_socket \<Rightarrow> traced_socket res" where
  "sock_listen env nn = (\<lambda>(tr, s).
     if se_listen env then Inr (tr @ [SysListen (so_fd s) nn], s) else Inl Exit)"

section \<open>Round trip of addresses\<close>

lemma swap_bytes:
  assumes "x < (65536::nat)"
  shows "(x mod 256 * 256 + x div 256) mod 256 * 256 + (x mod 256 * 256 + x div 256) div 256 = x"
proof -
  have "x div 256 < 256" using assms by (simp add: div_less_iff_less_mult)
  then show ?thesis by simp
qed

lemma ntohs_htons [simp]: "ntohs (htons w) = w"
proof -
  let ?x = "unat w"
  have x: "?x < 65536" using unsigned_less [of w] by simp
  then have "?x div 256 < 256" by (simp add: div_less_iff_less_mult)
  moreover have "?x mod 256 < 256" by simp
  ultimately have "?x mod 256 * 256 + ?x div 256 < 65536" by linarith
  then have "unat (htons w) = ?x mod 256 * 256 + ?x div 256"
    unfolding htons_def unat_of_nat by simp
  then show ?thesis using swap_bytes [OF x] by (simp add: ntohs_def)
qed

lemma htons_ntohs [simp]: "htons (ntohs w) = w"
  using ntohs_htons [of w] by (simp add: htons_def ntohs_def)

lemma split_dots_nonempty [simp]: "split_dots s \<noteq> []"
  by (induction s) (auto split: list.splits)

lemma split_dots_append:
  "CHR ''.'' \<notin> set s \<Longrightarrow> split_dots (s @ t) = (s @ hd (split_dots t)) # tl (split_dots t)"
proof (induction s)
  case (Cons c s)
  then show ?case by auto
qed (cases "split_dots t", auto)

lemma split_join_dots:
  "ss \<noteq> [] \<Longrightarrow> \<forall>s \<in> set ss. CHR ''.'' \<notin> set s \<Longrightarrow> split_dots (join_dots ss) = ss"
proof (induction ss rule: join_dots.induct)
  case (2 s)
  then show ?case using split_dots_append [of s "[]"] by simp
qed (simp_all add: split_dots_append)

lemma join_split_dots: "join_dots (split_dots s) = s"
proof (induction s)
  case (Cons c s)
  obtain x xs where x: "split_dots s = x # xs" by (cases "split_dots s") auto
  then have "join_dots (x # xs) = s" using Cons by simp
  moreover have "join_dots ((c # x) # xs) = c # join_dots (x # xs)" by (cases xs) simp_all
  moreover have "join_dots ([] # x # xs) = CHR ''.'' # join_dots (x # xs)" by simp
  ultimately show ?case by (simp add: x)
qed simp

text \<open>Octets are the decimal numbers up to 255, printed without leading zeros.\<close>

lemma digit_zero: "n < 10 \<Longrightarrow> digit n = CHR ''0'' \<longleftrightarrow> n = 0"
  using of_char_digit [of n] digit_eqI [of "CHR ''0''" 0] by auto

lemma dec_str_no_dot: "CHR ''.'' \<notin> set (dec_str n)"
proof
  assume "CHR ''.'' \<in> set (dec_str n)"
  then obtain k where "k < 10" "digit k = CHR ''.''" using dec_str_digits [of n] by auto
  with of_char_digit [of k] show False by simp
qed

lemma dec_str_hd: "0 < n \<Longrightarrow> hd (dec_str n) \<noteq> CHR ''0''"
proof (induction n rule: dec_str.induct)
  case (1 n)
  show ?case
  proof (cases "n < 10")
    case True
    with 1 digit_zero [OF True] show ?thesis by (subst dec_str.simps) simp
  next
    case False
    then show ?thesis using 1 by (subst dec_str.simps) (simp add: hd_append)
  qed
qed

lemma octet_dec_str: "n < 256 \<Longrightarrow> octet (dec_str n) = Some (char_of n)"
proof -
  assume n: "n < 256"
  have "list_all is_digit (dec_str n)"
    using dec_str_digits [of n] by (auto simp: list_all_iff digit_props(1))
  moreover have "length (dec_str n) = 1" if "hd (dec_str n) = CHR ''0''"
    using dec_str_hd [of n] that by (cases n) (auto simp: dec_str.simps [of 0])
  ultimately show ?thesis using n by (simp add: octet_def digits_val_dec_str)
qed

lemma dec_str_digits_val:
  "s \<noteq> [] \<Longrightarrow> list_all is_digit s \<Longrightarrow> hd s = CHR ''0'' \<longrightarrow> length s = 1 \<Longrightarrow> dec_str (digits_val s) = s"
proof (induction s rule: rev_induct)
  case (snoc c s)
  define k where "k = (of_char c :: nat) - 48"
  have k: "k < 10" "digit k = c"
    using snoc.prems(2) by (auto simp: k_def is_digit_def intro: digit_eqI)
  show ?case
  proof (cases "s = []")
    case True
    then show ?thesis using k by (subst dec_str.simps) (simp add: digits_val_def k_def)
  next
    case False
    then have "hd s \<noteq> CHR ''0''" using snoc.prems(3) by auto
    with False snoc have IH: "dec_str (digits_val s) = s" by simp
    have "digits_val s \<noteq> 0"
    proof
      assume "digits_val s = 0"
      with IH have "s = [digit 0]" by (simp add: dec_str.simps [of 0])
      with \<open>hd s \<noteq> CHR ''0''\<close> digit_zero [of 0] show False by simp
    qed
    then show ?thesis
      using k IH by (subst dec_str.simps) (simp add: digits_val_snoc flip: k_def)
  qed
qed simp

lemma octet_Some: "octet s = Some c \<Longrightarrow> s = dec_str (of_char c)"
  using dec_str_digits_val [of s] by (auto simp: octet_def split: if_splits)

text \<open>\<open>inet_pton\<close> accepts exactly what \<open>inet_ntoa\<close> prints.\<close>

lemma inet_pton_iff: "inet_pton s = Some a \<longleftrightarrow> s = inet_ntoa a"
proof
  assume "inet_pton s = Some a"
  then have l: "length (split_dots s) = 4" and n: "None \<notin> set (map octet (split_dots s))"
    and a: "a = of_mem32 (map the (map octet (split_dots s)))"
    by (auto simp: inet_pton_def Let_def split: if_splits)
  have "map (\<lambda>c. dec_str (of_char c)) (map the (map octet (split_dots s))) = split_dots s"
    using n by (auto intro!: map_idI simp: octet_Some image_iff) (metis octet_Some option.collapse)
  then show "s = inet_ntoa a"
    using l by (simp add: a inet_ntoa_def mem32_of_mem32 join_split_dots)
next
  assume s: "s = inet_ntoa a"
  let ?ss = "map (\<lambda>c. dec_str (of_char c)) (mem32 a)"
  have "mem32 a \<noteq> []" using length_mem32 [of a] by (metis list.size(3) zero_neq_numeral)
  then have sp: "split_dots s = ?ss"
    unfolding s inet_ntoa_def by (intro split_join_dots) (auto simp: dec_str_no_dot)
  have "(of_char c :: nat) < 256" for c :: char using of_char_bound [of c] by (metis of_nat_less_iff of_nat_numeral of_nat_of_char)
  then have "map octet ?ss = map Some (mem32 a)" by (simp add: octet_dec_str)
  then show "inet_pton s = Some a"
    unfolding inet_pton_def Let_def sp by (simp only: map_map comp_def) (simp add: image_iff)
qed

text \<open>
  C31. An address made from a string gives back the string and the port exactly when the string is a
  dotted decimal address; otherwise, since the result of \<open>inet_pton\<close> is not looked at, it is the
  address that happens to be in memory.
\<close>

theorem address_roundtrip:
  assumes "NUL \<notin> set ip"
  shows "addr_port (new_InetAddress junk ip port) = port \<and>
    addr_ip (new_InetAddress junk ip port) = (if \<exists>a. ip = inet_ntoa a then ip else inet_ntoa junk) \<and>
    (\<forall>a. addr_ip a = ip \<longrightarrow> sin_family a = 2 \<longrightarrow> new_InetAddress junk ip (addr_port a) = a)"
proof -
  have ip: "takeWhile (\<lambda>c. c \<noteq> NUL) ip = ip" using assms by (auto simp: takeWhile_eq_all_conv)
  have "inet_pton ip = None" if "\<nexists>a. ip = inet_ntoa a"
    using that inet_pton_iff by (cases "inet_pton ip") auto
  moreover have "inet_pton (inet_ntoa a) = Some a" for a by (simp add: inet_pton_iff)
  moreover have "a = b" if "inet_ntoa a = inet_ntoa b" for a b
    using that inet_pton_iff by (metis option.inject)
  ultimately show ?thesis
    by (auto simp: new_InetAddress_def addr_port_def addr_ip_def ip)
qed

theorem address_roundtrip_witness:
  "addr_port (new_InetAddress 0 ''10.0.0.1'' 8080) = 8080 \<and> addr_ip (new_InetAddress 0 ''10.0.0.1'' 8080) = ''10.0.0.1'' \<and>
   addr_ip (new_InetAddress 0 ''10.0.0.01'' 8080) = inet_ntoa 0"
proof -
  have "inet_pton ''10.0.0.1'' \<noteq> None" "inet_pton ''10.0.0.01'' = None"
    by (simp_all add: inet_pton_def octet_def is_digit_def digits_val_def)
  then have "\<exists>a. ''10.0.0.1'' = inet_ntoa a" "\<nexists>a. ''10.0.0.01'' = inet_ntoa a"
    by (auto simp flip: inet_pton_iff)
  then show ?thesis
    using address_roundtrip [of "''10.0.0.1''" 0 8080] address_roundtrip [of "''10.0.0.01''" 0 8080] by simp
qed

end
