(* ===== verification/Startup.thy ===== *)
theory Startup
  imports SocketModel TcpServerModel ThreadPoll
begin

text \<open>
  The constructors of \<open>src/net/\<close>: an event loop over a new epoll instance, the acceptor with its
  listening socket, and the server, which gives each I/O loop to a pool of as many threads. What
  the kernel answers (descriptors, \<open>bind\<close>, \<open>listen\<close>) is an argument.
\<close>

section \<open>Constructors\<close>

text \<open>What \<open>epoll_create\<close>, \<open>eventfd\<close> and \<open>timerfd_create\<close> answer one loop.\<close>

record loop_fds =
  lf_epoll :: int
  lf_event :: int
  lf_timer :: int

definition loop_construct :: "'k epoll_ctl \<Rightarrow> 'k \<Rightarrow> loop_fds \<Rightarrow> ('k \<times> channel \<times> channel) res" where
  "loop_construct ctl k0 f =
     (if lf_epoll f < 0 then Inl Exit
      else bind_res (enablereading ctl k0 (new_channel (lf_event f))) (\<lambda>(k1, wake).
        bind_res (enablereading ctl k1 (new_channel (lf_timer f))) (\<lambda>(k2, timer).
        Inr (k2, wake, timer))))"

record acceptor =
  ac_sock :: socket
  ac_channel :: channel

text \<open>The kernel's interest list here is that of the main loop.\<close>

definition acceptor_construct :: "'k epoll_ctl \<Rightarrow> sock_env \<Rightarrow> 32 word \<Rightarrow> 16 word \<Rightarrow> string \<Rightarrow> 16 word \<Rightarrow>
    'k \<Rightarrow> ('k \<times> acceptor \<times> sys_call list) res" where
  "acceptor_construct ctl env ajunk pjunk ip port k =
     bind_res (createnonblocking env []) (\<lambda>(tr, fd).
     let servaddr = new_InetAddress ajunk ip port;
         ts = setkeepalive True (settcpnodelay True (setreuseport True (setreuseaddr True (tr, new_socket pjunk fd)))) in
     bind_res (sock_bind env servaddr ts) (\<lambda>ts1.
     bind_res (sock_listen env 128 ts1) (\<lambda>(tr2, s).
     bind_res (enablereading ctl k (new_channel fd)) (\<lambda>(k', ch).
     Inr (k', \<lparr>ac_sock = s, ac_channel = ch\<rparr>, tr2)))))"

fun loops_construct :: "'k epoll_ctl \<Rightarrow> 'k \<Rightarrow> loop_fds list \<Rightarrow> 'k list res" where
  "loops_construct ctl k0 [] = Inr []"
| "loops_construct ctl k0 (f # fs) =
     bind_res (loop_construct ctl k0 f) (\<lambda>(k, _, _).
     bind_res (loops_construct ctl k0 fs) (\<lambda>ks. Inr (k # ks)))"

text \<open>Task \<open>i\<close> of the pool is \<open>run\<close> of loop \<open>i\<close>.\<close>

definition io_pool :: "nat \<Rightarrow> nat pool" where
  "io_pool n = fold addtask [0..<n] (new_pool n 0)"

record 'k started =
  st_main :: 'k
  st_acceptor :: acceptor
  st_calls :: "sys_call list"
  st_server :: "'k tcp_server"
  st_pool :: "nat pool"

definition TcpServer_construct :: "'k epoll_ctl \<Rightarrow> sock_env \<Rightarrow> 32 word \<Rightarrow> 16 word \<Rightarrow> 'k \<Rightarrow>
    loop_fds \<Rightarrow> loop_fds list \<Rightarrow> string \<Rightarrow> 16 word \<Rightarrow> 'k started res" where
  "TcpServer_construct ctl env ajunk pjunk k0 fmain fs ip port =
     bind_res (loop_construct ctl k0 fmain) (\<lambda>(k, _, _).
     bind_res (acceptor_construct ctl env ajunk pjunk ip port k) (\<lambda>(kmain, acc, tr).
     bind_res (loops_construct ctl k0 fs) (\<lambda>ks.
     Inr \<lparr>st_main = kmain, st_acceptor = acc, st_calls = tr,
       st_server = new_tcpserver (int (length fs)) (\<lambda>i. ks ! i), st_pool = io_pool (length fs)\<rparr>)))"

section \<open>What the constructors leave behind\<close>

text \<open>The descriptors the loops watch themselves are in \<open>own\<close>.\<close>

definition loops_own :: "('k \<Rightarrow> int \<Rightarrow> 32 word option) \<Rightarrow> int \<Rightarrow> (nat \<Rightarrow> 'k) \<Rightarrow> int set \<Rightarrow> bool" where
  "loops_own watched io ks own \<longleftrightarrow> (\<forall>i < nat io. \<forall>fd. watched (ks i) fd \<noteq> None \<longrightarrow> fd \<in> own)"

text \<open>The interest list of a new loop.\<close>

definition loop_interest :: "loop_fds \<Rightarrow> int \<Rightarrow> 32 word option" where
  "loop_interest f = [lf_event f \<mapsto> EPOLLIN, lf_timer f \<mapsto> EPOLLIN]"

lemma enablereading_fresh:
  assumes "epoll_ctl_spec ctl watched" "watched k fd = None"
  shows "\<exists>k'. enablereading ctl k (new_channel fd) =
      Inr (k', \<lparr>ch_fd = fd, inepoll = True, ch_events = EPOLLIN, ch_revents = 0\<rparr>) \<and>
    watched k' = (watched k)(fd := Some EPOLLIN)"
  using updatechannel_synced [OF assms(1), of k "new_channel fd" EPOLLIN] assms(2)
  by (simp add: synced_def new_channel_def enablereading_def)

lemma loop_constructed:
  assumes "epoll_ctl_spec ctl watched" "\<forall>fd. watched k0 fd = None" "lf_event f \<noteq> lf_timer f"
  shows "if lf_epoll f < 0 then loop_construct ctl k0 f = Inl Exit
    else \<exists>k wake timer. loop_construct ctl k0 f = Inr (k, wake, timer) \<and>
      watched k = loop_interest f"
proof (cases "lf_epoll f < 0")
  case False
  obtain k1 where k1: "enablereading ctl k0 (new_channel (lf_event f)) =
      Inr (k1, \<lparr>ch_fd = lf_event f, inepoll = True, ch_events = EPOLLIN, ch_revents = 0\<rparr>)"
      "watched k1 = (watched k0)(lf_event f := Some EPOLLIN)"
    using enablereading_fresh [OF assms(1) spec [OF assms(2)]] by blast
  have "watched k1 (lf_timer f) = None" using k1(2) assms(2,3) by simp
  from enablereading_fresh [OF assms(1) this] k1 False assms(2) show ?thesis
    by (auto simp: loop_construct_def loop_interest_def fun_eq_iff)
qed (simp add: loop_construct_def)

lemma loops_constructed:
  assumes "epoll_ctl_spec ctl watched" "\<forall>fd. watched k0 fd = None" "\<forall>f \<in> set fs. lf_event f \<noteq> lf_timer f"
  shows "if \<exists>f \<in> set fs. lf_epoll f < 0 then loops_construct ctl k0 fs = Inl Exit
    else \<exists>ks. loops_construct ctl k0 fs = Inr ks \<and>
      list_all2 (\<lambda>f k. watched k = loop_interest f) fs ks"
  using assms(3)
proof (induction fs)
  case (Cons f fs)
  then show ?case
    using loop_constructed [OF assms(1,2), of f] by (cases "lf_epoll f < 0") (auto split: if_splits)
qed simp

text \<open>A server that has been constructed: its loops watch their own descriptors and nothing else.\<close>

definition loop_descriptors :: "loop_fds list \<Rightarrow> int set" where
  "loop_descriptors fs = (\<Union>f \<in> set fs. {lf_event f, lf_timer f})"

lemma constructed_loops:
  assumes "epoll_ctl_spec ctl watched" "\<forall>fd. watched k0 fd = None" "\<forall>f \<in> set fs. lf_event f \<noteq> lf_timer f"
    and "TcpServer_construct ctl env ajunk pjunk k0 fmain fs ip port = Inr st"
  shows "\<exists>ks. st_server st = new_tcpserver (int (length fs)) ks \<and>
    (\<forall>i < length fs. watched (ks i) = loop_interest (fs ! i)) \<and>
    loops_own watched (int (length fs)) ks (loop_descriptors fs)"
proof -
  obtain ks where ks: "loops_construct ctl k0 fs = Inr ks" "st_server st = new_tcpserver (int (length fs)) ((!) ks)"
    using assms(4) by (auto simp: TcpServer_construct_def bind_res_Inr)
  have "list_all2 (\<lambda>f k. watched k = loop_interest f) fs ks"
    using loops_constructed [OF assms(1-3)] ks(1) by (auto split: if_splits)
  then have w: "\<forall>i < length fs. watched (ks ! i) = loop_interest (fs ! i)" by (simp add: list_all2_conv_all_nth)
  have "fd \<in> loop_descriptors fs" if "i < length fs" "loop_interest (fs ! i) fd \<noteq> None" for i fd
    using that nth_mem [OF that(1)] by (auto simp: loop_interest_def loop_descriptors_def split: if_splits)
  then have "loops_own watched (int (length fs)) ((!) ks) (loop_descriptors fs)"
    using w by (simp add: loops_own_def)
  with ks(2) w show ?thesis by blast
qed

text \<open>The pool of the I/O loops: as many tasks as threads, no thread is added.\<close>

lemma io_pool_fields:
  "tp_threads (io_pool n) = replicate n AtTest" "tp_queue (io_pool n) = [0..<n]" "\<not> tp_stop (io_pool n)"
proof -
  have "fold addtask [0..<i] (new_pool n 0) = (new_pool n 0)\<lparr>tp_queue := [0..<i]\<rparr>" if "i \<le> n" for i
    using that by (induction i) (simp_all add: addtask_def new_pool_def Let_def)
  from this [of n] show "tp_threads (io_pool n) = replicate n AtTest" "tp_queue (io_pool n) = [0..<n]"
      "\<not> tp_stop (io_pool n)"
    by (simp_all add: io_pool_def new_pool_def)
qed

text \<open>
  The threads of that pool: a loop that runs does not come back. Each idle thread has a task waiting
  for it, so no wait can run into its timeout.
\<close>

fun starting :: "nat tp_event \<Rightarrow> bool" where
  "starting (Test i) = True"
| "starting (WakeUp i) = True"
| "starting (TimeOut i) = True"
| "starting _ = False"

definition start_io :: "nat tp_event \<Rightarrow> nat pool \<Rightarrow> nat pool option" where
  "start_io e p = (if starting e then unfaulted tp_step e p else None)"

fun unstarted :: "nat phase \<Rightarrow> bool" where
  "unstarted AtTest = True"
| "unstarted InWait = True"
| "unstarted _ = False"

fun to_start :: "nat phase \<Rightarrow> nat" where
  "to_start AtTest = 2"
| "to_start InWait = 1"
| "to_start _ = 0"

definition io_inv :: "nat \<Rightarrow> nat pool \<Rightarrow> bool" where
  "io_inv n p \<longleftrightarrow> \<not> tp_stop p \<and> length (tp_threads p) = n \<and>
     cnt unstarted (tp_threads p) = length (tp_queue p) \<and>
     (\<forall>i < n. unstarted (tp_threads p ! i) \<or> (\<exists>j. tp_threads p ! i = Running (Some j))) \<and>
     running p + mset (tp_queue p) = mset [0..<n]"

definition io_started :: "nat pool \<Rightarrow> bool" where
  "io_started p \<longleftrightarrow> tp_queue p = [] \<and> (\<forall>x \<in> set (tp_threads p). \<exists>j. x = Running (Some j))"

definition io_left :: "nat pool \<Rightarrow> nat" where
  "io_left p = sum_list (map to_start (tp_threads p))"

lemma io_inv_new: "io_inv n (io_pool n)"
proof -
  have "sum_list (replicate n {#}) = ({#} :: nat multiset)" by (induction n) simp_all
  then show ?thesis by (simp add: io_inv_def io_pool_fields running_def)
qed

lemma io_left_set:
  assumes "at_phase (\<lambda>x. x = y) i p"
  shows "io_left (set_phase i x p) + to_start y = io_left p + to_start x"
  using sum_list_update_add [of i "tp_threads p" to_start x] assms
  by (simp add: at_phase_def io_left_def set_phase_def)

lemma start_io_step:
  assumes "io_inv n p" "start_io e p = Some p'"
  shows "io_inv n p' \<and> io_left p' < io_left p"
proof -
  have st: "\<not> tp_stop p" using assms(1) by (simp add: io_inv_def)
  consider (test) i where "at_phase (\<lambda>x. x = AtTest) i p" "p' = set_phase i InWait p"
    | (wake) i t ts where "at_phase (\<lambda>x. x = InWait) i p" "tp_queue p = t # ts"
        "p' = set_phase i (Running (Some t))
          (p\<lparr>tp_queue := ts, idleThreadnum := idleThreadnum p - 1, tp_started := tp_started p @ [t]\<rparr>)"
    | (timeout) i where "at_phase (\<lambda>x. x = InWait) i p" "tp_queue p = []"
    using assms(2) st
    by (cases e) (auto simp: start_io_def unfaulted_Some tp_test_def tp_wake_def tp_timeout_def
        split: if_splits list.splits)
  then show ?thesis
  proof cases
    case test
    have "cnt unstarted (tp_threads p') = cnt unstarted (tp_threads p)"
      using cnt_set_phase [OF test(1), of unstarted True InWait] by (simp add: test(2))
    moreover have "running p' = running p"
      using running_set_phase [OF test(1), of InWait] test(1) by (simp add: test(2) at_phase_def)
    moreover have "io_left p' < io_left p" using io_left_set [OF test(1), of InWait] by (simp add: test(2))
    ultimately show ?thesis
      using assms(1) by (simp add: io_inv_def test(2)) (auto simp: set_phase_def nth_update_if)
  next
    case wake
    let ?q = "p\<lparr>tp_queue := ts, idleThreadnum := idleThreadnum p - 1, tp_started := tp_started p @ [t]\<rparr>"
    have at: "at_phase (\<lambda>x. x = InWait) i ?q" using wake(1) by simp
    have q: "running ?q = running p" "io_left ?q = io_left p" by (simp_all add: running_def io_left_def)
    have "cnt unstarted (tp_threads p') + 1 = cnt unstarted (tp_threads p)"
      using cnt_set_phase [OF at, of unstarted True "Running (Some t)"] by (simp add: wake(3))
    moreover have "running p' = add_mset t (running p)"
      using running_set_phase [OF at, of "Running (Some t)"] wake(1) q(1) by (simp add: wake(3) at_phase_def)
    moreover have "io_left p' < io_left p"
      using io_left_set [OF at, of "Running (Some t)"] q(2) by (simp add: wake(3))
    ultimately show ?thesis
      using assms(1) wake(2) by (simp add: io_inv_def wake(3)) (auto simp: set_phase_def nth_update_if)
  next
    case timeout
    then have "0 < cnt unstarted (tp_threads p)" by (auto simp: at_phase_def intro: cnt_pos)
    then show ?thesis using assms(1) timeout(2) by (simp add: io_inv_def)
  qed
qed

lemma start_io_progress:
  assumes "io_inv n p" "\<not> io_started p"
  shows "\<exists>e p'. start_io e p = Some p'"
proof -
  have st: "\<not> tp_stop p" using assms(1) by (simp add: io_inv_def)
  have "\<exists>i < n. unstarted (tp_threads p ! i)"
  proof (rule ccontr)
    assume n: "\<not> (\<exists>i < n. unstarted (tp_threads p ! i))"
    have "filter unstarted (tp_threads p) = []"
      using n assms(1) by (auto simp: io_inv_def filter_empty_conv in_set_conv_nth)
    then have "tp_queue p = []" using assms(1) by (simp add: io_inv_def cnt_def)
    moreover have "\<exists>j. tp_threads p ! i = Running (Some j)" if "i < n" for i
      using n assms(1) that by (auto simp: io_inv_def)
    ultimately show False using assms by (fastforce simp: io_inv_def io_started_def in_set_conv_nth)
  qed
  then obtain i where i: "i < length (tp_threads p)" "unstarted (tp_threads p ! i)"
    using assms(1) by (auto simp: io_inv_def)
  show ?thesis
  proof (cases "tp_threads p ! i")
    case AtTest
    then show ?thesis
      using i by (intro exI [of _ "Test i"]) (simp add: start_io_def unfaulted_def at_phase_def)
  next
    case InWait
    have "0 < cnt unstarted (tp_threads p)" using i by (intro cnt_pos)
    then obtain t ts where "tp_queue p = t # ts"
      using assms(1) by (cases "tp_queue p") (simp_all add: io_inv_def)
    then show ?thesis
      using i InWait by (intro exI [of _ "WakeUp i"]) (simp add: start_io_def unfaulted_def at_phase_def tp_wake_def)
  qed (use i in simp_all)
qed

interpretation io: runs_down start_io "io_inv n" io_started io_left for n
  by unfold_locales (use start_io_step start_io_progress in blast)+

section \<open>Properties\<close>

text \<open>The calls the acceptor makes before it registers its channel.\<close>

definition listen_calls :: "int \<Rightarrow> InetAddress \<Rightarrow> sys_call list" where
  "listen_calls fd servaddr = [SysSocket, SysSetsockopt fd SOL_SOCKET SO_REUSEADDR 1, SysSetsockopt fd SOL_SOCKET SO_REUSEPORT 1,
     SysSetsockopt fd SOL_SOCKET TCP_NODELAY 1, SysSetsockopt fd SOL_SOCKET SO_KEEPALIVE 1, SysBind fd servaddr,
     SysListen fd 128]"

lemma acceptor_constructed:
  assumes "epoll_ctl_spec ctl watched" "watched k (se_socket env) = None"
  shows "if se_socket env < 0 \<or> \<not> se_bind env (new_InetAddress ajunk ip port) \<or> \<not> se_listen env
    then acceptor_construct ctl env ajunk pjunk ip port k = Inl Exit
    else \<exists>k' acc. acceptor_construct ctl env ajunk pjunk ip port k =
        Inr (k', acc, listen_calls (se_socket env) (new_InetAddress ajunk ip port)) \<and>
      watched k' = (watched k)(se_socket env \<mapsto> EPOLLIN) \<and>
      so_fd (ac_sock acc) = se_socket env \<and> so_port (ac_sock acc) = port \<and>
      so_ip (ac_sock acc) = addr_ip (new_InetAddress ajunk ip port) \<and>
      ch_fd (ac_channel acc) = se_socket env"
  using enablereading_fresh [OF assms]
  by (auto simp: acceptor_construct_def createnonblocking_def sock_bind_def sock_listen_def setkeepalive_def
      settcpnodelay_def setreuseport_def setreuseaddr_def setsockopt_def new_socket_def setipport_def
      listen_calls_def Let_def addr_port_def new_InetAddress_def)


text \<open>
  C20. Every I/O loop gets a thread of its own: however the threads of the pool are scheduled, they make at
  most two steps each before all of them are inside \<open>run\<close>, and then the \<open>n\<close> threads run the \<open>n\<close> loops,
  each of them once. No wait times out on the way.
\<close>

theorem io_loops_start:
  assumes "steps start_io es (io_pool n) = Some p"
  shows "length es \<le> 2 * n \<and> TimeOut i \<notin> set es \<and>
    ((\<forall>e. start_io e p = None) \<longrightarrow> tp_queue p = [] \<and> length (tp_threads p) = n \<and> running p = mset [0..<n] \<and>
       (\<forall>x \<in> set (tp_threads p). \<exists>j. x = Running (Some j)))"
proof -
  have "io_left (io_pool n) = 2 * n" by (simp add: io_left_def io_pool_fields sum_list_replicate)
  then have "length es \<le> 2 * n" "io_inv n p" using io.bounded [OF io_inv_new assms] by simp_all
  moreover have "io_started p" if "\<forall>e. start_io e p = None"
    using io.stuck_finished [OF io_inv_new assms] that by blast
  moreover have "TimeOut i \<notin> set es"
    using assms io_inv_new [of n]
  proof (induction es arbitrary: "p" rule: rev_induct)
    case (snoc e es)
    then obtain p1 where p1: "steps start_io es (io_pool n) = Some p1" "start_io e p1 = Some p"
      by (auto simp: steps_append bind_eq_Some_conv split: option.splits)
    have inv: "io_inv n p1" using io.bounded [OF io_inv_new p1(1)] by simp
    have "e \<noteq> TimeOut i"
    proof
      assume "e = TimeOut i"
      with p1(2) have "at_phase (\<lambda>x. x = InWait) i p1" "tp_queue p1 = []"
        by (auto simp: start_io_def unfaulted_Some tp_timeout_def split: if_splits)
      moreover from this(1) have "0 < cnt unstarted (tp_threads p1)" by (auto simp: at_phase_def intro: cnt_pos)
      ultimately show False using inv by (simp add: io_inv_def)
    qed
    with snoc.IH [OF p1(1)] snoc.prems(2) show ?case by simp
  qed simp
  ultimately show ?thesis by (auto simp: io_inv_def io_started_def)
qed

text \<open>A server with two I/O loops whose kernel says yes to everything.\<close>

definition sample_loops :: "loop_fds list" where
  "sample_loops = [\<lparr>lf_epoll = 11, lf_event = 3, lf_timer = 4\<rparr>, \<lparr>lf_epoll = 12, lf_event = 5, lf_timer = 6\<rparr>]"

definition sample_started :: "(int \<Rightarrow> 32 word option) started res" where
  "sample_started = TcpServer_construct list_ctl \<lparr>se_socket = 9, se_bind = \<lambda>_. True, se_listen = True\<rparr> 0 0 (\<lambda>_. None)
     \<lparr>lf_epoll = 10, lf_event = 7, lf_timer = 8\<rparr> sample_loops ''127.0.0.1'' 8080"

lemma sample_server_starts: "\<exists>st. sample_started = Inr st"
  by (simp add: sample_started_def TcpServer_construct_def loop_construct_def acceptor_construct_def sample_loops_def
      createnonblocking_def sock_bind_def sock_listen_def setkeepalive_def settcpnodelay_def setreuseport_def
      setreuseaddr_def setsockopt_def new_socket_def enablereading_def epoll_updatechannel_def new_channel_def Let_def)


theorem io_loops_start_witness:
  "\<exists>p. steps start_io [Test 1, WakeUp 1, Test 0, WakeUp 0] (io_pool 2) = Some p \<and> running p = {#0, 1#}"
proof -
  have t: "new_pool 2 0 = (\<lparr>minThreadnum = 2, maxThreadnum = 2, currentThreadnum = 2, idleThreadnum = 2, tp_queue = [],
      tp_stop = False, tp_threads = [AtTest, AtTest], deadThreadQueue = [], tp_started = []\<rparr> :: nat pool)"
    by (simp add: new_pool_def eval_nat_numeral)
  obtain p where p: "steps start_io [Test 1, WakeUp 1, Test 0, WakeUp 0] (io_pool 2) = Some p"
    "tp_queue p = []" "tp_threads p = [Running (Some 1), Running (Some 0)]"
    by (simp add: io_pool_def t upt_rec addtask_def start_io_def unfaulted_def at_phase_def tp_test_def
        tp_wake_def set_phase_def)
  have "start_io e p = None" for e
    by (cases e) (auto simp: start_io_def unfaulted_def at_phase_def p(3) nth_Cons split: nat.splits)
  with io_loops_start [OF p(1), of 0] have "running p = mset [0..<2]" by blast
  then show ?thesis using p(1) by (auto simp: upt_rec)
qed

end
