(* ===== verification/ServerOpen.thy ===== *)
theory ServerOpen
  imports ServerRun Startup
begin

text \<open>
  The running server of \<open>ServerRun\<close> when nobody disturbs it: every connection stays open and in
  step with the kernel, and nothing but an answer can fault.
\<close>

section \<open>Runs that keep every connection open\<close>

text \<open>
  Events of an undisturbed server: the kernel accepts descriptors that no connection has and no
  loop watches itself (\<open>own\<close>: the wake-up and timer descriptors), every
  readable event ends with the socket drained and open, and no timer or error takes a connection away.
\<close>

definition fresh_fd :: "int set \<Rightarrow> 'k tcp_server \<Rightarrow> int \<Rightarrow> bool" where
  "fresh_fd own sv fd \<longleftrightarrow> 0 \<le> fd \<and> fd \<notin> own \<and> (\<forall>h < length (objs sv). sv_fd h sv \<noteq> fd)"

fun undisturbed :: "int set \<Rightarrow> srv_event \<Rightarrow> ('k, 'w) rpc_server \<Rightarrow> bool" where
  "undisturbed own (Accept now fd) s = fresh_fd own (tcp s) fd"
| "undisturbed own (Readable h now rs) s = (\<exists>rs'. rs = rs' @ [RecvErr EAGAIN] \<and> (\<forall>r \<in> set rs'. receiving r))"
| "undisturbed own (Timer i now) s = False"
| "undisturbed own (ErrorEv h) s = False"
| "undisturbed own (BrokenPipe h) s = False"
| "undisturbed own e s = True"

fun undisturbed_run :: "int set \<Rightarrow> 'k epoll_ctl \<Rightarrow> 'w app \<Rightarrow> srv_event list \<Rightarrow> ('k, 'w) rpc_server \<Rightarrow> bool" where
  "undisturbed_run own ctl d [] s = True"
| "undisturbed_run own ctl d (e # es) s = (undisturbed own e s \<and>
     (case srv_step ctl d e s of Some (Inr s') \<Rightarrow> undisturbed_run own ctl d es s' | _ \<Rightarrow> True))"

text \<open>
  Every connection is open, with all callbacks and its own descriptor, its input buffer is empty, and
  a loop's interest list has no descriptor but its own and those of its connections.
\<close>

definition input_ok :: "buffer \<Rightarrow> bool" where
  "input_ok b \<longleftrightarrow> b_buf b = [] \<and> b_sep b = 0 \<and> b_maxLen b = MAX_BUF_SIZE"

definition all_open :: "('k \<Rightarrow> int \<Rightarrow> 32 word option) \<Rightarrow> int set \<Rightarrow> 'k tcp_server \<Rightarrow> bool" where
  "all_open watched own sv \<longleftrightarrow>
     (\<forall>h < length (objs sv). let c = sc_conn (objs sv ! h) in
        conn_open watched (epolls sv ! loop_of sv h) c \<and> ch_fd (chan c) = sv_fd h sv \<and>
        sc_installed (objs sv ! h) = 4 \<and> input_ok (inputbuffer c)) \<and>
     (\<forall>h < length (objs sv). \<forall>h' < length (objs sv). sv_fd h sv = sv_fd h' sv \<longrightarrow> h = h') \<and>
     (\<forall>i < length (epolls sv). \<forall>fd. watched (epolls sv ! i) fd \<noteq> None \<longrightarrow>
        fd \<in> own \<or> (\<exists>h < length (objs sv). sv_fd h sv = fd))"

text \<open>An operation on the channel of one connection leaves the others' registrations alone.\<close>

lemma all_open_put:
  assumes "all_open watched own sv" "sv_inv sv" "h < length (objs sv)"
    and "conn_open watched k c" "c_fd c = sv_fd h sv" "ch_fd (chan c) = sv_fd h sv" "input_ok (inputbuffer c)"
    and "\<And>fd. fd \<noteq> sv_fd h sv \<Longrightarrow> watched k fd = watched (epolls sv ! loop_of sv h) fd"
  shows "all_open watched own (sv_put (loop_of sv h) h (k, c) sv)" (is "all_open watched own ?sv")
proof -
  note i = subloop_index_inv [OF assms(2,3)]
  have fd: "sv_fd h' ?sv = sv_fd h' sv" for h'
    using assms(5) by (auto simp: sv_put_def sv_fd_def nth_update_if)
  have l: "loop_of ?sv h' = loop_of sv h'" for h' using fd [of h'] by (metis loop_of_def put_sels(2))
  have obj: "sc_conn (objs ?sv ! h') = (if h' = h then c else sc_conn (objs sv ! h'))"
    "sc_installed (objs ?sv ! h') = sc_installed (objs sv ! h')" for h'
    using assms(3) by (simp_all add: sv_put_def nth_update_if)
  have ep: "epolls ?sv ! j = (if j = loop_of sv h then k else epolls sv ! j)" "length (epolls ?sv) = length (epolls sv)" for j
    using i(3) by (simp_all add: sv_put_def nth_update_if)
  have w: "watched (epolls ?sv ! j) fd = watched (epolls sv ! j) fd" if "fd \<noteq> sv_fd h sv" for j fd
    using assms(8) [OF that] by (simp add: ep)
  have o: "conn_open watched (epolls ?sv ! loop_of sv h') (sc_conn (objs ?sv ! h'))" if h': "h' < length (objs sv)" for h'
  proof (cases "h' = h")
    case False
    with assms(1,3) h' have "sv_fd h' sv \<noteq> sv_fd h sv" by (auto simp: all_open_def)
    moreover have "conn_open watched (epolls sv ! loop_of sv h') (sc_conn (objs sv ! h'))"
      "ch_fd (chan (sc_conn (objs sv ! h'))) = sv_fd h' sv"
      using assms(1) h' by (auto simp: all_open_def Let_def)
    ultimately show ?thesis using False w by (simp add: obj conn_open_def synced_def)
  qed (simp add: obj ep assms(4))
  have "fd \<in> own \<or> (\<exists>h < length (objs sv). sv_fd h sv = fd)" if "j < length (epolls sv)" "watched (epolls ?sv ! j) fd \<noteq> None" for j fd
    using assms(1,3) that w [of fd j] by (cases "fd = sv_fd h sv") (auto simp: all_open_def)
  then show ?thesis
    using assms(1,6,7) o by (auto simp: all_open_def Let_def fd l obj ep(2))
qed

text \<open>What an operation on the channel of \<open>c\<close> leaves alone.\<close>

definition framed :: "('k \<Rightarrow> int \<Rightarrow> 32 word option) \<Rightarrow> 'k \<times> conn \<Rightarrow> 'k \<times> conn \<Rightarrow> bool" where
  "framed watched = (\<lambda>(k, c) (k', c'). c_fd c' = c_fd c \<and> ch_fd (chan c') = ch_fd (chan c) \<and>
     inputbuffer c' = inputbuffer c \<and> (\<forall>fd. fd \<noteq> ch_fd (chan c) \<longrightarrow> watched k' fd = watched k fd))"

lemma on_channel_framed:
  assumes "epoll_ctl_spec ctl watched" "synced watched k (chan c)"
    and "on_channel (\<lambda>k ch. epoll_updatechannel ctl k (ch\<lparr>ch_events := f (ch_events ch)\<rparr>)) (k, c) = Inr kc"
  shows "framed watched (k, c) kc"
  using updatechannel_synced [OF assms(1,2), of "f (ch_events (chan c))"] assms(3)
  by (auto simp: on_channel_def framed_def)

lemma sendinloop_framed:
  assumes "epoll_ctl_spec ctl watched" "conn_open watched k c" "sendinloop ctl d (k, c) = Inr kc"
  shows "framed watched (k, c) kc"
proof -
  let ?c = "c\<lparr>outputbuffer := appendwithsep (outputbuffer c) d\<rparr>"
  have "on_channel (\<lambda>k ch. epoll_updatechannel ctl k (ch\<lparr>ch_events := ch_events ch OR EPOLLOUT\<rparr>)) (k, ?c) = Inr kc"
    using assms(3) by (simp add: sendinloop_def on_channel_def enablewriting_def)
  moreover have "synced watched k (chan ?c)" using assms(2) by (simp add: conn_open_def)
  ultimately have "framed watched (k, ?c) kc"
    by (intro on_channel_framed [OF assms(1), where f = "\<lambda>e. e OR EPOLLOUT"]) simp_all
  then show ?thesis by (simp add: framed_def case_prod_unfold)
qed

lemma writecallback_framed:
  assumes "epoll_ctl_spec ctl watched" "conn_open watched k c" "writecallback ctl n (k, c) = Inr (fin, kc)"
  shows "framed watched (k, c) kc"
proof -
  obtain b where "(if n > 0 then buffer_erase (outputbuffer c) 0 n else Inr (outputbuffer c)) = Inr b"
    using assms(3) unfolding writecallback_def prod.case by (rule bind_res_InrE)
  then have b: "if buffer_size b = 0 then
      on_channel (disablewriting ctl) (k, c\<lparr>outputbuffer := b\<rparr>) = Inr kc else kc = (k, c\<lparr>outputbuffer := b\<rparr>)"
    using assms(3) by (cases "buffer_size b = 0") (simp_all add: writecallback_def Let_def, auto simp: bind_res_Inr)
  let ?c = "c\<lparr>outputbuffer := b\<rparr>"
  have "synced watched k (chan ?c)" using assms(2) by (simp add: conn_open_def)
  from on_channel_framed [OF assms(1) this, of "\<lambda>e. e AND NOT EPOLLOUT" kc] b
  have "framed watched (k, ?c) kc"
    by (auto simp: on_channel_def disablewriting_def framed_def split: if_splits)
  then show ?thesis by (simp add: framed_def case_prod_unfold)
qed

lemma open_sel:
  assumes "all_open watched own sv" "h < length (objs sv)"
  shows "conn_open watched (epolls sv ! loop_of sv h) (sc_conn (objs sv ! h))"
    "ch_fd (chan (sc_conn (objs sv ! h))) = sv_fd h sv" "c_fd (sc_conn (objs sv ! h)) = sv_fd h sv"
    "sc_installed (objs sv ! h) = 4" "input_ok (inputbuffer (sc_conn (objs sv ! h)))"
    "\<not> disconnect (sc_conn (objs sv ! h))"
  using assms by (auto simp: all_open_def Let_def conn_open_def sv_fd_def)

lemma all_open_framed:
  assumes "all_open watched own sv" "sv_inv sv" "h < length (objs sv)" "conn_open watched k c"
    and "framed watched (epolls sv ! loop_of sv h, sc_conn (objs sv ! h)) (k, c)"
  shows "all_open watched own (sv_put (loop_of sv h) h (k, c) sv)"
  using open_sel [OF assms(1,3)] assms(5)
  by (intro all_open_put [OF assms(1-4)]) (auto simp: framed_def)

text \<open>The queues of the loops do not matter.\<close>

lemma all_open_loops:
  assumes "all_open watched own sv" "epolls sv' = epolls sv" "objs sv' = objs sv" "threadnum sv' = threadnum sv"
  shows "all_open watched own sv'"
proof -
  have "sv_fd h sv' = sv_fd h sv" for h by (simp add: sv_fd_def assms(3))
  moreover from this have "loop_of sv' h = loop_of sv h" for h by (simp add: loop_of_def assms(4))
  ultimately show ?thesis using assms by (simp add: all_open_def)
qed

lemma send_open:
  assumes "epoll_ctl_spec ctl watched" "all_open watched own sv" "sv_inv sv" "h < length (objs sv)"
  shows "\<exists>sv'. sv_send ctl inloop h data sv = Inr sv' \<and> all_open watched own sv'"
proof (cases inloop)
  case True
  obtain k c where c: "sendinloop ctl data (epolls sv ! loop_of sv h, sc_conn (objs sv ! h)) = Inr (k, c)"
    "conn_open watched k c"
    using sendinloop_open [OF assms(1) open_sel(1) [OF assms(2,4)]] by blast
  from all_open_framed [OF assms(2-4) c(2) sendinloop_framed [OF assms(1) open_sel(1) [OF assms(2,4)] c(1)]]
  show ?thesis
    using True c(1) open_sel(6) [OF assms(2,4)] subloop_index_inv(1) [OF assms(3,4)] by (simp add: sv_send_def)
next
  case False
  show ?thesis
    using False open_sel(6) [OF assms(2,4)] subloop_index_inv(1) [OF assms(3,4)]
    by (simp add: sv_send_def) (rule all_open_loops [OF assms(2)], simp_all)
qed

lemma write_open:
  assumes "epoll_ctl_spec ctl watched" "all_open watched own sv" "sv_inv sv" "h < length (objs sv)"
  shows "\<exists>out sv'. sv_write ctl room h sv = Inr (out, sv') \<and> all_open watched own sv' \<and>
    (\<forall>n. room = Some n \<longrightarrow> length (b_buf (out_of sv h)) \<le> n \<longrightarrow> out = b_buf (out_of sv h))"
proof -
  note o = open_sel [OF assms(2,4)]
  obtain fin k c where c: "writecallback ctl (writen room (b_buf (out_of sv h)))
      (epolls sv ! loop_of sv h, sc_conn (objs sv ! h)) = Inr (fin, k, c)" "conn_open watched k c"
    using writecallback_open [OF assms(1) o(1), of room] unfolding out_of_def by blast
  from all_open_framed [OF assms(2-4) c(2) writecallback_framed [OF assms(1) o(1) c(1)]]
  show ?thesis
    using c(1) o(4) subloop_index_inv(1) [OF assms(3,4)]
    by (auto simp: sv_write_def buffer_data_def out_of_def Let_def take_writen)
qed

lemma run_send_open:
  assumes "epoll_ctl_spec ctl watched" "i < length (epolls sv)"
    and "sv_inv (sv\<lparr>epolls := (epolls sv)[i := k], objs := os\<rparr>)" (is "sv_inv ?sv1")
    and "all_open watched own (sv\<lparr>epolls := (epolls sv)[i := k], objs := os\<rparr>)"
    and "\<forall>t \<in> set ts. fst t < length os \<and> loop_of (sv\<lparr>epolls := (epolls sv)[i := k], objs := os\<rparr>) (fst t) = i"
  shows "\<exists>k' os'. run_tasks (run_send ctl) ts (k, os) = Inr (k', os') \<and>
    all_open watched own (sv\<lparr>epolls := (epolls sv)[i := k'], objs := os'\<rparr>)"
  using assms(3-5)
proof (induction ts arbitrary: k os)
  case (Cons t ts)
  obtain h d where t: "t = (h, d)" by fastforce
  let ?sv1 = "sv\<lparr>epolls := (epolls sv)[i := k], objs := os\<rparr>"
  have h: "h < length (objs ?sv1)" "loop_of ?sv1 h = i" using Cons.prems(3) by (simp_all add: t)
  have e: "epolls ?sv1 ! loop_of ?sv1 h = k" "objs ?sv1 = os" using h(2) assms(2) by simp_all
  note o = open_sel [OF Cons.prems(2) h(1), unfolded e]
  obtain k' c where c: "sendinloop ctl d (k, sc_conn (os ! h)) = Inr (k', c)" "conn_open watched k' c"
    using sendinloop_open [OF assms(1) o(1)] by blast
  note f = sendinloop_framed [OF assms(1) o(1) c(1)]
  let ?os = "os[h := (os ! h)\<lparr>sc_conn := c\<rparr>]"
  let ?sv2 = "sv\<lparr>epolls := (epolls sv)[i := k'], objs := ?os\<rparr>"
  have put: "sv_put (loop_of ?sv1 h) h (k', c) ?sv1 = ?sv2" by (simp add: sv_put_def h(2))
  have 1: "all_open watched own ?sv2"
    using all_open_framed [OF Cons.prems(2,1) h(1) c(2), unfolded e, OF f] by (simp only: put)
  have fd: "c_fd c = sv_fd h ?sv1" using f o(3) by (simp add: framed_def)
  have 2: "sv_inv ?sv2"
    using sv_inv_objs(1) [OF Cons.prems(1) _ fd, of "(epolls sv)[i := k']"] by simp
  have "loop_of ?sv2 h' = loop_of ?sv1 h'" for h'
    using fd by (simp add: loop_of_def sv_fd_def nth_update_if)
  with Cons.prems(3) have 3: "\<forall>t \<in> set ts. fst t < length ?os \<and> loop_of ?sv2 (fst t) = i" by simp
  from Cons.IH [OF 2 1 3] show ?case using h(1) by (simp add: t run_send_def c(1))
qed simp

lemma wake_open:
  assumes "epoll_ctl_spec ctl watched" "all_open watched own sv" "sv_ok sv" "i < length (subloops sv)"
  shows "\<exists>sv'. sv_wake ctl i sv = Inr sv' \<and> all_open watched own sv'"
proof -
  have inv: "sv_inv sv" using assms(3) by (simp add: sv_ok_def)
  then have i: "i < length (epolls sv)" using assms(4) by (simp add: sv_inv_def)
  have e: "sv\<lparr>epolls := (epolls sv)[i := epolls sv ! i], objs := objs sv\<rparr> = sv" by simp
  have "\<forall>t \<in> set (queue_of sv i). fst t < length (objs sv) \<and> loop_of sv (fst t) = i"
    using assms(3,4) by (simp add: sv_ok_def tasks_ok_def)
  from run_send_open [OF assms(1) i, where k = "epolls sv ! i" and os = "objs sv" and ts = "queue_of sv i", unfolded e, OF inv assms(2) this]
  obtain k os where k: "run_tasks (run_send ctl) (queue_of sv i) (epolls sv ! i, objs sv) = Inr (k, os)"
    and o: "all_open watched own (sv\<lparr>epolls := (epolls sv)[i := k], objs := os\<rparr>)"
    by blast
  show ?thesis
    using k all_open_loops [OF o, of "sv\<lparr>subloops := (subloops sv)[i := (subloops sv ! i)\<lparr>wakeups := 0, taskqueue := []\<rparr>],
        epolls := (epolls sv)[i := k], objs := os\<rparr>"]
    by (simp add: sv_wake_def handlewakeup_def queue_of_def)
qed

lemma onmessage_in:
  "onmessagecallback ctl now rs kc = Some (Inr (e, msgs, k', c')) \<Longrightarrow> b_sep (inputbuffer (snd kc)) = 0 \<Longrightarrow>
     b_sep (inputbuffer c') = 0 \<and> b_maxLen (inputbuffer c') = b_maxLen (inputbuffer (snd kc)) \<and> chan c' = chan (snd kc) \<or> e = PeerClosed"
proof (induction ctl now rs kc rule: onmessagecallback.induct)
  case (2 ctl now d rs k c)
  then show ?case by (auto simp: bind_res_Inr split: if_splits)
next
  case (4 ctl now rs k c)
  then show ?case using deliver_loop_sep0 [of "inputbuffer c"] by auto
qed auto

lemma read_open:
  assumes "all_open watched own sv" "sv_inv sv" "h < length (objs sv)" "\<forall>r \<in> set rs. receiving r"
  shows "\<exists>m sv'. sv_read ctl now (rs @ [RecvErr EAGAIN]) h sv = Some (Inr (if m = [] then [] else [m], sv')) \<and>
    all_open watched own sv' \<and> m = kept 1000000 [] (chunks rs) \<and> length (objs sv') = length (objs sv)"
proof -
  note o = open_sel [OF assms(1,3)] and i = subloop_index_inv [OF assms(2,3)]
  let ?c = "sc_conn (objs sv ! h)" and ?k = "epolls sv ! loop_of sv h"
  have b: "within_max (inputbuffer ?c)" "b_sep (inputbuffer ?c) = 0" "b_buf (inputbuffer ?c) = []"
    "unat (b_maxLen (inputbuffer ?c)) = 1000000"
    using o(5) by (simp_all add: input_ok_def within_max_def MAX_BUF_SIZE_def)
  obtain m b where m: "onmessagecallback ctl now (rs @ [RecvErr EAGAIN]) (?k, ?c) =
      Some (Inr (WouldBlock, if m = [] then [] else [m], ?k,
        ?c\<lparr>inputbuffer := b, lastatime := (if m = [] then lastatime ?c else now)\<rparr>))" "b_buf b = []"
      "m = kept 1000000 [] (chunks rs)"
    using onmessage_reads [OF assms(4) b(1,2), of ctl now ?k] b(3,4) by auto
  let ?c' = "?c\<lparr>inputbuffer := b, lastatime := (if m = [] then lastatime ?c else now)\<rparr>"
  have "input_ok (inputbuffer ?c')"
    using onmessage_in [OF m(1)] b(2) m(2) o(5) by (simp add: input_ok_def)
  moreover have "conn_open watched ?k ?c'" "c_fd ?c' = sv_fd h sv" "ch_fd (chan ?c') = sv_fd h sv"
    using o by (simp_all add: conn_open_def)
  ultimately have "all_open watched own (sv_put (loop_of sv h) h (?k, ?c') sv)"
    by (intro all_open_put [OF assms(1-3)]) simp_all
  then show ?thesis
    using m(1,3) i(1) o(4) by (intro exI [of _ m]) (auto simp: sv_read_def sv_put_def Let_def)
qed

lemma accept_open:
  assumes "epoll_ctl_spec ctl watched" "all_open watched own sv" "sv_inv sv" "fresh_fd own sv fd"
  shows "\<exists>h sv'. newconnction ctl now fd sv = Inr (h, sv') \<and> all_open watched own sv' \<and> h = length (objs sv)"
proof -
  let ?i = "nat (fd mod threadnum sv)" and ?h = "length (objs sv)"
  have fd: "0 \<le> fd" using assms(4) by (simp add: fresh_fd_def)
  have i: "?i < length (epolls sv)" using assms(3) by (simp add: sv_inv_def)
  have w: "watched (epolls sv ! j) fd = None" if "j < length (epolls sv)" for j
  proof (rule ccontr)
    assume "watched (epolls sv ! j) fd \<noteq> None"
    with assms(2) that have "fd \<in> own \<or> (\<exists>h < ?h. sv_fd h sv = fd)" unfolding all_open_def by blast
    with assms(4) show False by (auto simp: fresh_fd_def)
  qed
  obtain k c where kc: "new_connection ctl fd now (epolls sv ! ?i) = Inr (k, c)" "conn_open watched k c" "c_fd c = fd"
    using new_connection_open [OF assms(1) w [OF i]] by blast
  have "synced watched (epolls sv ! ?i) (useet (new_channel fd))"
    using w [OF i] by (simp add: synced_def useet_def new_channel_def)
  from updatechannel_synced [OF assms(1) this, of "ch_events (useet (new_channel fd)) OR EPOLLIN"] kc(1)
  have k: "\<And>fd'. fd' \<noteq> fd \<Longrightarrow> watched k fd' = watched (epolls sv ! ?i) fd'" "ch_fd (chan c) = fd"
      "inputbuffer c = new_buffer_sep 0"
    by (auto simp: new_connection_def enablereading_def useet_def new_channel_def)
  obtain sv' where sv': "newconnction ctl now fd sv = Inr (?h, sv')" "threadnum sv' = threadnum sv"
      "objs sv' = objs sv @ [\<lparr>sc_conn = c, sc_installed = 4\<rparr>]" "epolls sv' = (epolls sv)[?i := k]"
    using sv_inv_newconnction [OF assms(3) fd kc(1)] by blast
  have s: "sv_fd h sv' = (if h = ?h then fd else sv_fd h sv)" if "h \<le> ?h" for h
    using that kc(3) by (simp add: sv_fd_def sv'(3) nth_append)
  then have l: "loop_of sv' h = (if h = ?h then ?i else loop_of sv h)" if "h \<le> ?h" for h
    using that by (simp add: loop_of_def sv'(2))
  have old: "conn_open watched (epolls sv' ! loop_of sv h) (sc_conn (objs sv ! h))" if "h < ?h" for h
  proof -
    have "sv_fd h sv \<noteq> fd" using assms(4) that by (auto simp: fresh_fd_def)
    then show ?thesis
      using open_sel [OF assms(2) that] k(1)
      by (cases "loop_of sv h = ?i") (simp_all add: sv'(4) nth_update_if conn_open_def synced_def)
  qed
  have "let c = sc_conn (objs sv' ! h) in conn_open watched (epolls sv' ! loop_of sv' h) c \<and>
      ch_fd (chan c) = sv_fd h sv' \<and> sc_installed (objs sv' ! h) = 4 \<and> input_ok (inputbuffer c)" if "h < Suc ?h" for h
    using that old [of h] open_sel [OF assms(2), of h] kc(2) k(2,3) i s [of h] l [of h]
    by (cases "h = ?h") (simp_all add: sv'(3,4) nth_append input_ok_def new_buffer_sep_def)
  moreover have "h = h'" if "h < Suc ?h" "h' < Suc ?h" "sv_fd h sv' = sv_fd h' sv'" for h h'
    using that s [of h] s [of h'] assms(2,4) by (auto simp: all_open_def fresh_fd_def less_Suc_eq split: if_splits)
  moreover have "fd' \<in> own \<or> (\<exists>h < Suc ?h. sv_fd h sv' = fd')" if j: "j < length (epolls sv)" "watched (epolls sv' ! j) fd' \<noteq> None" for j fd'
  proof (cases "fd' = fd")
    case True
    then show ?thesis using s [of ?h] by auto
  next
    case False
    then have "watched (epolls sv ! j) fd' \<noteq> None"
      using j k(1) by (auto simp: sv'(4) nth_update_if split: if_splits)
    then have "fd' \<in> own \<or> (\<exists>h < ?h. sv_fd h sv = fd')" using assms(2) j(1) unfolding all_open_def by blast
    then show ?thesis using s by (metis less_Suc_eq less_imp_le less_not_refl)
  qed
  ultimately show ?thesis using sv' by (simp add: all_open_def)
qed

definition srv_open :: "('k \<Rightarrow> int \<Rightarrow> 32 word option) \<Rightarrow> int set \<Rightarrow> ('k, 'w) rpc_server \<Rightarrow> bool" where
  "srv_open watched own s \<longleftrightarrow> all_open watched own (tcp s) \<and> (\<forall>r \<in> set (replies s). re_sent r)"

text \<open>The outcome of a step: an open server, or a fault of the decoder, a method or the encoder.\<close>

definition open_or_fault :: "('k \<Rightarrow> int \<Rightarrow> 32 word option) \<Rightarrow> int set \<Rightarrow> 'w app \<Rightarrow> ('k, 'w) rpc_server res \<Rightarrow> bool" where
  "open_or_fault watched own d r \<longleftrightarrow>
     (case r of Inr s \<Rightarrow> srv_open watched own s | Inl f \<Rightarrow> \<exists>m w. d m w = Some (Inl f))"

lemma open_or_fault_simps [simp]:
  "open_or_fault watched own d (Inr s) = srv_open watched own s"
  "open_or_fault watched own d (Inl f) = (\<exists>m w. d m w = Some (Inl f))"
  by (simp_all add: open_or_fault_def)

lemma srv_inv_sel:
  assumes "srv_inv d w0 s"
  shows "sv_ok (tcp s)" "sv_inv (tcp s)" "tp_inv (workers s)" "core_inv d w0 s"
  using assms by (simp_all add: srv_inv_def core_inv_def sv_ok_def)

lemma OnMessage_open:
  assumes "epoll_ctl_spec ctl watched" "srv_open watched own s" "sv_inv (tcp s)" "h < length (objs (tcp s))"
    and "server_OnMessage ctl d inloop (h, m) s = Some r"
  shows "open_or_fault watched own d r"
proof -
  obtain a where a: "d m (world s) = Some a" using assms(5) by (auto simp: server_OnMessage_def)
  show ?thesis
  proof (cases a)
    case (Inl f)
    then have "r = Inl f" using assms(5) a by (simp add: server_OnMessage_def)
    with a Inl show ?thesis by auto
  next
    case (Inr ow)
    obtain out w where ow: "ow = (out, w)" by fastforce
    have o: "all_open watched own (tcp s)" using assms(2) by (simp add: srv_open_def)
    obtain sv where sv: "sv_send ctl inloop h out (tcp s) = Inr sv" "all_open watched own sv"
      using send_open [OF assms(1) o assms(3,4)] by blast
    show ?thesis
      using assms(2,5) a Inr sv open_sel(6) [OF o assms(4)]
      by (auto simp: server_OnMessage_def ow srv_open_def)
  qed
qed

lemma HandleMessage_open:
  assumes "epoll_ctl_spec ctl watched" "srv_open watched own s" "sv_inv (tcp s)" "h < length (objs (tcp s))"
    and "server_HandleMessage ctl d (h, m) s = Some r"
  shows "open_or_fault watched own d r"
proof (cases "pool_size (workers s) = 0")
  case True
  let ?s = "s\<lparr>messages := messages s @ [(h, m)]\<rparr>"
  obtain r1 where r1: "server_OnMessage ctl d True (h, m) ?s = Some r1"
    and r: "r = bind_res r1 (\<lambda>s'. Inr (s'\<lparr>workers := workers s\<rparr>))"
    using assms(5) True by (auto simp: server_HandleMessage_def HandleMessage_def bind_assoc)
  have "open_or_fault watched own d r1"
    using OnMessage_open [OF assms(1) _ _ _ r1] assms(2-4) by (simp add: srv_open_def)
  then show ?thesis by (cases r1) (simp_all add: r srv_open_def)
next
  case False
  then show ?thesis
    using assms(2,5) by (auto simp: server_HandleMessage_def HandleMessage_def srv_open_def)
qed

lemma handle_messages_open:
  assumes "epoll_ctl_spec ctl watched" "srv_open watched own s" "srv_inv d w0 s" "h < length (objs (tcp s))"
    and "handle_messages ctl d h ms s = Some r"
  shows "open_or_fault watched own d r"
  using assms(2-)
proof (induction ms arbitrary: s)
  case (Cons m ms)
  obtain r1 where r1: "server_HandleMessage ctl d (h, m) s = Some r1"
    using Cons.prems(4) by (auto split: option.splits)
  note o = HandleMessage_open [OF assms(1) Cons.prems(1) srv_inv_sel(2) [OF Cons.prems(2)] Cons.prems(3) r1]
  show ?case
  proof (cases r1)
    case (Inl f)
    then show ?thesis using Cons.prems(4) o r1 by auto
  next
    case (Inr s1)
    then have "srv_open watched own s1" "handle_messages ctl d h ms s1 = Some r"
      using o r1 Cons.prems(4) by simp_all
    with Cons.IH [of s1] HandleMessage_inv [OF Cons.prems(2,3), of ctl m s1] r1 Inr Cons.prems(3) show ?thesis by simp
  qed
qed auto

lemma running_known:
  assumes "srv_inv d w0 s" "at_phase is_running i (workers s)" "running_task (tp_threads (workers s) ! i) = Some t"
  shows "t \<in> set (messages s)" "fst t < length (objs (tcp s))"
proof -
  let ?p = "workers s"
  have "running (set_phase i AtTest ?p) + {#t#} = running ?p"
    using running_set_phase [OF assms(2), of AtTest] assms(3) by simp
  then have "t \<in># running ?p" by (metis union_iff union_single_eq_member add.commute)
  then show "t \<in> set (messages s)"
    using assms(1) unfolding srv_inv_def by (metis set_mset_mset union_iff)
  then show "fst t < length (objs (tcp s))" using assms(1) by (simp add: srv_inv_def)
qed

lemma step_open:
  assumes "epoll_ctl_spec ctl watched" "srv_open watched own s" "srv_inv d w0 s" "undisturbed own e s"
    and "srv_step ctl d e s = Some r"
  shows "open_or_fault watched own d r"
proof -
  note inv = srv_inv_sel [OF assms(3)]
  have o: "all_open watched own (tcp s)" and sent: "\<forall>r \<in> set (replies s). re_sent r"
    using assms(2) by (simp_all add: srv_open_def)
  show ?thesis
  proof (cases e)
    case (Accept now fd)
    then have f: "fresh_fd own (tcp s) fd" using assms(4) by simp
    obtain h sv where "newconnction ctl now fd (tcp s) = Inr (h, sv)" "all_open watched own sv"
      using accept_open [OF assms(1) o inv(2) f] by blast
    then show ?thesis using assms(5) Accept sent by (auto simp: on_tcp_def srv_open_def split: if_splits)
  next
    case (Readable h now rs)
    then obtain rs' where rs: "rs = rs' @ [RecvErr EAGAIN]" "\<forall>r \<in> set rs'. receiving r" and h: "h < length (objs (tcp s))"
      using assms(4,5) by (auto split: if_splits)
    obtain m sv where sv: "sv_read ctl now rs h (tcp s) = Some (Inr (if m = [] then [] else [m], sv))" "all_open watched own sv"
      "length (objs sv) = length (objs (tcp s))"
      using read_open [OF o inv(2) h rs(2), of ctl now] by (auto simp: rs(1))
    have i: "srv_inv d w0 (s\<lparr>tcp := sv\<rparr>)"
      by (rule same_out_inv [OF assms(3) read_ok [OF inv(1) h sv(1)]])
    have "handle_messages ctl d h (if m = [] then [] else [m]) (s\<lparr>tcp := sv\<rparr>) = Some r"
      using assms(5) Readable h sv(1) by simp
    from handle_messages_open [OF assms(1) _ i _ this] sv(2,3) h sent show ?thesis by (simp add: srv_open_def)
  next
    case (WritableEv h room)
    then have h: "h < length (objs (tcp s))" using assms(5) by (auto split: if_splits)
    obtain out sv where "sv_write ctl room h (tcp s) = Inr (out, sv)" "all_open watched own sv"
      using write_open [OF assms(1) o inv(2) h] by blast
    then show ?thesis using assms(5) WritableEv h sent by (auto simp: srv_open_def)
  next
    case (LoopWake i)
    then have i: "i < length (subloops (tcp s))" using assms(5) by (auto split: if_splits)
    obtain sv where "sv_wake ctl i (tcp s) = Inr sv" "all_open watched own sv"
      using wake_open [OF assms(1) o inv(1) i] by blast
    then show ?thesis using assms(5) LoopWake i sent by (auto simp: on_tcp_def srv_open_def split: if_splits)
  next
    case (Move e)
    then obtain r1 where "tp_step e (workers s) = Some r1" "r = bind_res r1 (\<lambda>p. Inr (s\<lparr>workers := p\<rparr>))"
      using assms(5) by (auto split: if_splits)
    with tp_inv_step [OF inv(3) this(1)] assms(2) show ?thesis by (auto simp: srv_open_def)
  next
    case (Done i)
    then have at: "at_phase is_running i (workers s)" using assms(5) by (auto split: if_splits)
    show ?thesis
    proof (cases "running_task (tp_threads (workers s) ! i)")
      case None
      then show ?thesis using assms(2,5) Done at by (auto simp: srv_open_def)
    next
      case (Some t)
      obtain h m where t: "t = (h, m)" by fastforce
      obtain r1 where r1: "server_OnMessage ctl d False (h, m) s = Some r1"
        and r: "r = bind_res r1 (\<lambda>s'. Inr (s'\<lparr>workers := tp_finish i (workers s')\<rparr>))"
        using assms(5) Done at Some t by auto
      have "h < length (objs (tcp s))" using running_known(2) [OF assms(3) at Some] by (simp add: t)
      from OnMessage_open [OF assms(1,2) inv(2) this r1] show ?thesis
        by (cases r1) (simp_all add: r srv_open_def)
    qed
  qed (use assms(4) in simp_all)
qed

lemma run_open:
  assumes "epoll_ctl_spec ctl watched" "srv_open watched own s" "srv_inv d w0 s" "undisturbed_run own ctl d es s"
    and "srv_run ctl d es s = Some r"
  shows "open_or_fault watched own d r"
  using assms(2-)
proof (induction es arbitrary: s)
  case (Cons e es)
  obtain r1 where r1: "srv_step ctl d e s = Some r1"
    using Cons.prems(4) by (auto split: option.splits)
  note o = step_open [OF assms(1) Cons.prems(1,2) _ r1]
  show ?case
  proof (cases r1)
    case (Inl f)
    then show ?thesis using Cons.prems(3,4) o r1 by auto
  next
    case (Inr s1)
    with Cons.IH [of s1] srv_step_inv [OF Cons.prems(2)] r1 Cons.prems(3,4) o show ?thesis by auto
  qed
qed auto

lemma srv_open_new:
  assumes "loops_own watched io ks own"
  shows "srv_open watched own (new_rpc_server io m mx ks w)"
  using assms by (auto simp: srv_open_def rpc_server_over_def all_open_def new_tcpserver_def loops_own_def)

end
