(* ===== verification/ServerDrain.thy ===== *)
theory ServerDrain
  imports ServerOpen
begin

text \<open>
  The running server comes to rest: left alone, it answers whatever it has read and writes every answer
  out, under every schedule of its workers and loops. The properties of the running server, with
  their witnesses, are here.
\<close>

section \<open>Every message can be answered\<close>

fun effort :: "'t phase \<Rightarrow> nat" where
  "effort (Running t) = 3"
| "effort AtTest = 1"
| "effort _ = 0"

definition to_do :: "'t pool \<Rightarrow> nat" where
  "to_do p = 4 * length (tp_queue p) + sum_list (map effort (tp_threads p))"

lemma to_do_set_phase:
  "at_phase P i p \<Longrightarrow> to_do (set_phase i x p) + effort (tp_threads p ! i) = to_do p + effort x"
  using sum_list_update_add [of i "tp_threads p" effort x]
  by (simp add: to_do_def set_phase_def at_phase_def)

definition busy :: "'t pool \<Rightarrow> bool" where
  "busy p \<longleftrightarrow> tp_queue p \<noteq> [] \<or> (\<exists>i. at_phase is_running i p)"

text \<open>The steps with which a worker takes a task.\<close>

fun taking :: "'t tp_event \<Rightarrow> bool" where
  "taking (Test i) = True"
| "taking (WakeUp i) = True"
| "taking e = False"

lemma pool_progress:
  assumes "tp_inv p" "none_returned p" "\<not> tp_stop p" "0 < minThreadnum p" "busy p" "\<nexists>i. at_phase is_running i p"
  shows "\<exists>e p'. taking e \<and> tp_step e p = Some (Inr p') \<and> to_do p' < to_do p \<and> tp_stop p' = tp_stop p \<and>
    minThreadnum p' = minThreadnum p"
proof -
  have q: "tp_queue p \<noteq> []" using assms(5,6) by (auto simp: busy_def)
  have "0 < cnt alive (tp_threads p)" using assms(1,4) by (simp add: tp_inv_def)
  then obtain x where x: "x \<in> set (tp_threads p)" "alive x" by (auto simp: cnt_def filter_empty_conv)
  then obtain i where i: "i < length (tp_threads p)" "tp_threads p ! i = x" by (auto simp: in_set_conv_nth)
  have "x \<noteq> Returned" "\<not> is_running x"
    using assms(2,3,6) x i by (auto simp: none_returned_def at_phase_def)
  then consider "x = AtTest" | "x = InWait" using x(2) by (cases x) simp_all
  then show ?thesis
  proof cases
    case 1
    then have at: "at_phase (\<lambda>x. x = AtTest) i p" using i by (simp add: at_phase_def)
    from to_do_set_phase [OF at, of InWait] show ?thesis
      using at i 1 assms(3) by (intro exI [of _ "Test i"] exI [of _ "set_phase i InWait p"])
        (simp add: tp_test_def)
  next
    case 2
    then have at: "at_phase (\<lambda>x. x = InWait) i p" using i by (simp add: at_phase_def)
    obtain t ts where t: "tp_queue p = t # ts" using q by (cases "tp_queue p") auto
    let ?q = "p\<lparr>tp_queue := ts, idleThreadnum := idleThreadnum p - 1, tp_started := tp_started p @ [t]\<rparr>"
    have "at_phase (\<lambda>x. x = InWait) i ?q" using at by simp
    moreover have "to_do p = to_do ?q + 4" by (simp add: to_do_def t)
    ultimately have "to_do (set_phase i (Running (Some t)) ?q) < to_do p"
      using to_do_set_phase [of "\<lambda>x. x = InWait" i ?q "Running (Some t)"] i 2 by simp
    then show ?thesis
      using at t by (intro exI [of _ "WakeUp i"] exI [of _ "set_phase i (Running (Some t)) ?q"])
        (simp add: tp_wake_def)
  qed
qed

text \<open>In whatever order the messages are answered, decoder, methods and encoder come back.\<close>

definition answers_return :: "'w app \<Rightarrow> 'w \<Rightarrow> string list \<Rightarrow> bool" where
  "answers_return d w0 ms \<longleftrightarrow> (\<forall>xs. mset xs \<subseteq># mset ms \<longrightarrow> (\<exists>r. answers d xs w0 = Some (Inr r)))"

text \<open>What the state of a server needs for all of its messages to be answered.\<close>

definition answerable :: "('k \<Rightarrow> int \<Rightarrow> 32 word option) \<Rightarrow> int set \<Rightarrow> 'w app \<Rightarrow> 'w \<Rightarrow> ('k, 'w) rpc_server \<Rightarrow> bool" where
  "answerable watched own d w0 s \<longleftrightarrow> srv_inv d w0 s \<and> srv_open watched own s \<and> none_returned (workers s) \<and>
     \<not> tp_stop (workers s) \<and> 0 < minThreadnum (workers s) \<and>
     answers_return d w0 (map snd (messages s))"

lemma answers_last:
  "answers d (ms @ [m]) w0 = Some (Inr r) \<Longrightarrow> answers d ms w0 = Some (Inr (outs, w)) \<Longrightarrow>
     \<exists>out w'. d m w = Some (Inr (out, w'))"
proof (induction ms arbitrary: w0 r outs)
  case (Cons a ms)
  then show ?case by (auto simp: bind_res_Inr split: option.splits sum.splits)
qed (auto simp: bind_res_Inr split: option.splits sum.splits)

lemma done_progress:
  assumes "epoll_ctl_spec ctl watched" "answerable watched own d w0 s" "at_phase is_running i (workers s)"
  shows "\<exists>s'. srv_step ctl d (Done i) s = Some (Inr s') \<and> messages s' = messages s \<and>
    workers s' = tp_finish i (workers s) \<and> (tcp s' = tcp s \<or>
      (\<exists>h r. h < length (objs (tcp s)) \<and> sv_send ctl False h (re_out r) (tcp s) = Inr (tcp s') \<and>
        replies s' = replies s @ [r]))"
proof (cases "running_task (tp_threads (workers s) ! i)")
  case None
  then show ?thesis using assms(3) by simp
next
  case (Some t)
  have inv: "srv_inv d w0 s" "srv_open watched own s" using assms(2) by (simp_all add: answerable_def)
  obtain h m where t: "t = (h, m)" by fastforce
  note k = running_known [OF inv(1) assms(3) Some]
  have R: "running (workers s) = add_mset t (running (set_phase i AtTest (workers s)))" (is "_ = add_mset t ?R")
    using running_set_phase [OF assms(3), of AtTest] Some by simp
  have "mset (messages s) = mset (map entry_task (replies s)) + mset (tp_queue (workers s)) + running (workers s)"
    using inv(1) unfolding srv_inv_def by blast
  then have "mset (messages s) = (mset (map entry_task (replies s)) + {#t#}) + (mset (tp_queue (workers s)) + ?R)"
    unfolding R by simp
  then have "mset (map entry_task (replies s)) + {#t#} \<subseteq># mset (messages s)"
    by (metis mset_subset_eq_add_left)
  then have "image_mset snd (mset (map entry_task (replies s)) + {#t#}) \<subseteq># image_mset snd (mset (messages s))"
    by (rule image_mset_subseteq_mono)
  moreover have "image_mset snd (mset (map entry_task rs)) = mset (map re_msg rs)" for rs
    by (induction rs) (simp_all add: entry_task_def)
  ultimately have "mset (map re_msg (replies s) @ [m]) \<subseteq># mset (map snd (messages s))" by (simp add: t)
  then obtain r where "answers d (map re_msg (replies s) @ [m]) w0 = Some (Inr r)"
    using assms(2) unfolding answerable_def answers_return_def by blast
  from answers_last [OF this] obtain out w where a: "d m (world s) = Some (Inr (out, w))"
    using inv(1) by (auto simp: srv_inv_def core_inv_def)
  have o: "all_open watched own (tcp s)" using inv(2) by (simp add: srv_open_def)
  have h: "h < length (objs (tcp s))" using k(2) by (simp add: t)
  obtain sv where "sv_send ctl False h out (tcp s) = Inr sv"
    using send_open [OF assms(1) o srv_inv_sel(2) [OF inv(1)] h] by blast
  then show ?thesis using assms(3) Some a h by (fastforce simp: t server_OnMessage_def)
qed

lemma to_do_finish:
  assumes "at_phase is_running i p"
  shows "to_do (tp_finish i p) < to_do p" "tp_stop (tp_finish i p) = tp_stop p"
    "minThreadnum (tp_finish i p) = minThreadnum p"
proof -
  let ?q = "p\<lparr>idleThreadnum := idleThreadnum p + 1\<rparr>"
  have at: "at_phase is_running i ?q" using assms by (simp add: at_phase_def)
  have "effort x = 3" if "is_running x" for x :: "'a phase" using that by (cases x) simp_all
  then have "effort (tp_threads p ! i) = 3" using assms by (simp add: at_phase_def)
  moreover have "to_do ?q = to_do p" by (simp add: to_do_def)
  ultimately show "to_do (tp_finish i p) < to_do p"
    using to_do_set_phase [OF at, of AtTest] by (simp add: tp_finish_def)
qed (simp_all add: tp_finish_def)

lemma srv_run_append:
  "srv_run ctl d es s = Some (Inr s1) \<Longrightarrow> srv_run ctl d (es @ fs) s = srv_run ctl d fs s1"
  by (induction es arbitrary: s) (auto split: option.splits sum.splits)

lemma srv_run_steps: "steps (unfaulted (srv_step ctl d)) es s = Some s' \<longleftrightarrow> srv_run ctl d es s = Some (Inr s')"
proof (induction es arbitrary: s)
  case (Cons e es)
  then show ?case by (auto simp: unfaulted_def split: option.splits sum.splits)
qed simp

section \<open>Left alone, the server comes to rest\<close>

text \<open>
  The steps that need nothing from outside: a worker takes a task or ends one, a loop whose queue has
  tasks is woken up, a connection whose descriptor is watched for writing meets a socket with
  room for some of its output, however little.
\<close>

fun internal :: "srv_event \<Rightarrow> ('k, 'w) rpc_server \<Rightarrow> bool" where
  "internal (Move e) s = taking e"
| "internal (Done i) s = True"
| "internal (LoopWake i) s = (queue_of (tcp s) i \<noteq> [])"
| "internal (WritableEv h (Some n)) s = (0 < n \<and> b_buf (out_of (tcp s) h) \<noteq> [] \<and>
     ch_events (chan (sc_conn (objs (tcp s) ! h))) AND EPOLLOUT \<noteq> 0)"
| "internal e s = False"

definition drain_step :: "'k epoll_ctl \<Rightarrow> 'w app \<Rightarrow> srv_event \<Rightarrow> ('k, 'w) rpc_server \<Rightarrow> ('k, 'w) rpc_server option" where
  "drain_step ctl d e s = (if internal e s then unfaulted (srv_step ctl d) e s else None)"

text \<open>
  The work left, counted in bytes: a byte in a queue or buffer is one, a task in a queue one more; a task of
  the pool counts for the longest answer any message can get, in whatever order they are answered.
\<close>

definition reply_length :: "'w app \<Rightarrow> 'w \<Rightarrow> string list \<Rightarrow> nat" where
  "reply_length d w0 ms =
     (case answers d ms w0 of Some (Inr (outs, w)) \<Rightarrow> if outs = [] then 0 else length (last outs) | _ \<Rightarrow> 0)"

definition longest_answer :: "'w app \<Rightarrow> 'w \<Rightarrow> string list \<Rightarrow> nat" where
  "longest_answer d w0 ms = Max (reply_length d w0 ` {xs. mset xs \<subseteq># mset ms})"

definition task_size :: "task \<Rightarrow> nat" where
  "task_size t = Suc (length (snd t))"

definition posted :: "'k tcp_server \<Rightarrow> nat" where
  "posted sv = (\<Sum>i < length (subloops sv). sum_list (map task_size (queue_of sv i)))"

definition unsent :: "'k tcp_server \<Rightarrow> nat" where
  "unsent sv = (\<Sum>h < length (objs sv). length (b_buf (out_of sv h)))"

definition work_for :: "'w app \<Rightarrow> 'w \<Rightarrow> ('k, 'w) rpc_server \<Rightarrow> nat" where
  "work_for d w0 s = (longest_answer d w0 (map snd (messages s)) + 2) * to_do (workers s) + posted (tcp s) + unsent (tcp s)"

definition at_rest :: "('k, 'w) rpc_server \<Rightarrow> bool" where
  "at_rest s \<longleftrightarrow> \<not> busy (workers s) \<and> (\<forall>i < length (subloops (tcp s)). queue_of (tcp s) i = []) \<and>
     (\<forall>h < length (objs (tcp s)). b_buf (out_of (tcp s) h) = [])"

lemma work_for_pool:
  assumes "to_do (workers s') < to_do (workers s)" "messages s' = messages s" "tcp s' = tcp s"
  shows "work_for d w0 s' < work_for d w0 s"
  unfolding work_for_def assms(2,3) using assms(1) by (simp del: mult_Suc add_2_eq_Suc add_2_eq_Suc')

lemma finite_sub: "finite {xs. mset xs \<subseteq># mset ms}"
proof (rule finite_subset)
  show "{xs. mset xs \<subseteq># mset ms} \<subseteq> {xs. set xs \<subseteq> set ms \<and> length xs \<le> length ms}"
    using set_mset_mono size_mset_mono by fastforce
qed (rule finite_lists_length_le, simp)

lemma last_answer_bound:
  assumes "srv_inv d w0 s" "replies s = rs @ [r]"
  shows "length (re_out r) \<le> longest_answer d w0 (map snd (messages s))"
proof -
  have "mset (messages s) = mset (map entry_task (replies s)) + (mset (tp_queue (workers s)) + running (workers s))"
    using assms(1) by (simp add: srv_inv_def add.assoc)
  then have "mset (map entry_task (replies s)) \<subseteq># mset (messages s)" by simp
  then have "image_mset snd (mset (map entry_task (replies s))) \<subseteq># image_mset snd (mset (messages s))"
    by (rule image_mset_subseteq_mono)
  moreover have "image_mset snd (mset (map entry_task rs)) = mset (map re_msg rs)" for rs
    by (induction rs) (simp_all add: entry_task_def)
  ultimately have "map re_msg (replies s) \<in> {xs. mset xs \<subseteq># mset (map snd (messages s))}" by simp
  then have "reply_length d w0 (map re_msg (replies s)) \<le> longest_answer d w0 (map snd (messages s))"
    unfolding longest_answer_def by (intro Max_ge finite_imageI finite_sub imageI)
  moreover have "answers d (map re_msg (replies s)) w0 = Some (Inr (map re_out (replies s), world s))"
    using assms(1) by (simp add: srv_inv_def core_inv_def)
  ultimately show ?thesis by (simp add: reply_length_def assms(2))
qed

text \<open>What the operations on the tables do to the work posted and unsent.\<close>

lemma sum_change_one:
  fixes f g :: "nat \<Rightarrow> nat"
  assumes "i < n" "\<And>j. j < n \<Longrightarrow> j \<noteq> i \<Longrightarrow> g j = f j"
  shows "(\<Sum>j < n. g j) + f i = (\<Sum>j < n. f j) + g i"
proof -
  have "(\<Sum>j \<in> {..<n} - {i}. g j) = (\<Sum>j \<in> {..<n} - {i}. f j)" using assms(2) by (intro sum.cong) auto
  then show ?thesis using assms(1) by (simp add: sum.remove [of "{..<n}" i])
qed

lemma posted_change:
  assumes "length (subloops sv') = length (subloops sv)" "i < length (subloops sv)"
    and "\<And>j. j < length (subloops sv) \<Longrightarrow> j \<noteq> i \<Longrightarrow> queue_of sv' j = queue_of sv j"
  shows "posted sv' + sum_list (map task_size (queue_of sv i)) = posted sv + sum_list (map task_size (queue_of sv' i))"
  using sum_change_one [OF assms(2), of "\<lambda>j. sum_list (map task_size (queue_of sv' j))" "\<lambda>j. sum_list (map task_size (queue_of sv j))"]
    assms(1,3) by (simp add: posted_def)

lemma send_work:
  assumes "sv_inv sv" "h < length (objs sv)" "sv_send ctl False h data sv = Inr sv'"
  shows "posted sv' \<le> posted sv + Suc (length data)" "unsent sv' = unsent sv"
proof -
  note i = subloop_index_inv [OF assms(1,2)]
  consider "sv' = sv" | "sv' = sv\<lparr>subloops := (subloops sv)[loop_of sv h := queueinloop (h, data) (subloops sv ! loop_of sv h)]\<rparr>"
    using assms(3) i(1) by (auto simp: sv_send_def Let_def split: if_splits)
  then have "posted sv' \<le> posted sv + Suc (length data) \<and> unsent sv' = unsent sv"
  proof cases
    case 2
    have "queue_of sv' j = queue_of sv j @ (if j = loop_of sv h then [(h, data)] else [])" if "j < length (subloops sv)" for j
      using that by (simp add: 2 queue_of_def nth_update_if queueinloop_def wakeup_def)
    then have "posted sv' = posted sv + Suc (length data)"
      using posted_change [of sv' sv "loop_of sv h"] i(2) by (simp add: task_size_def) (simp add: 2)
    then show ?thesis by (simp add: unsent_def out_of_def 2)
  qed simp
  then show "posted sv' \<le> posted sv + Suc (length data)" "unsent sv' = unsent sv" by simp_all
qed

lemma posted_to_sum:
  "(\<Sum>h < n. length (posted_to h ts)) \<le> sum_list (map (length \<circ> snd) ts)"
proof (induction ts)
  case (Cons t ts)
  have "length (posted_to h (t # ts)) = (if fst t = h then length (snd t) else 0) + length (posted_to h ts)" for h
    by simp
  then have "(\<Sum>h < n. length (posted_to h (t # ts))) =
      (\<Sum>h < n. if fst t = h then length (snd t) else 0) + (\<Sum>h < n. length (posted_to h ts))"
    by (simp only: sum.distrib)
  moreover have "(\<Sum>h < n. if fst t = h then length (snd t) else 0) \<le> length (snd t)" by simp
  ultimately show ?case using Cons.IH by simp
qed simp

lemma wake_work:
  assumes "sv_ok sv" "i < length (subloops sv)" "sv_wake ctl i sv = Inr sv'"
  shows "posted sv' + unsent sv' + length (queue_of sv i) \<le> posted sv + unsent sv"
proof -
  note w = wake_ok [OF assms]
  have "posted sv' + sum_list (map task_size (queue_of sv i)) = posted sv"
    using posted_change [of sv' sv i] assms(2) w by simp
  moreover have "sum_list (map task_size ts) = sum_list (map (length \<circ> snd) ts) + length ts" for ts
    by (induction ts) (simp_all add: task_size_def)
  note this [of "queue_of sv i"]
  moreover have "unsent sv' \<le> unsent sv + sum_list (map (length \<circ> snd) (queue_of sv i))"
  proof -
    obtain k os where r: "run_tasks (run_send ctl) (queue_of sv i) (epolls sv ! i, objs sv) = Inr (k, os)" "objs sv' = os"
      using assms(3) by (auto simp: sv_wake_def handlewakeup_def queue_of_def bind_res_Inr)
    have "\<forall>h < length (objs sv). b_sep (outputbuffer (sc_conn (objs sv ! h))) = 0"
      using assms(1) by (simp add: sv_ok_def out_of_def)
    from run_send_out [OF r(1) this] r(2) have
      "\<forall>h < length (objs sv). b_buf (out_of sv' h) = b_buf (out_of sv h) @ posted_to h (queue_of sv i)"
      by (simp add: out_of_def)
    then have "unsent sv' = unsent sv + (\<Sum>h < length (objs sv). length (posted_to h (queue_of sv i)))"
      using w by (simp add: unsent_def sum.distrib)
    then show ?thesis using posted_to_sum by simp
  qed
  ultimately show ?thesis by linarith
qed

lemma write_work:
  assumes "sv_ok sv" "h < length (objs sv)" "sv_write ctl (Some n) h sv = Inr (out, sv')" "0 < n" "b_buf (out_of sv h) \<noteq> []"
  shows "posted sv' = posted sv" "unsent sv' < unsent sv"
proof -
  note w = write_ok [OF assms(1-3)]
  then show "posted sv' = posted sv" by (simp add: posted_def queue_of_def)
  have inv: "sv_inv sv" using assms(1) by (simp add: sv_ok_def)
  note i = subloop_index_inv [OF inv assms(2)]
  let ?b = "b_buf (out_of sv h)"
  obtain fin k c where r: "writecallback ctl (writen (Some n) ?b) (epolls sv ! loop_of sv h, sc_conn (objs sv ! h)) = Inr (fin, k, c)"
    "sv' = sv_put (loop_of sv h) h (k, c) sv"
    using assms(3) i(1) by (auto simp: sv_write_def bind_res_Inr Let_def buffer_data_def out_of_def split: if_splits)
  have "(if writen (Some n) ?b > 0 then buffer_erase (out_of sv h) 0 (writen (Some n) ?b) else Inr (out_of sv h)) =
      Inr (out_of sv h\<lparr>b_buf := drop n ?b\<rparr>)"
    unfolding erase_writen by simp
  then have "b_buf (outputbuffer c) = drop n ?b"
    using r(1) by (auto simp: writecallback_def out_of_def [symmetric] bind_res_Inr Let_def on_channel_def
        split: if_splits dest: arg_cong [where f = b_buf])
  then have b: "b_buf (out_of sv' g) = (if g = h then drop n ?b else b_buf (out_of sv g))" if "g < length (objs sv)" for g
    using that by (simp add: r(2) sv_put_def out_of_def nth_update_if)
  have "length (objs sv') = length (objs sv)" using w by blast
  then have "unsent sv' + length ?b = unsent sv + length (drop n ?b)"
    using sum_change_one [OF assms(2), of "\<lambda>g. length (b_buf (out_of sv' g))" "\<lambda>g. length (b_buf (out_of sv g))"] b assms(2)
    by (simp add: unsent_def)
  then show "unsent sv' < unsent sv" using assms(4,5) by (cases ?b) auto
qed

text \<open>A worker that takes a task has less to do afterwards.\<close>

lemma taking_work:
  assumes "tp_step e p = Some (Inr p')" "taking e" "\<not> tp_stop p"
  shows "to_do p' < to_do p" "tp_stop p' = tp_stop p" "minThreadnum p' = minThreadnum p"
proof -
  consider (test) i where "at_phase (\<lambda>x. x = AtTest) i p" "p' = set_phase i InWait p"
    | (wake) i t ts where "at_phase (\<lambda>x. x = InWait) i p" "tp_queue p = t # ts"
        "p' = set_phase i (Running (Some t))
          (p\<lparr>tp_queue := ts, idleThreadnum := idleThreadnum p - 1, tp_started := tp_started p @ [t]\<rparr>)"
    using assms by (cases e) (auto simp: tp_test_def tp_wake_def split: if_splits list.splits)
  then have "to_do p' < to_do p \<and> tp_stop p' = tp_stop p \<and> minThreadnum p' = minThreadnum p"
  proof cases
    case test
    then show ?thesis using to_do_set_phase [OF test(1), of InWait] by (simp add: at_phase_def)
  next
    case wake
    let ?q = "p\<lparr>tp_queue := ts, idleThreadnum := idleThreadnum p - 1, tp_started := tp_started p @ [t]\<rparr>"
    have at: "at_phase (\<lambda>x. x = InWait) i ?q" using wake(1) by simp
    moreover have "to_do p = to_do ?q + 4" by (simp add: to_do_def wake(2))
    ultimately show ?thesis
      using to_do_set_phase [OF at, of "Running (Some t)"] wake(1) by (simp add: wake(3) at_phase_def)
  qed
  then show "to_do p' < to_do p" "tp_stop p' = tp_stop p" "minThreadnum p' = minThreadnum p" by simp_all
qed

lemma not_busy: "\<not> busy (p :: 'a pool) \<Longrightarrow> tp_queue p = [] \<and> running p = {#}"
proof -
  assume p: "\<not> busy p"
  have "running_task x = None" if "x \<in> set (tp_threads p)" for x
    using p that by (cases x) (auto simp: busy_def at_phase_def in_set_conv_nth)
  moreover have "\<forall>x \<in> set xs. running_task x = None \<Longrightarrow>
      sum_list (map (\<lambda>x. case running_task x of None \<Rightarrow> {#} | Some t \<Rightarrow> {#t#}) xs) = {#}" for xs :: "'a phase list"
    by (induction xs) simp_all
  ultimately show ?thesis using p by (simp add: running_def busy_def)
qed

lemma owed_all_sent: "\<forall>r \<in> set rs. re_sent r \<Longrightarrow> owed rs h = concat (map re_out (filter (\<lambda>r. re_conn r = h) rs))"
  by (induction rs) (auto simp: owed_def)

text \<open>What an internal step keeps, and that it cannot fault.\<close>

lemma internal_step:
  assumes "epoll_ctl_spec ctl watched" "answerable watched own d w0 s" "internal e s" "srv_step ctl d e s = Some r"
  shows "\<exists>s'. r = Inr s' \<and> answerable watched own d w0 s' \<and> messages s' = messages s \<and> work_for d w0 s' < work_for d w0 s"
proof -
  have inv: "srv_inv d w0 s" "srv_open watched own s" "none_returned (workers s)" "\<not> tp_stop (workers s)"
    using assms(2) by (simp_all add: answerable_def)
  note sel = srv_inv_sel [OF inv(1)]
  have o: "all_open watched own (tcp s)" using inv(2) by (simp add: srv_open_def)
  have "undisturbed own e s" using assms(3) by (cases "(e, s)" rule: internal.cases) auto
  note keep = step_open [OF assms(1) inv(2,1) this assms(4)]
  have "\<exists>s'. r = Inr s' \<and> messages s' = messages s \<and> tp_stop (workers s') = tp_stop (workers s) \<and>
      minThreadnum (workers s') = minThreadnum (workers s) \<and> work_for d w0 s' < work_for d w0 s"
  proof (cases "(e, s)" rule: internal.cases)
    case (1 ev t)
    then have ev: "e = Move ev" "t = s" by simp_all
    then obtain r1 where r1: "tp_step ev (workers s) = Some r1" "r = bind_res r1 (\<lambda>p. Inr (s\<lparr>workers := p\<rparr>))"
      using assms(4) by (auto split: if_splits)
    then obtain p where p: "r1 = Inr p" using tp_inv_step [OF sel(3) r1(1)] by auto
    have "taking ev" using assms(3) ev by simp
    from taking_work [OF r1(1) [unfolded p] this inv(4)] show ?thesis
      using work_for_pool [of "s\<lparr>workers := p\<rparr>" s d w0] by (simp add: r1(2) p)
  next
    case (2 i t)
    then have i: "e = Done i" by simp
    then have at: "at_phase is_running i (workers s)" using assms(4) by (auto split: if_splits)
    from done_progress [OF assms(1,2) at] obtain s' where
      s': "r = Inr s'" "messages s' = messages s" "workers s' = tp_finish i (workers s)"
      and sent: "tcp s' = tcp s \<or> (\<exists>h r. h < length (objs (tcp s)) \<and>
        sv_send ctl False h (re_out r) (tcp s) = Inr (tcp s') \<and> replies s' = replies s @ [r])"
      using assms(4) i by auto
    have "srv_step ctl d (Done i) s = Some (Inr s')" using assms(4) i s'(1) by simp
    note l = last_answer_bound [OF srv_step_inv [OF inv(1) this]]
    let ?L = "longest_answer d w0 (map snd (messages s))"
    have "posted (tcp s') \<le> posted (tcp s) + Suc ?L \<and> unsent (tcp s') = unsent (tcp s)"
      using sent send_work [OF sel(2)] l by (fastforce simp: s'(2))
    moreover have "(?L + 2) * Suc (to_do (workers s')) \<le> (?L + 2) * to_do (workers s)"
      using to_do_finish(1) [OF at] by (intro mult_le_mono2) (simp add: s'(3))
    ultimately have "work_for d w0 s' < work_for d w0 s" by (simp add: work_for_def s'(2))
    with to_do_finish [OF at] s' show ?thesis by simp
  next
    case (3 i t)
    then have i: "e = LoopWake i" "i < length (subloops (tcp s))" "queue_of (tcp s) i \<noteq> []"
      using assms(3,4) by (auto split: if_splits)
    obtain sv where sv: "sv_wake ctl i (tcp s) = Inr sv" using wake_open [OF assms(1) o sel(1) i(2)] by blast
    then have "r = Inr (s\<lparr>tcp := sv\<rparr>)" using assms(4) i(1) by (auto simp: on_tcp_def split: if_splits)
    moreover have "posted sv + unsent sv < posted (tcp s) + unsent (tcp s)"
      using wake_work [OF sel(1) i(2) sv] i(3) by (cases "queue_of (tcp s) i") simp_all
    ultimately show ?thesis by (simp add: work_for_def)
  next
    case (4 h n t)
    then have h: "e = WritableEv h (Some n)" "h < length (objs (tcp s))"
      "0 < n" "b_buf (out_of (tcp s) h) \<noteq> []"
      using assms(3,4) by (auto split: if_splits)
    obtain out sv where sv: "sv_write ctl (Some n) h (tcp s) = Inr (out, sv)"
      using write_open [OF assms(1) o sel(2) h(2)] by blast
    from write_work [OF sel(1) h(2) sv h(3,4)] show ?thesis
      using assms(4) h(1,2) sv by (auto simp: work_for_def)
  qed (use assms(3) in simp_all)
  then obtain s' where s': "r = Inr s'" "messages s' = messages s" "tp_stop (workers s') = tp_stop (workers s)"
    "minThreadnum (workers s') = minThreadnum (workers s)" "work_for d w0 s' < work_for d w0 s"
    by blast
  have st: "srv_step ctl d e s = Some (Inr s')" using assms(4) s'(1) by simp
  have "none_returned (workers s')" using srv_step_pool [OF st] none_returned_run inv(3) by blast
  then have "answerable watched own d w0 s'"
    using keep srv_step_inv [OF inv(1) st] s' assms(2) by (simp add: answerable_def)
  with s' show ?thesis by blast
qed

lemma internal_possible:
  assumes "epoll_ctl_spec ctl watched" "answerable watched own d w0 s" "\<not> at_rest s"
  shows "\<exists>e r. internal e s \<and> srv_step ctl d e s = Some r"
proof -
  have inv: "srv_inv d w0 s" "srv_open watched own s" "none_returned (workers s)" "\<not> tp_stop (workers s)"
    "0 < minThreadnum (workers s)"
    using assms(2) by (simp_all add: answerable_def)
  note sel = srv_inv_sel [OF inv(1)]
  have o: "all_open watched own (tcp s)" using inv(2) by (simp add: srv_open_def)
  consider (running) i where "at_phase is_running i (workers s)"
    | (waiting) "busy (workers s)" "\<nexists>i. at_phase is_running i (workers s)"
    | (queued) i where "i < length (subloops (tcp s))" "queue_of (tcp s) i \<noteq> []"
    | (unsent) h where "h < length (objs (tcp s))" "b_buf (out_of (tcp s) h) \<noteq> []"
    using assms(3) unfolding at_rest_def by blast
  then show ?thesis
  proof cases
    case running
    from done_progress [OF assms(1,2) running] obtain r where "srv_step ctl d (Done i) s = Some r" by blast
    then show ?thesis by (intro exI [of _ "Done i"] exI [of _ r]) (simp del: srv_step.simps)
  next
    case waiting
    from pool_progress [OF sel(3) inv(3-5) waiting] obtain e p where
      e: "taking e" "tp_step e (workers s) = Some (Inr p)" by blast
    from e(1) have "pool_move e" by (cases e) (simp_all add: pool_move_def)
    with e show ?thesis by (intro exI [of _ "Move e"]) simp
  next
    case queued
    with sel(1) have "0 < wakeups (subloops (tcp s) ! i)" by (simp add: sv_ok_def tasks_ok_def)
    with queued show ?thesis by (intro exI [of _ "LoopWake i"]) (simp add: on_tcp_def)
  next
    case unsent
    have "ch_events (chan (sc_conn (objs (tcp s) ! h))) AND EPOLLOUT \<noteq> 0"
      using open_sel(1) [OF o unsent(1)] unsent(2) by (simp add: conn_open_def out_of_def)
    with unsent show ?thesis
      by (intro exI [of _ "WritableEv h (Some (length (b_buf (out_of (tcp s) h))))"]) simp
  qed
qed

lemma drain_step_iff: "drain_step ctl d e s = Some s' \<longleftrightarrow> internal e s \<and> srv_step ctl d e s = Some (Inr s')"
  by (simp add: drain_step_def unfaulted_Some)

lemma drain_down:
  assumes "epoll_ctl_spec ctl watched" "answerable watched own d w0 s" "drain_step ctl d e s = Some s'"
  shows "answerable watched own d w0 s'" "messages s' = messages s" "work_for d w0 s' < work_for d w0 s"
  using internal_step [OF assms(1,2), of e "Inr s'"] assms(3) unfolding drain_step_iff by blast+

lemma drain_progress:
  assumes "epoll_ctl_spec ctl watched" "answerable watched own d w0 s" "\<not> at_rest s"
  shows "\<exists>e s'. drain_step ctl d e s = Some s'"
proof -
  obtain e r where e: "internal e s" "srv_step ctl d e s = Some r" using internal_possible [OF assms] by blast
  with internal_step [OF assms(1,2)] show ?thesis unfolding drain_step_iff by blast
qed

interpretation drain: runs_down "drain_step ctl d"
  "\<lambda>s. epoll_ctl_spec ctl watched \<and> answerable watched own d w0 s \<and> messages s = ms" at_rest "work_for d w0"
  by unfold_locales (blast dest: drain_down, blast intro: drain_progress)

lemma drain_steps_run: "steps (drain_step ctl d) es s = Some s' \<Longrightarrow> srv_run ctl d es s = Some (Inr s')"
proof (induction es arbitrary: s)
  case (Cons e es)
  then show ?case by (auto simp: drain_step_iff simp del: srv_step.simps split: option.splits)
qed simp

text \<open>A server at rest has answered everything and written every answer out.\<close>

definition all_answered :: "('k, 'w) rpc_server \<Rightarrow> bool" where
  "all_answered s \<longleftrightarrow> mset (map entry_task (replies s)) = mset (messages s) \<and>
     (\<forall>h. wires s h = concat (map re_out (filter (\<lambda>r. re_conn r = h) (replies s))))"

lemma at_rest_answered:
  assumes "answerable watched own d w0 s" "at_rest s"
  shows "all_answered s"
proof -
  have inv: "srv_inv d w0 s" and sent: "\<forall>r \<in> set (replies s). re_sent r"
    using assms(1) by (simp_all add: answerable_def srv_open_def)
  have "queue_of (tcp s) (loop_of (tcp s) h) = []" for h
    using assms(2) loop_of_less [OF srv_inv_sel(2) [OF inv], of h] by (simp add: at_rest_def)
  then have "flow (tcp s) (wires s) h = wires s h" for h
    using assms(2) by (simp add: flow_def at_rest_def)
  moreover have "flow (tcp s) (wires s) = owed (replies s)" using inv by (simp add: srv_inv_def core_inv_def)
  ultimately have "wires s h = owed (replies s) h" for h by metis
  moreover have "mset (map entry_task (replies s)) = mset (messages s)"
    using inv not_busy [of "workers s"] assms(2) by (simp add: srv_inv_def at_rest_def)
  ultimately show ?thesis using owed_all_sent [OF sent] by (simp add: all_answered_def)
qed

text \<open>Where the server is when nothing internal is left to do.\<close>

definition drained :: "'k epoll_ctl \<Rightarrow> 'w app \<Rightarrow> ('k, 'w) rpc_server \<Rightarrow> ('k, 'w) rpc_server \<Rightarrow> bool" where
  "drained ctl d s s' \<longleftrightarrow> (\<exists>es. steps (drain_step ctl d) es s = Some s') \<and> (\<forall>e. drain_step ctl d e s' = None)"

lemma drained_ex:
  assumes "epoll_ctl_spec ctl watched" "answerable watched own d w0 s"
  shows "\<exists>s'. drained ctl d s s'"
  using drain.runs_out [of ctl watched own d w0 s "messages s"] assms by (auto simp: drained_def)

lemma drained_answered:
  assumes "epoll_ctl_spec ctl watched" "answerable watched own d w0 s" "drained ctl d s s'"
  shows "messages s' = messages s" "srv_inv d w0 s'" "all_answered s'" "\<exists>es. srv_run ctl d es s = Some (Inr s')"
proof -
  obtain es where es: "steps (drain_step ctl d) es s = Some s'" "\<And>e. drain_step ctl d e s' = None"
    using assms(3) by (auto simp: drained_def)
  have s: "epoll_ctl_spec ctl watched \<and> answerable watched own d w0 s \<and> messages s = messages s" using assms by simp
  from drain.bounded [OF s es(1)] drain.stuck_finished [OF s es]
  have a: "answerable watched own d w0 s'" "at_rest s'" and m: "messages s' = messages s" by simp_all
  show "srv_inv d w0 s'" using a(1) by (simp add: answerable_def)
  show "all_answered s'" by (rule at_rest_answered [OF a])
  show "messages s' = messages s" by (rule m)
  show "\<exists>es. srv_run ctl d es s = Some (Inr s')" using drain_steps_run [OF es(1)] by blast
qed

lemma server_answerable:
  assumes "epoll_ctl_spec ctl watched" "loops_own watched io ks own" "0 < io" "0 < m"
    and "undisturbed_run own ctl d es (new_rpc_server io m mx ks w0)"
    and "srv_run ctl d es (new_rpc_server io m mx ks w0) = Some (Inr s)"
    and "\<not> tp_stop (workers s)" "answers_return d w0 (map snd (messages s))"
  shows "answerable watched own d w0 s"
proof -
  note new = srv_inv_new [OF assms(3), where d = d and w = w0 and m = m and mx = mx and ks = ks]
  note inv = srv_run_inv [OF assms(6) new]
  have "open_or_fault watched own d (Inr s :: (_, _) rpc_server res)"
    using run_open [OF assms(1) srv_open_new [OF assms(2)] new assms(5,6)] .
  moreover obtain ps where ps: "tp_run ps (new_pool m mx) = Some (Inr (workers s))"
    using srv_run_pool [OF assms(6)] by (auto simp: rpc_server_over_def)
  have "none_returned (new_pool m mx)" by (simp add: none_returned_def new_pool_def)
  with none_returned_run [OF ps] tp_run_limits [OF ps] assms(4)
  have "none_returned (workers s)" "0 < minThreadnum (workers s)"
    by (simp_all add: new_pool_def)
  ultimately show ?thesis
    using inv assms(7,8) by (simp add: answerable_def)
qed

section \<open>Properties\<close>

text \<open>
  C3. The server under every interleaving of accepts, reads, closes, errors, timers, writes, wake-ups and
  steps of the workers: the bytes on the wire of a connection, followed by what its buffer and
  its loop's queue still hold, are the answers to messages of that connection, whole and in the order
  they were given, with nothing of any other connection between them; every message read is
  answered once, queued once or being worked on; and the answers are those the code
  computes for the messages one after the other.
\<close>

theorem server_streams:
  assumes "srv_run ctl d es (new_rpc_server io m mx ks w0) = Some (Inr s)" "0 < io"
  shows "(\<forall>h. wires s h @ (if h < length (objs (tcp s)) then b_buf (out_of (tcp s) h) @
        posted_to h (queue_of (tcp s) (loop_of (tcp s) h)) else []) =
      concat (map re_out (filter (\<lambda>r. re_conn r = h \<and> re_sent r) (replies s)))) \<and>
    mset (messages s) = mset (map entry_task (replies s)) + mset (tp_queue (workers s)) + running (workers s) \<and>
    answers d (map re_msg (replies s)) w0 = Some (Inr (map re_out (replies s), world s))"
  using srv_run_inv [OF assms(1) srv_inv_new [OF assms(2)]]
  by (simp add: srv_inv_def core_inv_def fun_eq_iff flow_def owed_def)



text \<open>
  C5. Nothing gets stuck. Take any state an undisturbed server with workers has reached, its pool not
  stopped and the code coming back from answering its messages. Whatever the workers and loops then
  do on their own (the steps \<open>internal\<close>; a socket takes output in pieces of any size), under every
  schedule, none of their steps faults, they take at most \<open>work_for\<close>
  steps, and where they have none left every message read so far has been answered exactly
  once, by the answers the code computes one after the other, and every answer is on the wire of its connection.
\<close>

theorem server_answers_all:
  assumes "epoll_ctl_spec ctl watched" "loops_own watched io ks own" "0 < io" "0 < m"
    and "undisturbed_run own ctl d es (new_rpc_server io m mx ks w0)"
    and "srv_run ctl d es (new_rpc_server io m mx ks w0) = Some (Inr s)"
    and "\<not> tp_stop (workers s)" "answers_return d w0 (map snd (messages s))"
  shows "(\<exists>s'. drained ctl d s s') \<and>
    (\<forall>es' s'. steps (drain_step ctl d) es' s = Some s' \<longrightarrow> length es' \<le> work_for d w0 s \<and>
      (\<forall>e r. internal e s' \<longrightarrow> srv_step ctl d e s' = Some r \<longrightarrow> (\<exists>s''. r = Inr s''))) \<and>
    (\<forall>s'. drained ctl d s s' \<longrightarrow> messages s' = messages s \<and>
      mset (map entry_task (replies s')) = mset (messages s) \<and>
      answers d (map re_msg (replies s')) w0 = Some (Inr (map re_out (replies s'), world s')) \<and>
      (\<forall>h. wires s' h = concat (map re_out (filter (\<lambda>r. re_conn r = h) (replies s')))))"
proof (intro conjI allI impI, goal_cases)
  note a = server_answerable [OF assms]
  case 1
  show ?case by (rule drained_ex [OF assms(1) a])
  have s: "epoll_ctl_spec ctl watched \<and> answerable watched own d w0 s \<and> messages s = messages s" using assms(1) a by simp
  {
    case (2 es' s')
    with drain.bounded [OF s] show ?case by fastforce
  next
    case (3 es' s' e r)
    with drain.bounded [OF s 3(1)] internal_step [OF assms(1) _ 3(2,3)] show ?case by blast
  }
  {
    case (4 s') show ?case by (rule drained_answered(1) [OF assms(1) a 4])
  next
    case (5 s') with drained_answered(1,3) [OF assms(1) a 5] show ?case by (simp add: all_answered_def)
  next
    case (6 s') with drained_answered(2) [OF assms(1) a 6] show ?case by (simp add: srv_inv_def core_inv_def)
  next
    case (7 s' h) with drained_answered(3) [OF assms(1) a 7] show ?case by (simp add: all_answered_def)
  }
qed

text \<open>A client connects and its request arrives, in any pieces, within one readable event.\<close>

lemma first_read:
  assumes "epoll_ctl_spec ctl watched" "loops_own watched io ks own" "0 < io" "0 \<le> fd \<and> fd \<notin> own"
    and "\<forall>r \<in> set rs. receiving r" "concat (chunks rs) \<noteq> []" "length (concat (chunks rs)) \<le> 1000000"
  shows "\<exists>sv sv2. newconnction ctl now fd (new_tcpserver io ks) = Inr (0, sv) \<and> 0 < length (objs sv) \<and>
    sv_read ctl now' (rs @ [RecvErr EAGAIN]) 0 sv = Some (Inr ([concat (chunks rs)], sv2))"
proof -
  define new :: "('a, unit) rpc_server" where "new = new_rpc_server io 0 0 ks ()"
  have new_tcp: "tcp new = new_tcpserver io ks" by (simp add: new_def rpc_server_over_def)
  have o: "all_open watched own (tcp new)" and inv: "sv_inv (tcp new)" and f: "fresh_fd own (tcp new) fd"
    using srv_open_new [OF assms(2)] assms(4) sv_inv_new [OF assms(3)]
    by (simp_all add: srv_open_def new_def rpc_server_over_def fresh_fd_def new_tcpserver_def)
  have empty: "objs (tcp new) = []" by (simp add: new_tcp new_tcpserver_def)
  obtain sv where sv: "newconnction ctl now fd (tcp new) = Inr (0, sv)" "all_open watched own sv"
    using accept_open [OF assms(1) o inv f] empty by auto
  have ok: "sv_ok (tcp new)"
    using srv_inv_sel(1) [OF srv_inv_new [OF assms(3), where d = "\<lambda>_ _. None"]] by (simp add: new_def)
  note a = accept_ok [OF ok conjunct1 [OF assms(4)] sv(1)]
  have inv1: "sv_inv sv" and h: "0 < length (objs sv)" using a empty by (simp_all add: sv_ok_def)
  have kept: "kept 1000000 [] (chunks rs) = concat (chunks rs)"
    using kept_all [of "[]" "chunks rs" 1000000] assms(7) by simp
  obtain x sv2 where m: "sv_read ctl now' (rs @ [RecvErr EAGAIN]) 0 sv = Some (Inr (if x = [] then [] else [x], sv2))"
      "x = kept 1000000 [] (chunks rs)"
    using read_open [OF sv(2) inv1 h assms(5)] by blast
  have "sv_read ctl now' (rs @ [RecvErr EAGAIN]) 0 sv = Some (Inr ([concat (chunks rs)], sv2))"
    using m(1) by (simp only: m(2) kept assms(6) if_False)
  then show ?thesis using sv(1) h unfolding new_tcp by blast
qed

lemma request_received:
  assumes "epoll_ctl_spec ctl watched" "loops_own watched io ks own" "0 < io" "0 < m" "0 \<le> fd \<and> fd \<notin> own"
    and "\<forall>r \<in> set rs. receiving r" "concat (chunks rs) \<noteq> []" "length (concat (chunks rs)) \<le> 1000000"
  shows "\<exists>s. srv_run ctl d [Accept now fd, Readable 0 now' (rs @ [RecvErr EAGAIN])] (new_rpc_server io m mx ks w0) =
      Some (Inr s) \<and>
    undisturbed_run own ctl d [Accept now fd, Readable 0 now' (rs @ [RecvErr EAGAIN])] (new_rpc_server io m mx ks w0) \<and>
    messages s = [(0, concat (chunks rs))] \<and> \<not> tp_stop (workers s)"
proof -
  define new where "new = new_rpc_server io m mx ks w0"
  have t: "tcp new = new_tcpserver io ks" "workers new = new_pool m mx" "messages new = []"
    by (simp_all add: new_def rpc_server_over_def)
  obtain sv sv2 where sv: "newconnction ctl now fd (tcp new) = Inr (0, sv)" "0 < length (objs sv)"
      "sv_read ctl now' (rs @ [RecvErr EAGAIN]) 0 sv = Some (Inr ([concat (chunks rs)], sv2))"
    using first_read [OF assms(1-3,5-8), of now now'] unfolding t by blast
  have f: "fresh_fd own (tcp new) fd" using assms(5) by (simp add: t fresh_fd_def new_tcpserver_def)
  let ?s2 = "new\<lparr>tcp := sv2, messages := [(0, concat (chunks rs))], workers := addtask (0, concat (chunks rs)) (workers new)\<rparr>"
  have size: "pool_size (new_pool m mx :: task pool) = m" by (simp add: pool_size_def new_pool_def)
  have st: "srv_step ctl d (Accept now fd) new = Some (Inr (new\<lparr>tcp := sv\<rparr>))"
    using assms(5) sv(1) by (simp add: on_tcp_def)
  have st2: "srv_step ctl d (Readable 0 now' (rs @ [RecvErr EAGAIN])) (new\<lparr>tcp := sv\<rparr>) = Some (Inr ?s2)"
    using sv(2,3) assms(4) by (simp add: server_HandleMessage_def HandleMessage_def t size)
  have "\<not> tp_stop (workers ?s2)" by (simp add: t addtask_def new_pool_def Let_def)
  then show ?thesis using st st2 f assms(6) unfolding new_def [symmetric]
    by (intro exI [of _ ?s2]) (simp del: srv_step.simps)
qed

lemma answers_return_one:
  assumes "d m w0 = Some (Inr r)"
  shows "answers_return d w0 [m]"
  unfolding answers_return_def
proof (intro allI impI)
  fix xs
  assume xs: "mset xs \<subseteq># mset [m]"
  with size_mset_mono [OF this] have "xs = [] \<or> xs = [m]" by (cases xs) auto
  with assms show "\<exists>r. answers d xs w0 = Some (Inr r)" by (cases r) auto
qed

lemma request_runs:
  assumes "epoll_ctl_spec ctl watched" "loops_own watched io ks own" "0 < io" "0 < m" "0 \<le> fd \<and> fd \<notin> own"
    and "\<forall>r \<in> set rs. receiving r" "concat (chunks rs) = bytes" "length bytes \<le> 1000000"
    and "sendable reqs" "reqs \<noteq> []" "encode reqs = Inr (ms', bytes)"
    and "dispatch_all d (map received reqs) w0 = Inr (reps, w')" "sendable reps"
  shows "\<exists>s. srv_run ctl (answer d) [Accept now fd, Readable 0 now' (rs @ [RecvErr EAGAIN])] (new_rpc_server io m mx ks w0) =
      Some (Inr s) \<and> (\<exists>s'. drained ctl (answer d) s s') \<and>
    (\<forall>es s'. steps (drain_step ctl (answer d)) es s = Some s' \<longrightarrow> length es \<le> work_for (answer d) w0 s) \<and>
    (\<forall>s'. drained ctl (answer d) s s' \<longrightarrow> answer d bytes w0 = Some (Inr (wires s' 0, w')) \<and>
      decode (wires s' 0) = Some (Inr (map received reps)) \<and> world s' = w' \<and> (\<forall>h. h \<noteq> 0 \<longrightarrow> wires s' h = []))"
proof -
  obtain out where out: "answer d bytes w0 = Some (Inr (out, w'))" "decode out = Some (Inr (map received reps))"
    using answer_encoded [OF assms(9,11-13)] by blast
  have "length bytes = total_len reqs" using encode_sendable [OF assms(9)] assms(11) by auto
  then have "bytes \<noteq> []" using assms(10) by (cases reqs) (auto simp: total_len_def frame_len_def)
  then have b: "concat (chunks rs) \<noteq> []" "length (concat (chunks rs)) \<le> 1000000" using assms(7,8) by simp_all
  let ?new = "new_rpc_server io m mx ks w0" and ?es = "[Accept now fd, Readable 0 now' (rs @ [RecvErr EAGAIN])]"
  obtain s where s: "srv_run ctl (answer d) ?es ?new = Some (Inr s)" "undisturbed_run own ctl (answer d) ?es ?new"
      "messages s = [(0, bytes)]" "\<not> tp_stop (workers s)"
    using request_received [OF assms(1-6) b, where d = "answer d" and mx = mx and ?w0.0 = w0 and now = now and now' = now'] by (auto simp: assms(7))
  have ret: "answers_return (answer d) w0 (map snd (messages s))" using answers_return_one [where d = "answer d", OF out(1)] s(3) by simp
  have ans: "answerable watched own (answer d) w0 s" by (rule server_answerable [OF assms(1-4) s(2,1,4) ret])
  have "answer d bytes w0 = Some (Inr (wires s' 0, w')) \<and> decode (wires s' 0) = Some (Inr (map received reps)) \<and>
      world s' = w' \<and> (\<forall>h. h \<noteq> 0 \<longrightarrow> wires s' h = [])" if "drained ctl (answer d) s s'" for s'
  proof -
    note dr = drained_answered [OF assms(1) ans that]
    have m: "mset (map entry_task (replies s')) = {#(0, bytes)#}"
      and w: "\<forall>h. wires s' h = concat (map re_out (filter (\<lambda>r. re_conn r = h) (replies s')))"
      using dr(3) unfolding all_answered_def dr(1) by (simp_all add: s(3))
    have "length (replies s') = 1" using arg_cong [OF m, of size] by simp
    then obtain r where r: "replies s' = [r]" by (auto simp: length_Suc_conv)
    have e: "re_conn r = 0" "re_msg r = bytes" using m by (simp_all add: r entry_task_def)
    have "answers (answer d) [bytes] w0 = Some (Inr ([re_out r], world s'))"
      using dr(2) by (simp add: srv_inv_def core_inv_def r e(2))
    then have "re_out r = out" "world s' = w'" using out(1) by simp_all
    then show ?thesis using w out e(1) by (simp add: r)
  qed
  moreover have "length es \<le> work_for (answer d) w0 s" if "steps (drain_step ctl (answer d)) es s = Some s'" for es s'
    using drain.bounded [OF _ that, of watched own w0 "messages s"] assms(1) ans by fastforce
  ultimately show ?thesis using s(1) drained_ex [OF assms(1) ans] by blast
qed


section \<open>Witnesses\<close>

text \<open>The order service behind two I/O loops and three workers; its client sends one request in two pieces.\<close>

definition order_dispatcher :: "(string, nat) dispatcher" where
  "order_dispatcher = registerService order_service []"

abbreviation order_app :: "nat app" where
  "order_app \<equiv> answer order_dispatcher"

text \<open>Descriptors 3 to 6 are the wake-up and timer descriptors of the two loops.\<close>

definition loop_kernels :: "nat \<Rightarrow> int \<Rightarrow> 32 word option" where
  "loop_kernels i = (\<lambda>_. None)(int (2 * i) + 3 := Some EPOLLIN, int (2 * i) + 4 := Some EPOLLIN)"

lemma loop_kernels_own: "loops_own (\<lambda>k. k) 2 loop_kernels {3..6}"
  by (auto simp: loops_own_def loop_kernels_def less_Suc_eq eval_nat_numeral split: if_splits)

definition order_server :: "nat \<Rightarrow> ((int \<Rightarrow> 32 word option), nat) rpc_server" where
  "order_server n = new_rpc_server 2 n 0 loop_kernels 0"

definition order_events :: "string \<Rightarrow> srv_event list" where
  "order_events bytes = [Accept 0 7, Readable 0 1 ([Recv (take 9 bytes), RecvErr EINTR, Recv (drop 9 bytes)] @ [RecvErr EAGAIN])]"

lemma order_bytes:
  obtains ms' bytes where "encode [order_request] = Inr (ms', bytes)" "9 < length bytes" "length bytes \<le> 500"
proof -
  obtain ms' bytes where e: "encode [order_request] = Inr (ms', bytes)" "length bytes = total_len [order_request]"
    using encode_sendable [OF makeOrder_served(1)] by blast
  have "9 < total_len [order_request]" "total_len [order_request] \<le> 500"
    by (simp_all add: total_len_def sample_simps)
  with e(2) show thesis by (intro that [OF e(1)]) linarith+
qed

lemma order_pieces:
  assumes "9 < length bytes" "length bytes \<le> 500"
  defines "rs \<equiv> [Recv (take 9 bytes), RecvErr EINTR, Recv (drop 9 bytes)]"
  shows "\<forall>r \<in> set rs. receiving r" "concat (chunks rs) = bytes" "length bytes \<le> 1000000"
  using assms by (auto simp: receiving_def)

lemma order_received:
  assumes "0 < n"
  shows "\<exists>bytes s out. srv_run list_ctl order_app (order_events bytes) (order_server n) = Some (Inr s) \<and>
    undisturbed_run {3..6} list_ctl order_app (order_events bytes) (order_server n) \<and> messages s = [(0, bytes)] \<and>
    \<not> tp_stop (workers s) \<and> answer order_dispatcher bytes 0 = Some (Inr (out, 1))"
proof -
  obtain ms' bytes where b: "encode [order_request] = Inr (ms', bytes)" "9 < length bytes" "length bytes \<le> 500"
    by (rule order_bytes)
  note p = order_pieces [OF b(2,3)]
  have "dispatch_all order_dispatcher (map received [order_request]) 0 = Inr ([makeOrder_reply], 1)"
    by (simp add: makeOrder_served(4) order_dispatcher_def)
  from answer_encoded [OF makeOrder_served(1) b(1) this makeOrder_served(2)]
  obtain out where out: "answer order_dispatcher bytes 0 = Some (Inr (out, 1))" by blast
  have ne: "concat (chunks [Recv (take 9 bytes), RecvErr EINTR, Recv (drop 9 bytes)]) \<noteq> []"
    using b(2) unfolding p(2) by auto
  have len: "length (concat (chunks [Recv (take 9 bytes), RecvErr EINTR, Recv (drop 9 bytes)])) \<le> 1000000"
    using p(3) unfolding p(2) .
  obtain s where "srv_run list_ctl order_app (order_events bytes) (order_server n) = Some (Inr s)"
    "undisturbed_run {3..6} list_ctl order_app (order_events bytes) (order_server n)" "messages s = [(0, bytes)]"
    "\<not> tp_stop (workers s)"
    using request_received [OF list_ctl_spec loop_kernels_own _ assms _ p(1) ne len, where fd = 7
        and d = order_app and mx = 0 and ?w0.0 = 0 and now = 0 and now' = 1]
    unfolding order_events_def order_server_def p(2) by auto
  with out show ?thesis by blast
qed

theorem server_streams_witness:
  "\<exists>bytes s. srv_run list_ctl order_app (order_events bytes) (order_server 3) = Some (Inr s) \<and>
     {#(0, bytes)#} = mset (map entry_task (replies s)) + mset (tp_queue (workers s)) + running (workers s)"
proof -
  obtain bytes s where s: "srv_run list_ctl order_app (order_events bytes) (order_server 3) = Some (Inr s)"
    "messages s = [(0, bytes)]"
    using order_received [of 3] by auto
  from server_streams [OF s(1) [unfolded order_server_def]] s show ?thesis by auto
qed



theorem server_answers_all_witness:
  "\<exists>bytes s s'. srv_run list_ctl order_app (order_events bytes) (order_server 3) = Some (Inr s) \<and>
     drained list_ctl order_app s s' \<and>
     map entry_task (replies s') = [(0, bytes)] \<and> wires s' 0 = re_out (hd (replies s'))"
proof -
  obtain bytes s out where s: "srv_run list_ctl order_app (order_events bytes) (order_server 3) = Some (Inr s)"
    "undisturbed_run {3..6} list_ctl order_app (order_events bytes) (order_server 3)" "messages s = [(0, bytes)]"
    "\<not> tp_stop (workers s)" "answer order_dispatcher bytes 0 = Some (Inr (out, 1))"
    using order_received [of 3] by auto
  have ret: "answers_return order_app 0 (map snd (messages s))"
    using answers_return_one [where d = order_app, OF s(5)] s(3) by simp
  note all = server_answers_all [OF list_ctl_spec loop_kernels_own _ _ s(2,1) [unfolded order_server_def] s(4) ret, simplified]
  then obtain s' where s': "drained list_ctl order_app s s'" by blast
  with all s(3) have r: "mset (map entry_task (replies s')) = {#(0, bytes)#}"
    "wires s' 0 = concat (map re_out (filter (\<lambda>r. re_conn r = 0) (replies s')))" by auto
  have "length (replies s') = 1" using arg_cong [OF r(1), of size] by simp
  then obtain e where e: "replies s' = [e]" by (auto simp: length_Suc_conv)
  have "entry_task e = (0, bytes)" "re_conn e = 0" using r(1) by (simp_all add: e entry_task_def)
  then show ?thesis using s(1) s' r(2)
    by (intro exI [of _ bytes] exI [of _ s] exI [of _ s']) (simp add: e)
qed


end
