(* ===== verification/ServerStop.thy ===== *)
theory ServerStop
  imports ServerDrain
begin

text \<open>
  \<open>RPCServer::Stop\<close> and \<open>EchoServer::Stop\<close>: first the pool of workers, then the loops. What each pool does
  while it is stopped is in \<open>ThreadPoll\<close> and \<open>PoolStop\<close>; here is what the order of the two means for the
  messages that the loops, still running, read in between.
\<close>

section \<open>The operation\<close>

text \<open>
  What \<open>Stop\<close> sets: \<open>stop_\<close> of the workers' pool and of every loop, each of which is woken up. Between the
  two the caller waits until every worker has ended.
\<close>

definition server_Stop :: "('k, 'w) rpc_server \<Rightarrow> ('k, 'w) rpc_server" where
  "server_Stop s = (let s1 = s\<lparr>workers := Stop (workers s)\<rparr> in s1\<lparr>tcp := sv_stop (tcp s1)\<rparr>)"

lemma server_Stop_sets:
  "tp_stop (workers (server_Stop s))" "el_stop (sv_mainloop (tcp (server_Stop s)))"
  "i < length (subloops (tcp s)) \<Longrightarrow> el_stop (subloops (tcp (server_Stop s)) ! i) \<and>
     0 < wakeups (subloops (tcp (server_Stop s)) ! i)"
  by (simp_all add: server_Stop_def Stop_def sv_stop_def el_set_stop_def wakeup_def Let_def)

section \<open>The time between\<close>

text \<open>No worker takes a task any more; \<open>addtask\<close> may still start a thread, which ends at its first test.\<close>

definition winding_down :: "'t pool \<Rightarrow> bool" where
  "winding_down p \<longleftrightarrow> tp_stop p \<and> 0 < currentThreadnum p \<and>
     (\<forall>x \<in> set (tp_threads p). finished x \<or> x = AtTest)"

text \<open>What the server does to its messages then: it queues them.\<close>

definition only_queued :: "('k, 'w) rpc_server \<Rightarrow> ('k, 'w) rpc_server \<Rightarrow> bool" where
  "only_queued s s' \<longleftrightarrow> winding_down (workers s') \<and> replies s' = replies s \<and> world s' = world s \<and>
     (\<exists>new. messages s' = messages s @ new \<and> tp_queue (workers s') = tp_queue (workers s) @ new)"

lemma only_queued_refl: "winding_down (workers s) \<Longrightarrow> only_queued s s"
  by (simp add: only_queued_def)

lemma only_queued_trans: "only_queued s s1 \<Longrightarrow> only_queued s1 s2 \<Longrightarrow> only_queued s s2"
  by (auto simp: only_queued_def)

lemma winding_set_phase:
  "winding_down p \<Longrightarrow> finished x \<Longrightarrow> winding_down (set_phase i x p)"
  using set_phase_set [of i x p] by (auto simp: winding_down_def set_phase_def dest: set_update_subset_insert [THEN subsetD])

lemma winding_phase:
  "winding_down p \<Longrightarrow> at_phase P i p \<Longrightarrow> \<exists>x. P x \<and> (finished x \<or> x = AtTest)"
  by (auto simp: winding_down_def at_phase_def dest: nth_mem)

lemma winding_move:
  assumes "winding_down p" "pool_move e" "tp_step e p = Some (Inr p')"
  shows "winding_down p' \<and> tp_queue p' = tp_queue p"
proof (cases e)
  case (Test i)
  then have "p' = set_phase i Returned p"
    using assms by (auto simp: tp_test_def winding_down_def split: if_splits)
  then show ?thesis using winding_set_phase [OF assms(1), of Returned i] by simp
next
  case Reap
  then obtain i ds where "p' = set_phase i Reaped (p\<lparr>deadThreadQueue := ds\<rparr>)"
    using assms(3) by (auto simp: tp_reap_def split: list.splits if_splits)
  moreover have "winding_down (p\<lparr>deadThreadQueue := ds\<rparr>)" using assms(1) by (simp add: winding_down_def)
  ultimately show ?thesis using winding_set_phase [of _ Reaped i] by simp
next
  case StopPool
  then show ?thesis using assms by (auto simp: Stop_def winding_down_def)
next
  case (WakeUp i)
  then show ?thesis using assms winding_phase [OF assms(1), of "\<lambda>x. x = InWait" i] by (auto split: if_splits)
next
  case (TimeOut i)
  then show ?thesis using assms winding_phase [OF assms(1), of "\<lambda>x. x = InWait" i] by (auto split: if_splits)
qed (use assms(2) in \<open>simp_all add: pool_move_def\<close>)

lemma handle_messages_winding:
  "handle_messages ctl d h ms s = Some (Inr s') \<Longrightarrow> winding_down (workers s) \<Longrightarrow> only_queued s s'"
proof (induction ms arbitrary: s)
  case Nil
  then show ?case using only_queued_refl by auto
next
  case (Cons m ms)
  let ?s1 = "s\<lparr>messages := messages s @ [(h, m)], workers := addtask (h, m) (workers s)\<rparr>"
  have "server_HandleMessage ctl d (h, m) s = Some (Inr ?s1)"
    using Cons.prems(2) by (simp add: server_HandleMessage_def HandleMessage_def pool_size_def winding_down_def)
  then have r: "handle_messages ctl d h ms ?s1 = Some (Inr s')" using Cons.prems(1) by simp
  have q: "only_queued s ?s1"
    using Cons.prems(2) by (auto simp: only_queued_def winding_down_def addtask_def Let_def)
  then have "winding_down (workers ?s1)" by (simp add: only_queued_def)
  from only_queued_trans [OF q Cons.IH [OF r this]] show ?case .
qed

lemma step_winding:
  assumes "srv_step ctl d e s = Some (Inr s')" "winding_down (workers s)"
  shows "only_queued s s'"
proof (cases e)
  case (Readable h now rs)
  then obtain ms sv where "handle_messages ctl d h ms (s\<lparr>tcp := sv\<rparr>) = Some (Inr s')"
    using assms(1) by (auto split: if_splits option.splits sum.splits)
  from handle_messages_winding [OF this] assms(2) show ?thesis by (simp add: only_queued_def)
next
  case (Move e)
  then obtain p where "pool_move e" "tp_step e (workers s) = Some (Inr p)" "s' = s\<lparr>workers := p\<rparr>"
    using assms(1) by (auto simp: bind_res_Inr split: if_splits)
  with winding_move [OF assms(2)] show ?thesis by (simp add: only_queued_def)
next
  case (Done i)
  then have "at_phase is_running i (workers s)" using assms(1) by (auto split: if_splits)
  from winding_phase [OF assms(2) this] show ?thesis by (auto elim: is_running.elims)
qed (use assms in \<open>auto simp: on_tcp_def bind_res_Inr only_queued_def split: if_splits\<close>)

lemma run_winding:
  "srv_run ctl d es s = Some (Inr s') \<Longrightarrow> winding_down (workers s) \<Longrightarrow> only_queued s s'"
proof (induction es arbitrary: s)
  case Nil
  then show ?case using only_queued_refl by auto
next
  case (Cons e es)
  then obtain s1 where 1: "srv_step ctl d e s = Some (Inr s1)" "srv_run ctl d es s1 = Some (Inr s')"
    by (auto split: option.splits sum.splits)
  note q = step_winding [OF 1(1) Cons.prems(2)]
  then have "winding_down (workers s1)" by (simp add: only_queued_def)
  from only_queued_trans [OF q Cons.IH [OF 1(2) this]] show ?case .
qed

section \<open>Property\<close>

text \<open>
  C18. Messages read while a server stops: once the workers have ended and until the loops have, whatever
  happens, no answer is given and no method called; every message that is still read goes to
  the end of the queue of a pool nobody works for, and its client is not told.
\<close>

theorem stopped_server_drops:
  assumes "srv_run ctl d es (new_rpc_server io m mx ks w0) = Some (Inr s)" "0 < io" "0 < m"
    and "tp_stop (workers s)" "all_finished (workers s)" "srv_run ctl d es' s = Some (Inr s')"
  shows "replies s' = replies s \<and> world s' = world s \<and>
    (\<exists>new. messages s' = messages s @ new \<and> tp_queue (workers s') = tp_queue (workers s) @ new)"
proof -
  obtain ps where ps: "tp_run ps (new_pool m mx) = Some (Inr (workers s))"
    using srv_run_pool [OF assms(1)] by (auto simp: rpc_server_over_def)
  have "tp_inv (workers s)" using srv_inv_sel(3) [OF srv_run_inv [OF assms(1) srv_inv_new [OF assms(2)]]] .
  then have "0 < currentThreadnum (workers s)"
    using tp_run_limits [OF ps] assms(3) by (simp add: tp_inv_def new_pool_def)
  then have "winding_down (workers s)"
    using assms(4,5) by (auto simp: winding_down_def all_finished_def in_set_conv_nth)
  from run_winding [OF assms(6) this] show ?thesis by (simp add: only_queued_def)
qed

text \<open>The order service with one worker is stopped just before the request arrives.\<close>

theorem stopped_server_drops_witness:
  "\<exists>s s'. srv_run list_ctl order_app [Accept 0 7, Move StopPool, Move (Test 0)] (order_server 1) = Some (Inr s) \<and>
     srv_run list_ctl order_app [Readable 0 1 [Recv ''hi'', RecvErr EAGAIN]] s = Some (Inr s') \<and>
     messages s' = [(0, ''hi'')] \<and> tp_queue (workers s') = [(0, ''hi'')] \<and> replies s' = []"
proof -
  let ?new = "order_server 1" and ?p = "set_phase 0 Returned (Stop (new_pool 1 0)) :: task pool"
  have t: "tcp ?new = new_tcpserver 2 loop_kernels" "workers ?new = new_pool 1 0" "messages ?new = []" "replies ?new = []"
    by (simp_all add: order_server_def rpc_server_over_def)
  have p: "tp_step (Test 0) (Stop (new_pool 1 0) :: task pool) = Some (Inr ?p)" "tp_stop ?p" "all_finished ?p" "pool_size ?p = 1" "tp_queue ?p = []"
    by (simp_all add: new_pool_def Stop_def at_phase_def tp_test_def set_phase_def all_finished_def pool_size_def)
  obtain sv sv2 where sv: "newconnction list_ctl 0 7 (tcp ?new) = Inr (0, sv)" "0 < length (objs sv)"
      "sv_read list_ctl 1 [Recv ''hi'', RecvErr EAGAIN] 0 sv = Some (Inr ([''hi''], sv2))"
    using first_read [OF list_ctl_spec loop_kernels_own, of 7 "[Recv ''hi'']" 0 1] unfolding t by (auto simp: receiving_def)
  let ?s = "?new\<lparr>tcp := sv, workers := ?p\<rparr>"
  have s: "srv_run list_ctl order_app [Accept 0 7, Move StopPool, Move (Test 0)] ?new = Some (Inr ?s)"
    using sv(1) p(1) by (simp add: on_tcp_def t pool_move_def del: tp_step.simps(3) One_nat_def)
  let ?t = "?s\<lparr>tcp := sv2, messages := messages ?new @ [(0, ''hi'')], workers := addtask (0, ''hi'') ?p\<rparr>"
  have s': "srv_run list_ctl order_app [Readable 0 1 [Recv ''hi'', RecvErr EAGAIN]] ?s = Some (Inr ?t)"
    using sv(2,3) p(4) by (simp add: server_HandleMessage_def HandleMessage_def)
  from stopped_server_drops [OF s [unfolded order_server_def] _ _ _ _ s' [unfolded order_server_def]] p(2,3)
  have "replies ?t = replies ?new \<and> (\<exists>new. messages ?t = messages ?new @ new \<and> tp_queue (workers ?t) = [] @ new)"
    by (simp add: order_server_def Stop_def new_pool_def)
  then show ?thesis using s s' by (intro exI [of _ ?s] exI [of _ ?t]) (simp add: t del: One_nat_def srv_run.simps)
qed

end
