(* ===== verification/Callbacks.thy ===== *)
theory Callbacks
  imports ChannelModel
begin

text \<open>
  The six \<open>std::function\<close> members with which \<open>TcpServer\<close> reports to its owner, their setters, and what the
  constructors of \<open>RPCServer\<close> and \<open>EchoServer\<close> bind to them. A \<open>TcpServer\<close> calls them without a test, so an
  owner that leaves one out is ended by \<open>std::bad_function_call\<close>. Of the functions bound only the one for messages changes
  any state (the others are empty or print), which is why \<open>ServerRun\<close> has no trace of them.
\<close>

datatype tcp_callback = NewConnection | CloseConnection | ErrorConnection | OnMessageCb | SendComplate | EpollTimeout

type_synonym 's tcp_callbacks = "tcp_callback \<Rightarrow> ('s \<Rightarrow> 's res) option"

definition setnewconnction :: "('s \<Rightarrow> 's res) \<Rightarrow> 's tcp_callbacks \<Rightarrow> 's tcp_callbacks" where
  "setnewconnction fn cbs = cbs(NewConnection := Some fn)"

definition setcloseconnection :: "('s \<Rightarrow> 's res) \<Rightarrow> 's tcp_callbacks \<Rightarrow> 's tcp_callbacks" where
  "setcloseconnection fn cbs = cbs(CloseConnection := Some fn)"

definition seterrorconnection :: "('s \<Rightarrow> 's res) \<Rightarrow> 's tcp_callbacks \<Rightarrow> 's tcp_callbacks" where
  "seterrorconnection fn cbs = cbs(ErrorConnection := Some fn)"

definition setonmessage :: "('s \<Rightarrow> 's res) \<Rightarrow> 's tcp_callbacks \<Rightarrow> 's tcp_callbacks" where
  "setonmessage fn cbs = cbs(OnMessageCb := Some fn)"

definition setsendcomplate :: "('s \<Rightarrow> 's res) \<Rightarrow> 's tcp_callbacks \<Rightarrow> 's tcp_callbacks" where
  "setsendcomplate fn cbs = cbs(SendComplate := Some fn)"

definition setepolltimeout :: "('s \<Rightarrow> 's res) \<Rightarrow> 's tcp_callbacks \<Rightarrow> 's tcp_callbacks" where
  "setepolltimeout fn cbs = cbs(EpollTimeout := Some fn)"

text \<open>\<open>TcpServer\<close>'s own \<open>onmessage\<close>, \<open>sendcomplate\<close> and \<open>epolltimeout\<close> pass the call on.\<close>

definition tcp_onmessage :: "'s tcp_callbacks \<Rightarrow> 's \<Rightarrow> 's res" where
  "tcp_onmessage cbs = call_cb cbs OnMessageCb"

definition tcp_sendcomplate :: "'s tcp_callbacks \<Rightarrow> 's \<Rightarrow> 's res" where
  "tcp_sendcomplate cbs = call_cb cbs SendComplate"

definition tcp_epolltimeout :: "'s tcp_callbacks \<Rightarrow> 's \<Rightarrow> 's res" where
  "tcp_epolltimeout cbs = call_cb cbs EpollTimeout"

text \<open>The handlers of the owner, and the order in which its constructor binds them.\<close>

definition rpc_handlers :: "('s \<Rightarrow> 's res) \<Rightarrow> tcp_callback \<Rightarrow> 's \<Rightarrow> 's res" where
  "rpc_handlers handle_message cb = (case cb of OnMessageCb \<Rightarrow> handle_message | _ \<Rightarrow> Inr)"

definition bind_handlers :: "(tcp_callback \<Rightarrow> 's \<Rightarrow> 's res) \<Rightarrow> 's tcp_callbacks" where
  "bind_handlers h =
     setepolltimeout (h EpollTimeout) (setsendcomplate (h SendComplate) (setonmessage (h OnMessageCb)
       (setcloseconnection (h CloseConnection) (seterrorconnection (h ErrorConnection)
         (setnewconnction (h NewConnection) (\<lambda>_. None))))))"

lemma bind_handlers_all: "bind_handlers h cb = Some (h cb)"
  by (cases cb) (simp_all add: bind_handlers_def setepolltimeout_def setsendcomplate_def setonmessage_def
      setcloseconnection_def seterrorconnection_def setnewconnction_def)

text \<open>Behind the constructor no call meets an empty function, and only messages have an effect.\<close>

lemma bound_callbacks:
  "tcp_onmessage (bind_handlers (rpc_handlers f)) s = f s"
  "tcp_sendcomplate (bind_handlers (rpc_handlers f)) s = Inr s"
  "tcp_epolltimeout (bind_handlers (rpc_handlers f)) s = Inr s"
  "cb \<noteq> OnMessageCb \<Longrightarrow> call_cb (bind_handlers (rpc_handlers f)) cb s = Inr s"
  "call_cb (\<lambda>_. None) cb s = Inl EmptyCall"
  by (cases cb; simp add: tcp_onmessage_def tcp_sendcomplate_def tcp_epolltimeout_def call_cb_def bind_handlers_all rpc_handlers_def)+

end
