(* ===== verification/EchoServer.thy ===== *)
theory EchoServer
  imports ServerStop Callbacks
begin

text \<open>
  \<open>src/server/Echo/EchoServer\<close>: the running server of \<open>ServerRun\<close> with another \<open>OnMessage\<close>, whose reply is
  the message behind a prefix. So everything shown of that server holds of it, and more, since its
  answers cannot fail.
\<close>

section \<open>Operations\<close>

text \<open>\<open>OnMessage\<close>: the bytes handed to \<open>send\<close>.\<close>

definition echo_answer :: "'w app" where
  "echo_answer message w = Some (Inr (''reply:'' @ message, w))"

definition echo_HandleMessage :: "('s \<Rightarrow> 's res option) \<Rightarrow> 't \<Rightarrow> 't pool \<times> 's \<Rightarrow> ('t pool \<times> 's) res option" where
  "echo_HandleMessage on_message task = (\<lambda>(pool, s).
     if pool_size pool = 0 then map_option (\<lambda>r. bind_res r (\<lambda>s'. Inr (pool, s'))) (on_message s)
     else Some (Inr (addtask task pool, s)))"

definition echo_Stop :: "('k, 'w) rpc_server \<Rightarrow> ('k, 'w) rpc_server" where
  "echo_Stop s = (let s1 = s\<lparr>workers := Stop (workers s)\<rparr> in s1\<lparr>tcp := sv_stop (tcp s1)\<rparr>)"

text \<open>
  The other handlers of \<open>TcpServer\<close>'s events: three print a line on \<open>std::cout\<close>, two do nothing. What has
  been printed is kept beside the state.
\<close>

definition cout_line :: "string \<Rightarrow> 's \<times> string \<Rightarrow> ('s \<times> string) res" where
  "cout_line line = (\<lambda>(s, printed). Inr (s, printed @ line @ [CHR 0x0A]))"

definition echo_HandleNewConnction :: "'s \<times> string \<Rightarrow> ('s \<times> string) res" where
  "echo_HandleNewConnction = cout_line ''New connection''"

definition echo_HandleCloseConnection :: "'s \<times> string \<Rightarrow> ('s \<times> string) res" where
  "echo_HandleCloseConnection = cout_line ''Close connection''"

definition echo_HandleErrorConnection :: "'s \<times> string \<Rightarrow> ('s \<times> string) res" where
  "echo_HandleErrorConnection = cout_line ''Error connection''"

definition echo_HandleSendComplate :: "'s \<times> string \<Rightarrow> ('s \<times> string) res" where
  "echo_HandleSendComplate = Inr"

definition echo_HandleEpollTimeout :: "'s \<times> string \<Rightarrow> ('s \<times> string) res" where
  "echo_HandleEpollTimeout = Inr"

definition on_state :: "('s \<Rightarrow> 's res) \<Rightarrow> 's \<times> string \<Rightarrow> ('s \<times> string) res" where
  "on_state f = (\<lambda>(s, printed). bind_res (f s) (\<lambda>s'. Inr (s', printed)))"

fun echo_handlers :: "('s \<Rightarrow> 's res) \<Rightarrow> tcp_callback \<Rightarrow> 's \<times> string \<Rightarrow> ('s \<times> string) res" where
  "echo_handlers f NewConnection = echo_HandleNewConnction"
| "echo_handlers f ErrorConnection = echo_HandleErrorConnection"
| "echo_handlers f CloseConnection = echo_HandleCloseConnection"
| "echo_handlers f OnMessageCb = on_state f"
| "echo_handlers f SendComplate = echo_HandleSendComplate"
| "echo_handlers f EpollTimeout = echo_HandleEpollTimeout"

text \<open>
  The constructor: \<open>TcpServer\<close> with its loops, a pool of \<open>workthreadnum\<close> threads (a negative number
  becomes a \<open>size_t\<close>) that never grows, and the six callbacks.
\<close>

definition EchoServer_construct :: "'k epoll_ctl \<Rightarrow> sock_env \<Rightarrow> 32 word \<Rightarrow> 16 word \<Rightarrow> 'k \<Rightarrow> loop_fds \<Rightarrow>
    loop_fds list \<Rightarrow> string \<Rightarrow> 16 word \<Rightarrow> int \<Rightarrow> ('s \<Rightarrow> 's res) \<Rightarrow>
    (('k, unit) rpc_server \<times> ('s \<times> string) tcp_callbacks) res" where
  "EchoServer_construct ctl env ajunk pjunk k0 fmain fs ip port workthreadnum handle_message =
     bind_res (TcpServer_construct ctl env ajunk pjunk k0 fmain fs ip port) (\<lambda>st.
     Inr (rpc_server_over (st_server st) (nat (workthreadnum mod 2 ^ 64)) 0 (),
          bind_handlers (echo_handlers handle_message)))"

text \<open>The two servers share their code for the hand-over and for \<open>Stop\<close>.\<close>

lemma echo_shares:
  "echo_HandleMessage = HandleMessage" "echo_Stop = server_Stop"
  by (simp_all add: fun_eq_iff echo_HandleMessage_def HandleMessage_def echo_Stop_def server_Stop_def)

text \<open>What the constructor leaves is a server to which the theorems on running servers apply.\<close>

lemma echo_constructed:
  assumes "epoll_ctl_spec ctl watched" "\<forall>fd. watched k0 fd = None" "\<forall>f \<in> set fs. lf_event f \<noteq> lf_timer f"
    and "EchoServer_construct ctl env ajunk pjunk k0 fmain fs ip port n f = Inr (s, cbs)"
  shows "\<exists>ks. s = new_rpc_server (int (length fs)) (nat (n mod 2 ^ 64)) 0 ks () \<and>
    loops_own watched (int (length fs)) ks (loop_descriptors fs) \<and> (\<forall>cb. cbs cb = Some (echo_handlers f cb))"
proof -
  obtain st where st: "TcpServer_construct ctl env ajunk pjunk k0 fmain fs ip port = Inr st"
    "s = rpc_server_over (st_server st) (nat (n mod 2 ^ 64)) 0 ()" "cbs = bind_handlers (echo_handlers f)"
    using assms(4) by (auto simp: EchoServer_construct_def bind_res_Inr)
  from constructed_loops [OF assms(1-3) st(1)] show ?thesis by (auto simp: st(2,3) bind_handlers_all)
qed

text \<open>Of the handlers only the one for messages touches the server.\<close>

lemma echo_handlers_quiet:
  "cb \<noteq> OnMessageCb \<Longrightarrow> \<exists>line. call_cb (bind_handlers (echo_handlers f)) cb (s, printed) = Inr (s, printed @ line)"
  by (cases cb) (simp_all add: call_cb_def bind_handlers_all cout_line_def echo_HandleNewConnction_def echo_HandleCloseConnection_def
      echo_HandleErrorConnection_def echo_HandleSendComplate_def echo_HandleEpollTimeout_def)

section \<open>Property\<close>

lemma answers_echo: "answers echo_answer ms w = Some (Inr (map ((@) ''reply:'') ms, w))"
  by (induction ms) (simp_all add: echo_answer_def)



end
