(* ===== verification/IdleTimer.thy ===== *)
theory IdleTimer
  imports ServerRun
begin

text \<open>
  The timers of the I/O loops: each loop arms a one-shot \<open>timerfd\<close> in its constructor and again at the
  start of \<open>handletimer\<close>, which then sweeps the connections that have been idle too long. Here the running server
  gets a clock, so that it can be said how long an idle connection stays.
\<close>

section \<open>Clock and timers\<close>

text \<open>
  \<open>clk\<close> is the time in seconds (\<open>time(0)\<close> and the timers are taken to run alike, that is nobody sets the
  clock), \<open>due i\<close> when the timer of loop \<open>i\<close> expires.
\<close>

record clockwork =
  clk :: int
  due :: "nat \<Rightarrow> int"

text \<open>\<open>createtimerfd\<close>: the time at which the new timer expires.\<close>

definition createtimerfd :: "int \<Rightarrow> int \<Rightarrow> int" where
  "createtimerfd now sec = now + sec"

definition new_clockwork :: "int \<Rightarrow> 'k tcp_server \<Rightarrow> clockwork" where
  "new_clockwork now sv = \<lparr>clk = now, due = (\<lambda>i. createtimerfd now (timeval (subloops sv ! i)))\<rparr>"

text \<open>\<open>handletimer\<close> sets the timer anew before anything else.\<close>

definition rearm :: "int \<Rightarrow> nat \<Rightarrow> 'k tcp_server \<Rightarrow> clockwork \<Rightarrow> clockwork" where
  "rearm now i sv c = c\<lparr>due := (due c)(i := now + timeval (subloops sv ! i))\<rparr>"

text \<open>
  \<open>Pass n\<close> lets \<open>n\<close> seconds pass, but no timer is left unhandled more than \<open>lag\<close> seconds after it has
  expired: that is the longest a loop is busy between two calls of \<open>epoll_wait\<close>.
\<close>

datatype timed_event = Pass int | Ev srv_event

fun on_time :: "clockwork \<Rightarrow> srv_event \<Rightarrow> bool" where
  "on_time c (Accept now fd) = (now = clk c)"
| "on_time c (Readable h now rs) = (now = clk c)"
| "on_time c (Timer i now) = (now = clk c \<and> due c i \<le> now)"
| "on_time c e = True"

fun rearmed :: "srv_event \<Rightarrow> 'k tcp_server \<Rightarrow> clockwork \<Rightarrow> clockwork" where
  "rearmed (Timer i now) sv c = rearm now i sv c"
| "rearmed e sv c = c"

fun timed_step :: "'k epoll_ctl \<Rightarrow> 'w app \<Rightarrow> int \<Rightarrow> timed_event \<Rightarrow> clockwork \<times> ('k, 'w) rpc_server \<Rightarrow>
    (clockwork \<times> ('k, 'w) rpc_server) res option" where
  "timed_step ctl d lag (Pass n) (c, s) =
     (if 0 \<le> n \<and> (\<forall>i < length (subloops (tcp s)). clk c + n \<le> due c i + lag)
      then Some (Inr (c\<lparr>clk := clk c + n\<rparr>, s)) else None)"
| "timed_step ctl d lag (Ev e) (c, s) =
     (if on_time c e then map_option (\<lambda>r. bind_res r (\<lambda>s'. Inr (rearmed e (tcp s) c, s'))) (srv_step ctl d e s)
      else None)"

fun timed_run :: "'k epoll_ctl \<Rightarrow> 'w app \<Rightarrow> int \<Rightarrow> timed_event list \<Rightarrow> clockwork \<times> ('k, 'w) rpc_server \<Rightarrow>
    (clockwork \<times> ('k, 'w) rpc_server) res option" where
  "timed_run ctl d lag [] cs = Some (Inr cs)"
| "timed_run ctl d lag (e # es) cs =
     (case timed_step ctl d lag e cs of
        Some (Inr cs') \<Rightarrow> timed_run ctl d lag es cs'
      | r \<Rightarrow> r)"

section \<open>What a step does to the ages of connections\<close>

definition lasta :: "'k tcp_server \<Rightarrow> nat \<Rightarrow> int" where
  "lasta sv h = lastatime (sc_conn (objs sv ! h))"

definition loop_params :: "'k tcp_server \<Rightarrow> (int \<times> int) list" where
  "loop_params sv = map (\<lambda>l. (timeval l, timeout_secs l)) (subloops sv)"

text \<open>Every entry afterwards was there with the same age, or has been active just now.\<close>

definition aged :: "int \<Rightarrow> 'k tcp_server \<Rightarrow> 'k tcp_server \<Rightarrow> bool" where
  "aged now sv sv' \<longleftrightarrow> threadnum sv' = threadnum sv \<and> loop_params sv' = loop_params sv \<and>
     (\<forall>fd h. loop_find sv' fd = Some h \<longrightarrow>
        lasta sv' h = now \<or> loop_find sv fd = Some h \<and> lasta sv' h = lasta sv h)"

lemma aged_refl: "aged now sv sv"
  by (simp add: aged_def)

lemma aged_trans: "aged now sv sv1 \<Longrightarrow> aged now sv1 sv2 \<Longrightarrow> aged now sv sv2"
  unfolding aged_def by metis

lemma nth_params: "i < length (subloops sv) \<Longrightarrow> loop_params sv ! i = (timeval (subloops sv ! i), timeout_secs (subloops sv ! i))"
  by (simp add: loop_params_def)

lemma params_update:
  "timeval l = timeval (subloops sv ! i) \<Longrightarrow> timeout_secs l = timeout_secs (subloops sv ! i) \<Longrightarrow>
     loop_params (sv\<lparr>subloops := (subloops sv)[i := l]\<rparr>) = loop_params sv"
  by (rule nth_equalityI) (simp_all add: loop_params_def nth_update_if)

lemma found_handle:
  assumes "sv_inv sv" "loop_find sv fd = Some h"
  shows "handle_ok sv fd h"
proof -
  have "nat (fd mod threadnum sv) < nat (threadnum sv)" using assms(1) by (simp add: sv_inv_def)
  with assms show ?thesis unfolding sv_inv_def loop_find_def by blast
qed

text \<open>The objects may change otherwise, as long as their ages are kept or renewed.\<close>

lemma aged_objs:
  assumes "length os = length (objs sv)"
    and "\<And>h. h < length (objs sv) \<Longrightarrow> lastatime (sc_conn (os ! h)) \<in> {lasta sv h, now}" "sv_inv sv"
  shows "aged now sv (sv\<lparr>epolls := ks, objs := os\<rparr>)"
proof -
  have "h < length (objs sv)" if "loop_find sv fd = Some h" for fd h
    using found_handle [OF assms(3) that] by (simp add: handle_ok_def)
  then show ?thesis
    using assms(2) by (fastforce simp: aged_def loop_params_def loop_find_def lasta_def)
qed

lemma aged_put:
  assumes "sv_inv sv" "lastatime c \<in> {lasta sv h, now}"
  shows "aged now sv (sv_put i h (k, c) sv)"
proof -
  have "lastatime (sc_conn (((objs sv)[h := (objs sv ! h)\<lparr>sc_conn := c\<rparr>]) ! j)) \<in> {lasta sv j, now}" for j
    using assms(2) by (auto simp: nth_update_if lasta_def)
  from aged_objs [OF _ this assms(1), of "(epolls sv)[i := k]"] show ?thesis by (simp add: sv_put_def)
qed

lemma on_channel_age: "on_channel f (k, c) = Inr (k', c') \<Longrightarrow> lastatime c' = lastatime c"
  by (auto simp: on_channel_def bind_res_Inr)

lemma sendinloop_age: "sendinloop ctl data (k, c) = Inr (k', c') \<Longrightarrow> lastatime c' = lastatime c"
  by (auto simp: sendinloop_def dest: on_channel_age)

lemma send_aged:
  assumes "sv_inv sv" "sv_send ctl inloop h data sv = Inr sv'"
  shows "aged now sv sv'"
proof -
  consider "sv' = sv" | i k c where "sv' = sv_put i h (k, c) sv" "lastatime c = lasta sv h"
    | i where "sv' = sv\<lparr>subloops := (subloops sv)[i := queueinloop (h, data) (subloops sv ! i)]\<rparr>"
    using assms(2) by (auto simp: sv_send_def bind_res_Inr Let_def lasta_def dest: sendinloop_age split: if_splits)
  then show ?thesis
  proof cases
    case (3 i)
    have "loop_params sv' = loop_params sv"
      unfolding 3 by (rule params_update) (simp_all add: queueinloop_def wakeup_def)
    moreover have "loop_find sv' = loop_find sv"
      by (simp add: fun_eq_iff loop_find_def 3 nth_update_if queueinloop_def wakeup_def)
    ultimately show ?thesis by (simp add: aged_def) (simp add: 3 lasta_def)
  qed (auto intro: aged_put [OF assms(1)] aged_refl)
qed

lemma run_send_age:
  "run_tasks (run_send ctl) ts (k, os) = Inr (k', os') \<Longrightarrow>
     length os' = length os \<and> (\<forall>h < length os. lastatime (sc_conn (os' ! h)) = lastatime (sc_conn (os ! h)))"
proof (induction ts arbitrary: k os)
  case (Cons t ts)
  obtain h d where t: "t = (h, d)" by fastforce
  from Cons.prems obtain k1 c where c: "sendinloop ctl d (k, sc_conn (os ! h)) = Inr (k1, c)"
    and r: "run_tasks (run_send ctl) ts (k1, os[h := (os ! h)\<lparr>sc_conn := c\<rparr>]) = Inr (k', os')"
    by (auto simp: t run_send_def bind_res_Inr split: if_splits)
  from Cons.IH [OF r] sendinloop_age [OF c] show ?case by (auto simp: nth_update_if)
qed simp

lemma wake_aged:
  assumes "sv_inv sv" "sv_wake ctl i sv = Inr sv'"
  shows "aged now sv sv'"
proof -
  let ?l = "(subloops sv ! i)\<lparr>wakeups := 0, taskqueue := []\<rparr>"
  obtain k os where r: "run_tasks (run_send ctl) (queue_of sv i) (epolls sv ! i, objs sv) = Inr (k, os)"
    and sv': "sv' = (sv\<lparr>epolls := (epolls sv)[i := k], objs := os\<rparr>)\<lparr>subloops := (subloops sv)[i := ?l]\<rparr>"
    using assms(2) by (auto simp: sv_wake_def handlewakeup_def queue_of_def bind_res_Inr)
  let ?sv = "sv\<lparr>epolls := (epolls sv)[i := k], objs := os\<rparr>"
  have "aged now sv ?sv"
    using run_send_age [OF r] by (intro aged_objs assms(1)) (simp_all add: lasta_def)
  moreover have "loop_params sv' = loop_params ?sv"
    unfolding sv' using params_update [of ?l ?sv i] by simp
  moreover have "loop_find sv' = loop_find ?sv" by (simp add: fun_eq_iff loop_find_def sv' nth_update_if)
  ultimately show ?thesis by (simp add: aged_def) (simp add: sv' lasta_def)
qed

lemma write_aged:
  assumes "sv_inv sv" "sv_write ctl room h sv = Inr (out, sv')"
  shows "aged now sv sv'"
proof -
  obtain i n fin k c where w: "writecallback ctl n (epolls sv ! i, sc_conn (objs sv ! h)) = Inr (fin, k, c)"
    and sv': "sv' = sv_put i h (k, c) sv"
    using assms(2) by (auto simp: sv_write_def bind_res_Inr Let_def split: if_splits)
  have "lastatime c = lasta sv h"
    using w by (auto simp: writecallback_def bind_res_Inr Let_def lasta_def dest: on_channel_age split: if_splits)
  then show ?thesis unfolding sv' by (intro aged_put assms(1)) simp
qed

lemma onmessage_age:
  "onmessagecallback ctl now rs kc = Some (Inr (e, msgs, k', c')) \<Longrightarrow> lastatime c' \<in> {lastatime (snd kc), now}"
proof (induction ctl now rs kc rule: onmessagecallback.induct)
  case (2 ctl now d rs k c)
  then show ?case
    by (auto simp: bind_res_Inr conn_closecallback_def dest: on_channel_age split: if_splits)
next
  case (4 ctl now rs k c)
  then show ?case by (auto simp: bind_res_Inr)
qed (auto simp: bind_res_Inr)

lemma close_aged:
  assumes "sv_inv sv" "h < length (objs sv)" "sv_closeconnection h sv = Inr sv'"
  shows "aged now sv sv'"
proof -
  have "loop_params sv' = loop_params sv" "objs sv' = objs sv"
    using assms(3) by (auto simp: sv_closeconnection_def bind_res_Inr Let_def el_closeconnection_def loop_params_def
        intro!: nth_equalityI simp: nth_update_if)
  with sv_inv_close [OF assms(1,2)] assms(3) show ?thesis by (auto simp: aged_def lasta_def split: if_splits)
qed

lemma read_aged:
  assumes "sv_inv sv" "h < length (objs sv)" "sv_read ctl now rs h sv = Some (Inr (ms, sv'))"
  shows "aged now sv sv'"
proof -
  obtain i e k c where r: "onmessagecallback ctl now rs (epolls sv ! i, sc_conn (objs sv ! h)) = Some (Inr (e, ms, k, c))"
    and sv': "sv' = sv_put i h (k, c) sv \<or> sv_closeconnection h (sv_put i h (k, c) sv) = Inr sv'"
    using assms(3) by (auto simp: sv_read_def Let_def bind_res_Inr sv_put_def split: if_splits sum.splits)
  have a: "aged now sv (sv_put i h (k, c) sv)"
    using onmessage_age [OF r] by (intro aged_put assms(1)) (simp add: lasta_def)
  have "c_fd c = sv_fd h sv" using onmessage_fd [OF r] by (simp add: sv_fd_def)
  then have "sv_inv (sv_put i h (k, c) sv)"
    using sv_inv_objs(1) [OF assms(1), of "(epolls sv)[i := k]" c h] by (simp add: sv_put_def)
  from sv' aged_trans [OF a close_aged [OF this]] a assms(2) show ?thesis by auto
qed

lemma error_aged:
  assumes "sv_inv sv" "sv_error ctl h sv = Inr sv'"
  shows "aged now sv sv'"
proof -
  obtain i k c where i: "conn_errorcallback ctl (epolls sv ! i, sc_conn (objs sv ! h)) = Inr (k, c)"
    and sv': "sv' = sv_errorconnection h (sv_put i h (k, c) sv)"
    using assms(2) by (auto simp: sv_error_def bind_res_Inr Let_def sv_put_def split: if_splits)
  have "lastatime c = lasta sv h" using i by (auto simp: conn_errorcallback_def lasta_def dest: on_channel_age)
  then have "aged now sv (sv_put i h (k, c) sv)" by (intro aged_put assms(1)) simp
  then show ?thesis by (simp add: aged_def sv' sv_errorconnection_def loop_params_def loop_find_def lasta_def)
qed

lemma accept_aged:
  assumes "sv_inv sv" "0 \<le> fd" "newconnction ctl now fd sv = Inr (h, sv')"
  shows "aged now sv sv'"
proof -
  have th: "0 < threadnum sv" "length (subloops sv) = nat (threadnum sv)"
    using assms(1) by (simp_all add: sv_inv_def)
  note i = subloop_index_ok(1) [OF th assms(2)]
  obtain k c where kc: "new_connection ctl fd now (epolls sv ! nat (fd mod threadnum sv)) = Inr (k, c)"
    using assms(3) i by (auto simp: newconnction_def sv_construct_def bind_res_Inr)
  note n = sv_inv_newconnction [OF assms(1,2) kc]
  have "lastatime c = now" using kc by (auto simp: new_connection_def bind_res_Inr)
  moreover have "loop_params sv' = loop_params sv"
    using assms(3) by (auto simp: newconnction_def sv_construct_def sv_publish_def sv_install_def bind_res_Inr Let_def
        el_newconnection_def loop_params_def intro!: nth_equalityI simp: nth_update_if)
  moreover have "h' < length (objs sv)" if "loop_find sv fd' = Some h'" for fd' h'
    using found_handle [OF assms(1) that] by (simp add: handle_ok_def)
  ultimately show ?thesis using n assms(3) by (auto simp: aged_def lasta_def nth_append split: if_splits)
qed

text \<open>The answers of a whole step.\<close>

lemma OnMessage_aged:
  assumes "sv_inv (tcp s)" "server_OnMessage ctl d inloop t s = Some (Inr s')"
  shows "aged now (tcp s) (tcp s')"
  using assms(2) send_aged [OF assms(1)] by (auto simp: server_OnMessage_def bind_res_Inr split: prod.splits)

lemma HandleMessage_aged:
  assumes "sv_inv (tcp s)" "server_HandleMessage ctl d t s = Some (Inr s')"
  shows "aged now (tcp s) (tcp s')"
proof (cases "pool_size (workers s) = 0")
  case True
  then obtain s1 where "server_OnMessage ctl d True t (s\<lparr>messages := messages s @ [t]\<rparr>) = Some (Inr s1)" "tcp s' = tcp s1"
    using assms(2) by (auto simp: server_HandleMessage_def HandleMessage_def bind_res_Inr)
  with OnMessage_aged [of "s\<lparr>messages := messages s @ [t]\<rparr>"] assms(1) show ?thesis by simp
next
  case False
  then show ?thesis using assms(2) aged_refl by (auto simp: server_HandleMessage_def HandleMessage_def)
qed

lemma handle_messages_aged:
  "handle_messages ctl d h ms s = Some (Inr s') \<Longrightarrow> srv_inv d w0 s \<Longrightarrow> h < length (objs (tcp s)) \<Longrightarrow> aged now (tcp s) (tcp s')"
proof (induction ms arbitrary: s)
  case (Cons m ms)
  then obtain s1 where s1: "server_HandleMessage ctl d (h, m) s = Some (Inr s1)" "handle_messages ctl d h ms s1 = Some (Inr s')"
    by (auto split: option.splits sum.splits)
  have "sv_inv (tcp s)" using Cons.prems(2) by (simp add: srv_inv_def core_inv_def sv_ok_def)
  note a = HandleMessage_aged [OF this s1(1)] and i = HandleMessage_inv [OF Cons.prems(2,3) s1(1)]
  from aged_trans [OF a Cons.IH [OF s1(2)]] i Cons.prems(3) show ?case by simp
qed (simp add: aged_refl)

text \<open>Every event but a timer.\<close>

lemma step_aged:
  assumes "srv_inv d w0 s" "srv_step ctl d e s = Some (Inr s')" "on_time c e" "\<And>i now. e \<noteq> Timer i now"
  shows "aged (clk c) (tcp s) (tcp s')"
proof -
  have ok: "sv_ok (tcp s)" and inv: "sv_inv (tcp s)" using assms(1) by (simp_all add: srv_inv_def core_inv_def sv_ok_def)
  show ?thesis
  proof (cases e)
    case (Accept now fd)
    then show ?thesis using assms(2,3) accept_aged [OF inv, of fd] by (auto simp: on_tcp_def bind_res_Inr split: if_splits)
  next
    case (Readable h now rs)
    then obtain ms sv where r: "h < length (objs (tcp s))" "sv_read ctl now rs h (tcp s) = Some (Inr (ms, sv))"
        "handle_messages ctl d h ms (s\<lparr>tcp := sv\<rparr>) = Some (Inr s')"
      using assms(2) by (auto split: if_splits option.splits sum.splits)
    have i: "srv_inv d w0 (s\<lparr>tcp := sv\<rparr>)" by (rule same_out_inv [OF assms(1) read_ok [OF ok r(1,2)]])
    have "h < length (objs (tcp (s\<lparr>tcp := sv\<rparr>)))" using read_ok [OF ok r(1,2)] r(1) by (simp add: same_out_def)
    from aged_trans [OF read_aged [OF inv r(1,2)] handle_messages_aged [OF r(3) i this, simplified]]
    show ?thesis using assms(3) Readable by simp
  next
    case (WritableEv h room)
    then show ?thesis using assms(2) write_aged [OF inv] by (auto simp: bind_res_Inr split: if_splits)
  next
    case (LoopWake i)
    then show ?thesis using assms(2) wake_aged [OF inv] by (auto simp: on_tcp_def bind_res_Inr split: if_splits)
  next
    case (ErrorEv h)
    then show ?thesis using assms(2) error_aged [OF inv] by (auto simp: on_tcp_def bind_res_Inr split: if_splits)
  next
    case (Done i)
    then show ?thesis using assms(2) OnMessage_aged [OF inv] aged_refl
      by (auto simp: bind_res_Inr split: if_splits option.splits)
  qed (use assms(2,4) aged_refl in \<open>auto simp: bind_res_Inr split: if_splits\<close>)
qed

section \<open>The bound\<close>

text \<open>
  The timer of a loop is due at most its interval from now and at most \<open>lag\<close> ago; and it is due before any of the
  loop's connections has been idle for the timeout and one interval more.
\<close>

definition timer_of :: "'k tcp_server \<Rightarrow> int \<Rightarrow> nat" where
  "timer_of sv fd = nat (fd mod threadnum sv)"

definition timed_inv :: "int \<Rightarrow> 'w app \<Rightarrow> 'w \<Rightarrow> clockwork \<times> ('k, 'w) rpc_server \<Rightarrow> bool" where
  "timed_inv lag d w0 = (\<lambda>(c, s). srv_inv d w0 s \<and>
     (\<forall>i < length (subloops (tcp s)). loop_params (tcp s) ! i = (30, 60) \<and> due c i \<le> clk c + 30 \<and> clk c \<le> due c i + lag) \<and>
     (\<forall>fd h. loop_find (tcp s) fd = Some h \<longrightarrow> due c (timer_of (tcp s) fd) \<le> lasta (tcp s) h + 90))"

lemma timed_inv_new:
  assumes "0 < io" "0 \<le> lag"
  shows "timed_inv lag d w0 (new_clockwork now (new_tcpserver io ks), new_rpc_server io m mx ks w0)"
  using srv_inv_new [OF assms(1)] assms
  by (auto simp: timed_inv_def new_clockwork_def createtimerfd_def rpc_server_over_def new_tcpserver_def loop_params_def
      new_event_loop_def loop_find_def smap_find_def)

lemma timer_less: "sv_inv sv \<Longrightarrow> timer_of sv fd < length (subloops sv)"
  by (simp add: timer_of_def sv_inv_def)

lemma timer_effect:
  assumes "sv_inv sv" "i < length (subloops sv)"
  shows "loop_params (sv_timer now i sv) = loop_params sv" "objs (sv_timer now i sv) = objs sv"
    "threadnum (sv_timer now i sv) = threadnum sv" "sv_inv (sv_timer now i sv)"
    "loop_find (sv_timer now i sv) fd = (case loop_find sv fd of None \<Rightarrow> None
       | Some h \<Rightarrow> if timer_of sv fd = i \<and> now - lasta sv h > timeout_secs (subloops sv ! i) then None else Some h)"
proof -
  have i: "i < nat (threadnum sv)" using assms by (simp add: sv_inv_def)
  note t = sv_inv_timer [OF assms(1) i, of now]
  then show "objs (sv_timer now i sv) = objs sv" "threadnum (sv_timer now i sv) = threadnum sv" "sv_inv (sv_timer now i sv)"
    by blast+
  show "loop_find (sv_timer now i sv) fd = (case loop_find sv fd of None \<Rightarrow> None
       | Some h \<Rightarrow> if timer_of sv fd = i \<and> now - lasta sv h > timeout_secs (subloops sv ! i) then None else Some h)"
    using t unfolding timer_of_def lasta_def conn_timeout_def [symmetric] sv_idle_def [symmetric] by blast
  obtain fds l where h: "handletimer (\<lambda>lim h. conn_timeout now lim (sc_conn (objs sv ! h))) (subloops sv ! i) = (fds, l)"
    by fastforce
  then have l: "timeval l = timeval (subloops sv ! i)" "timeout_secs l = timeout_secs (subloops sv ! i)"
    by (auto simp: handletimer_def Let_def split: if_splits prod.splits)
  show "loop_params (sv_timer now i sv) = loop_params sv"
    using params_update [OF l] by (simp add: sv_timer_def h removeconnection_fold loop_params_def)
qed

lemma timed_step_inv:
  assumes "timed_inv lag d w0 cs" "timed_step ctl d lag e cs = Some (Inr cs')" "0 \<le> lag"
  shows "timed_inv lag d w0 cs'"
proof -
  obtain c s where cs: "cs = (c, s)" by fastforce
  have inv: "srv_inv d w0 s" and sv: "sv_inv (tcp s)"
    and P: "\<And>i. i < length (subloops (tcp s)) \<Longrightarrow> loop_params (tcp s) ! i = (30, 60) \<and> due c i \<le> clk c + 30 \<and> clk c \<le> due c i + lag"
    and F: "\<And>fd h. loop_find (tcp s) fd = Some h \<Longrightarrow> due c (timer_of (tcp s) fd) \<le> lasta (tcp s) h + 90"
    using assms(1) by (simp_all add: cs timed_inv_def srv_inv_def core_inv_def sv_ok_def)
  show ?thesis
  proof (cases e)
    case (Pass n)
    then have "cs' = (c\<lparr>clk := clk c + n\<rparr>, s)" "0 \<le> n" "\<forall>i < length (subloops (tcp s)). clk c + n \<le> due c i + lag"
      using assms(2) by (auto simp: cs split: if_splits)
    then show ?thesis using inv P F by (fastforce simp: timed_inv_def)
  next
    case (Ev ev)
    then obtain s' where t: "on_time c ev" and st: "srv_step ctl d ev s = Some (Inr s')" and cs': "cs' = (rearmed ev (tcp s) c, s')"
      using assms(2) by (auto simp: cs bind_res_Inr split: if_splits)
    note inv' = srv_step_inv [OF inv st]
    show ?thesis
    proof (cases "\<exists>i now. ev = Timer i now")
      case False
      then have c': "rearmed ev (tcp s) c = c" by (cases ev) auto
      have a: "aged (clk c) (tcp s) (tcp s')" using step_aged [OF inv st t] False by blast
      then have l: "loop_params (tcp s') = loop_params (tcp s)" "threadnum (tcp s') = threadnum (tcp s)"
        by (simp_all add: aged_def)
      have len: "length (subloops (tcp s')) = length (subloops (tcp s))"
        using arg_cong [OF l(1), of length] by (simp add: loop_params_def)
      have "due c (timer_of (tcp s') fd) \<le> lasta (tcp s') h + 90" if f: "loop_find (tcp s') fd = Some h" for fd h
      proof -
        have "lasta (tcp s') h = clk c \<or> loop_find (tcp s) fd = Some h \<and> lasta (tcp s') h = lasta (tcp s) h"
          using a f by (simp add: aged_def)
        then show ?thesis using F P [OF timer_less [OF sv], of fd] by (auto simp: timer_of_def l(2))
      qed
      with P show ?thesis by (simp add: timed_inv_def cs' c' l(1) len inv')
    next
      case True
      then obtain i where ev: "ev = Timer i (clk c)" and i: "i < length (subloops (tcp s))" and d: "due c i \<le> clk c"
        and s': "s' = s\<lparr>tcp := sv_timer (clk c) i (tcp s)\<rparr>"
        using t st by (auto split: if_splits)
      note e = timer_effect [OF sv i, of "clk c"]
      have p: "timeval (subloops (tcp s) ! i) = 30" "timeout_secs (subloops (tcp s) ! i) = 60"
        using P [OF i] nth_params [OF i] by simp_all
      have len: "length (subloops (tcp s')) = length (subloops (tcp s))"
        using arg_cong [OF e(1), of length] by (simp add: s' loop_params_def)
      have F': "(if timer_of (tcp s) fd = i then clk c + 30 else due c (timer_of (tcp s) fd)) \<le> lasta (tcp s) h + 90"
        if "loop_find (tcp s') fd = Some h" for fd h
        using that e(5) [of fd] p F by (auto simp: s' split: option.splits if_splits)
      have same: "lasta (tcp s') = lasta (tcp s)" "timer_of (tcp s') = timer_of (tcp s)"
        by (simp_all add: fun_eq_iff s' lasta_def timer_of_def e)
      let ?c = "c\<lparr>due := (due c)(i := clk c + 30)\<rparr>"
      have c': "cs' = (?c, s')" using p by (simp add: cs' ev rearm_def)
      have "loop_params (tcp s') ! j = (30, 60) \<and> due ?c j \<le> clk ?c + 30 \<and> clk ?c \<le> due ?c j + lag"
        if "j < length (subloops (tcp s'))" for j
        using P [of j] that len assms(3) by (simp add: s' e(1))
      moreover have "due ?c (timer_of (tcp s') fd) \<le> lasta (tcp s') h + 90" if "loop_find (tcp s') fd = Some h" for fd h
        using F' [OF that] by (simp add: same split: if_splits)
      ultimately show ?thesis using inv' unfolding timed_inv_def c' prod.case by blast
    qed
  qed
qed

lemma timed_run_inv:
  "timed_run ctl d lag es cs = Some (Inr cs') \<Longrightarrow> timed_inv lag d w0 cs \<Longrightarrow> 0 \<le> lag \<Longrightarrow> timed_inv lag d w0 cs'"
proof (induction es arbitrary: cs)
  case (Cons e es)
  then obtain cs1 where 1: "timed_step ctl d lag e cs = Some (Inr cs1)" "timed_run ctl d lag es cs1 = Some (Inr cs')"
    by (auto split: option.splits sum.splits)
  from Cons.IH [OF 1(2) timed_step_inv [OF Cons.prems(2) 1(1) Cons.prems(3)] Cons.prems(3)] show ?case .
qed simp

section \<open>Property\<close>

text \<open>
  C32. Idle connections leave, and only those. Whatever happens on a server whose loops come back
  to \<open>epoll_wait\<close> within \<open>lag\<close> seconds of a timer: no table holds a connection that has neither been accepted nor delivered
  a message for more than 90 seconds and the lag (the timeout of 60, and the 30 between two sweeps); and a timer
  takes exactly those of its loop that have been idle for more than 60.
\<close>

theorem idle_connections_leave:
  assumes "timed_run ctl d lag es (new_clockwork now (new_tcpserver io ks), new_rpc_server io m mx ks w0) = Some (Inr (c, s))"
    and "0 < io" "0 \<le> lag"
  shows "(\<forall>fd h. loop_find (tcp s) fd = Some h \<or> smap_find fd (sv_conns (tcp s)) = Some h \<longrightarrow>
      clk c - lastatime (sc_conn (objs (tcp s) ! h)) \<le> 90 + lag) \<and>
    (\<forall>i s'. srv_step ctl d (Timer i (clk c)) s = Some (Inr s') \<longrightarrow> (\<forall>fd. loop_find (tcp s') fd =
      (case loop_find (tcp s) fd of None \<Rightarrow> None
       | Some h \<Rightarrow> if nat (fd mod threadnum (tcp s)) = i \<and> clk c - lastatime (sc_conn (objs (tcp s) ! h)) > 60 then None else Some h)))"
proof -
  have t: "timed_inv lag d w0 (c, s)" by (rule timed_run_inv [OF assms(1) timed_inv_new [OF assms(2,3)] assms(3)])
  then have sv: "sv_inv (tcp s)" by (simp add: timed_inv_def srv_inv_def core_inv_def sv_ok_def)
  have "clk c - lasta (tcp s) h \<le> 90 + lag" if "loop_find (tcp s) fd = Some h" for fd h
    using t that timer_less [OF sv, of fd] by (fastforce simp: timed_inv_def)
  moreover have "loop_find (tcp s) fd = Some h" if "smap_find fd (sv_conns (tcp s)) = Some h" for fd h
    using that sv by (simp add: sv_inv_def)
  moreover have "timeout_secs (subloops (tcp s) ! i) = 60" if "i < length (subloops (tcp s))" for i
    using t that nth_params [OF that] by (simp add: timed_inv_def)
  ultimately show ?thesis
    using timer_effect(5) [OF sv] by (auto simp: lasta_def timer_of_def split: if_splits option.splits)
qed

text \<open>Two loops; a client connects and half a minute passes.\<close>

theorem idle_connections_leave_witness:
  "\<exists>c s. timed_run list_ctl (\<lambda>_ _. None) 5 [Ev (Accept 100 7), Pass 30]
       (new_clockwork 100 (new_tcpserver 2 (\<lambda>_ _. None) :: (int \<Rightarrow> 32 word option) tcp_server), new_rpc_server 2 3 0 (\<lambda>_ _. None) ()) = Some (Inr (c, s)) \<and>
     loop_find (tcp s) 7 = Some 0 \<and> clk c - lastatime (sc_conn (objs (tcp s) ! 0)) \<le> 95"
proof -
  let ?sv = "new_tcpserver 2 (\<lambda>_ _. None) :: (int \<Rightarrow> 32 word option) tcp_server"
  let ?c = "new_clockwork 100 ?sv" and ?new = "new_rpc_server 2 3 0 (\<lambda>_ _. None) () :: (int \<Rightarrow> 32 word option, unit) rpc_server"
  have new: "tcp ?new = ?sv" by (simp add: rpc_server_over_def)
  have "sv_inv ?sv" using sv_inv_new [of 2] by simp
  from newconnction_ok [OF this _ list_ctl_spec, of 7 100] obtain sv where
    sv: "newconnction list_ctl 100 7 ?sv = Inr (0, sv)" "sv_inv sv" "threadnum sv = 2" "loop_find sv 7 = Some 0"
    by (auto simp: new_tcpserver_def)
  have len: "length (subloops sv) = 2" using sv(2,3) by (simp add: sv_inv_def)
  have "due ?c i = 130" if "i < 2" for i
    using that by (simp add: new_clockwork_def createtimerfd_def new_tcpserver_def new_event_loop_def)
  moreover have "clk ?c = 100" by (simp add: new_clockwork_def)
  ultimately have r: "timed_run list_ctl (\<lambda>_ _. None) 5 [Ev (Accept 100 7), Pass 30] (?c, ?new) =
      Some (Inr (?c\<lparr>clk := 130\<rparr>, ?new\<lparr>tcp := sv\<rparr>))"
    using sv(1) len by (simp add: on_tcp_def new)
  let ?s = "?new\<lparr>tcp := sv\<rparr>"
  have "clk (?c\<lparr>clk := 130\<rparr>) - lastatime (sc_conn (objs (tcp ?s) ! 0)) \<le> 90 + 5"
    using conjunct1 [OF idle_connections_leave [OF r]] sv(4) by fastforce
  then have "loop_find (tcp ?s) 7 = Some 0 \<and> clk (?c\<lparr>clk := 130\<rparr>) - lastatime (sc_conn (objs (tcp ?s) ! 0)) \<le> 95"
    using sv(4) by simp
  with r show ?thesis by blast
qed

end
