(* ===== verification/Lifetime.thy ===== *)
theory Lifetime
  imports EchoServer IdleTimer
begin

text \<open>
  How long \<open>Connection\<close> objects live in the running server. A connection is owned by \<open>shared_ptr\<close>s: in the
  server's table, in its loop's table, and in the tasks of the pool (\<open>bind(OnMessage, conn, message)\<close>). It is used
  through plain pointers as well: by the tasks in a loop's queue, which bind \<open>this\<close>, and by the channels that
  \<open>epoll_wait\<close> returns in a batch. With the last owner the object goes, and its descriptor is closed.
\<close>

section \<open>State\<close>

text \<open>What \<open>epoll_wait\<close> returns in an I/O loop: its wake-up channel, its timer, channels of connections.\<close>

datatype ready = WakeCh | TimerCh | ConnCh nat

text \<open>
  \<open>lv_batch i\<close> is what is left of the vector \<open>rchannels\<close> of loop \<open>i\<close>, \<open>lv_dead\<close> the destroyed connections;
  \<open>lv_swept\<close> remembers, for the statements, which connections a timer has taken out of the tables.
\<close>

record ('k, 'w) live_server =
  lv_server :: "('k, 'w) rpc_server"
  lv_batch :: "nat \<Rightarrow> ready list"
  lv_dead :: "nat set"
  lv_swept :: "nat set"

definition new_live :: "('k, 'w) rpc_server \<Rightarrow> ('k, 'w) live_server" where
  "new_live s = \<lparr>lv_server = s, lv_batch = (\<lambda>_. []), lv_dead = {}, lv_swept = {}\<rparr>"

abbreviation lv_tcp :: "('k, 'w) live_server \<Rightarrow> 'k tcp_server" where
  "lv_tcp s \<equiv> tcp (lv_server s)"

abbreviation closed :: "'k tcp_server \<Rightarrow> nat \<Rightarrow> bool" where
  "closed sv h \<equiv> disconnect (sc_conn (objs sv ! h))"

definition pool_conns :: "('k, 'w) rpc_server \<Rightarrow> nat set" where
  "pool_conns s = fst ` set (tp_queue (workers s) @ in_work (workers s))"

definition owned :: "('k, 'w) rpc_server \<Rightarrow> nat \<Rightarrow> bool" where
  "owned s h \<longleftrightarrow> h \<in> snd ` set (sv_conns (tcp s)) \<or> (\<exists>l \<in> set (subloops (tcp s)). h \<in> snd ` set (el_conns l)) \<or>
     h \<in> pool_conns s"

section \<open>Steps\<close>

text \<open>\<open>~Socket\<close> closes the descriptor, and with that the kernel forgets it if it still watches it.\<close>

definition sock_close :: "'k epoll_ctl \<Rightarrow> nat \<Rightarrow> 'k tcp_server \<Rightarrow> 'k tcp_server" where
  "sock_close ctl h sv =
     (case ctl CTL_DEL (sv_fd h sv) 0 (epolls sv ! loop_of sv h) of
        None \<Rightarrow> sv
      | Some k \<Rightarrow> sv\<lparr>epolls := (epolls sv)[loop_of sv h := k]\<rparr>)"

definition release :: "'k epoll_ctl \<Rightarrow> ('k, 'w) live_server \<Rightarrow> ('k, 'w) live_server" where
  "release ctl s =
     (let gone = filter (\<lambda>h. h \<notin> lv_dead s \<and> \<not> owned (lv_server s) h) [0..<length (objs (lv_tcp s))] in
      s\<lparr>lv_server := (lv_server s)\<lparr>tcp := fold (sock_close ctl) gone (lv_tcp s)\<rparr>,
        lv_dead := lv_dead s \<union> set gone\<rparr>)"

text \<open>The channel whose callback an event is, in which loop.\<close>

fun channel_of :: "'k tcp_server \<Rightarrow> srv_event \<Rightarrow> (nat \<times> ready) option" where
  "channel_of sv (Readable h now rs) = Some (loop_of sv h, ConnCh h)"
| "channel_of sv (WritableEv h room) = Some (loop_of sv h, ConnCh h)"
| "channel_of sv (BrokenPipe h) = Some (loop_of sv h, ConnCh h)"
| "channel_of sv (ErrorEv h) = Some (loop_of sv h, ConnCh h)"
| "channel_of sv (LoopWake i) = Some (i, WakeCh)"
| "channel_of sv (Timer i now) = Some (i, TimerCh)"
| "channel_of sv e = None"

text \<open>A channel is next when it heads its loop's batch; a new descriptor is not one of a living socket.\<close>

fun may_come :: "srv_event \<Rightarrow> ('k, 'w) live_server \<Rightarrow> bool" where
  "may_come (Accept now fd) s = (\<forall>h < length (objs (lv_tcp s)). h \<notin> lv_dead s \<longrightarrow> sv_fd h (lv_tcp s) \<noteq> fd)"
| "may_come e s = (case channel_of (lv_tcp s) e of
     None \<Rightarrow> True
   | Some (i, c) \<Rightarrow> lv_batch s i \<noteq> [] \<and> hd (lv_batch s i) = c)"

text \<open>The connections whose objects an event uses.\<close>

fun touched :: "srv_event \<Rightarrow> ('k, 'w) rpc_server \<Rightarrow> nat set" where
  "touched (Readable h now rs) s = {h}"
| "touched (WritableEv h room) s = {h}"
| "touched (BrokenPipe h) s = {h}"
| "touched (ErrorEv h) s = {h}"
| "touched (LoopWake i) s = (if i < length (subloops (tcp s)) then fst ` set (queue_of (tcp s) i) else {})"
| "touched (Timer i now) s = (if i < length (subloops (tcp s))
     then snd ` set (el_conns (subloops (tcp s) ! i)) else {})"
| "touched (Done i) s = (if at_phase is_running i (workers s)
     then fst ` set_option (running_task (tp_threads (workers s) ! i)) else {})"
| "touched e s = {}"

text \<open>
  \<open>Poll i es\<close> is \<open>epoll_wait\<close> in loop \<open>i\<close> when the last batch is done: at most \<open>MaxEvents\<close> channels,
  each once, of connections that exist and whose channel has not been removed.
\<close>

datatype life_event = Poll nat "ready list" | Serve srv_event

definition pollable :: "('k, 'w) live_server \<Rightarrow> nat \<Rightarrow> ready \<Rightarrow> bool" where
  "pollable s i c \<longleftrightarrow> (case c of
     WakeCh \<Rightarrow> 0 < wakeups (subloops (lv_tcp s) ! i)
   | TimerCh \<Rightarrow> True
   | ConnCh h \<Rightarrow> h < length (objs (lv_tcp s)) \<and> h \<notin> lv_dead s \<and> \<not> closed (lv_tcp s) h \<and> loop_of (lv_tcp s) h = i)"

definition done_with :: "srv_event \<Rightarrow> ('k, 'w) live_server \<Rightarrow> nat \<Rightarrow> ready list" where
  "done_with e s = (case channel_of (lv_tcp s) e of
     None \<Rightarrow> lv_batch s
   | Some (i, c) \<Rightarrow> (lv_batch s)(i := tl (lv_batch s i)))"

fun swept_by :: "srv_event \<Rightarrow> 'k tcp_server \<Rightarrow> nat set" where
  "swept_by (Timer i now) sv = {h \<in> snd ` set (el_conns (subloops sv ! i)). sv_idle now i sv h}"
| "swept_by e sv = {}"

fun life_step :: "'k epoll_ctl \<Rightarrow> 'w app \<Rightarrow> life_event \<Rightarrow> ('k, 'w) live_server \<Rightarrow> ('k, 'w) live_server res option" where
  "life_step ctl d (Poll i es) s =
     (if i < length (subloops (lv_tcp s)) \<and> lv_batch s i = [] \<and> length es \<le> 100 \<and> distinct es \<and> (\<forall>c \<in> set es. pollable s i c)
      then Some (Inr (s\<lparr>lv_batch := (lv_batch s)(i := es)\<rparr>)) else None)"
| "life_step ctl d (Serve e) s =
     (if \<not> may_come e s then None
      else if touched e (lv_server s) \<inter> lv_dead s \<noteq> {} then Some (Inl UseAfterFree)
      else map_option (\<lambda>r. bind_res r (\<lambda>s'. Inr (release ctl (s\<lparr>lv_server := s', lv_batch := done_with e s,
             lv_swept := lv_swept s \<union> swept_by e (lv_tcp s)\<rparr>))))
           (srv_step ctl d e (lv_server s)))"

fun life_run :: "'k epoll_ctl \<Rightarrow> 'w app \<Rightarrow> life_event list \<Rightarrow> ('k, 'w) live_server \<Rightarrow> ('k, 'w) live_server res option" where
  "life_run ctl d [] s = Some (Inr s)"
| "life_run ctl d (e # es) s =
     (case life_step ctl d e s of
        Some (Inr s') \<Rightarrow> life_run ctl d es s'
      | r \<Rightarrow> r)"

lemma case_fault: "(case r of Some (Inl g) \<Rightarrow> g = f | _ \<Rightarrow> False) \<Longrightarrow> r = Some (Inl f)"
  by (auto split: option.splits sum.splits)

lemma life_run_append:
  "life_run ctl d es s = Some (Inr s1) \<Longrightarrow> life_run ctl d (es @ fs) s = life_run ctl d fs s1"
  by (induction es arbitrary: s) (auto split: option.splits sum.splits simp del: life_step.simps)

section \<open>What a step does to owners\<close>

lemma set_tasks: "set (tp_queue p @ in_work p) = set_mset (mset (tp_queue p) + running p)"
proof -
  have "mset (List.map_filter running_task ts) =
      sum_list (map (\<lambda>x. case running_task x of None \<Rightarrow> {#} | Some t \<Rightarrow> {#t#}) ts)" for ts :: "task phase list"
    by (induction ts) (simp_all add: List.map_filter_def split: option.splits)
  then have "mset (in_work p) = running p" by (simp add: in_work_def running_def)
  then show ?thesis by (metis set_mset_mset mset_append)
qed

lemma pool_conns_alt: "pool_conns s = fst ` set_mset (mset (tp_queue (workers s)) + running (workers s))"
  by (simp only: pool_conns_def set_tasks)

text \<open>Every table entry is one of the loop of its descriptor.\<close>

lemma smap_find_mem: "smap_inv m \<Longrightarrow> h \<in> snd ` set m \<longleftrightarrow> (\<exists>fd. smap_find fd m = Some h)"
proof -
  assume "smap_inv m"
  then have "distinct (map fst m)" by (simp add: smap_inv_def strict_sorted_iff)
  then show ?thesis by (auto simp: smap_find_def intro: rev_image_eqI)
qed

lemma owned_iff:
  assumes "sv_inv (tcp s)"
  shows "owned s h \<longleftrightarrow> loop_find (tcp s) (sv_fd h (tcp s)) = Some h \<or> h \<in> pool_conns s"
proof -
  let ?sv = "tcp s"
  have f: "loop_find ?sv (sv_fd h ?sv) = Some h" if "loop_find ?sv fd = Some h" for fd
    using found_handle [OF assms that] that by (simp add: handle_ok_def)
  have "loop_find ?sv (sv_fd h ?sv) = Some h" if "h \<in> snd ` set (sv_conns ?sv)"
    using that assms smap_find_mem [of "sv_conns ?sv" h] f unfolding sv_inv_def by blast
  moreover have "loop_find ?sv (sv_fd h ?sv) = Some h" if l: "l \<in> set (subloops ?sv)" "h \<in> snd ` set (el_conns l)" for l
  proof -
    obtain i where i: "i < length (subloops ?sv)" "l = subloops ?sv ! i" using l(1) by (auto simp: in_set_conv_nth)
    have s: "smap_inv (el_conns (subloops ?sv ! i))" using assms i(1) by (simp add: sv_inv_def)
    obtain fd where "smap_find fd (el_conns (subloops ?sv ! i)) = Some h"
      using l(2) smap_find_mem [OF s] by (auto simp: i(2))
    moreover from this have "nat (fd mod threadnum ?sv) = i" using assms i(1) by (simp add: sv_inv_def)
    ultimately have "loop_find ?sv fd = Some h" by (simp add: loop_find_def)
    then show ?thesis by (rule f)
  qed
  moreover have "\<exists>l \<in> set (subloops ?sv). h \<in> snd ` set (el_conns l)" if "loop_find ?sv (sv_fd h ?sv) = Some h"
  proof -
    let ?l = "subloops ?sv ! nat (sv_fd h ?sv mod threadnum ?sv)"
    have n: "nat (sv_fd h ?sv mod threadnum ?sv) < length (subloops ?sv)" using assms by (simp add: sv_inv_def)
    then have "smap_inv (el_conns ?l)" using assms by (simp add: sv_inv_def)
    from smap_find_mem [OF this, of h] that have "h \<in> snd ` set (el_conns ?l)" unfolding loop_find_def by blast
    with n show ?thesis by (intro bexI [of _ ?l]) simp_all
  qed
  ultimately show ?thesis unfolding owned_def by blast
qed

text \<open>
  What an event does to the tables, apart from a new connection and a timer: of the connections not in \<open>H\<close>
  none is closed, and an entry goes only with the closing of a connection in \<open>H\<close>.
\<close>

definition keeps :: "nat set \<Rightarrow> 'k tcp_server \<Rightarrow> 'k tcp_server \<Rightarrow> bool" where
  "keeps H sv sv' \<longleftrightarrow> threadnum sv' = threadnum sv \<and> length (subloops sv') = length (subloops sv) \<and>
     length (objs sv') = length (objs sv) \<and>
     (\<forall>h < length (objs sv). sv_fd h sv' = sv_fd h sv \<and> (closed sv' h \<longleftrightarrow> closed sv h \<or> h \<in> H \<and> closed sv' h)) \<and>
     (\<forall>fd. loop_find sv' fd = loop_find sv fd \<or>
        (\<exists>h \<in> H. h < length (objs sv) \<and> fd = sv_fd h sv \<and> loop_find sv' fd = None \<and> closed sv' h))"

lemma keeps_refl: "keeps H sv sv"
  by (auto simp: keeps_def)

lemma keeps_trans: "keeps H sv sv1 \<Longrightarrow> keeps {} sv1 sv2 \<Longrightarrow> keeps H sv sv2"
  unfolding keeps_def by (elim conjE, intro conjI) (simp_all, metis+)

lemma keeps_put:
  assumes "c_fd c = sv_fd h sv" "closed sv h \<Longrightarrow> disconnect c" "disconnect c \<Longrightarrow> closed sv h \<or> h \<in> H"
  shows "keeps H sv (sv_put i h (k, c) sv)"
  using assms by (auto simp: keeps_def sv_put_def sv_fd_def loop_find_def nth_update_if)

lemma keeps_loop:
  assumes "el_conns l = el_conns (subloops sv ! i)"
  shows "keeps H sv (sv\<lparr>subloops := (subloops sv)[i := l]\<rparr>)"
  using assms by (auto simp: keeps_def sv_fd_def loop_find_def nth_update_if)

lemma on_channel_same: "on_channel f (k, c) = Inr (k', c') \<Longrightarrow> disconnect c' = disconnect c \<and> c_fd c' = c_fd c"
  by (auto simp: on_channel_def bind_res_Inr)

lemma sendinloop_same: "sendinloop ctl data (k, c) = Inr (k', c') \<Longrightarrow> disconnect c' = disconnect c \<and> c_fd c' = c_fd c"
  by (auto simp: sendinloop_def dest: on_channel_same)

lemma send_keeps:
  assumes "sv_send ctl inloop h data sv = Inr sv'"
  shows "keeps H sv sv'"
proof -
  consider "sv' = sv" | i k c where "sv' = sv_put i h (k, c) sv" "disconnect c = closed sv h" "c_fd c = sv_fd h sv"
    | i where "sv' = sv\<lparr>subloops := (subloops sv)[i := queueinloop (h, data) (subloops sv ! i)]\<rparr>"
    using assms by (auto simp: sv_send_def bind_res_Inr Let_def sv_fd_def dest!: sendinloop_same split: if_splits)
  then show ?thesis
    by cases (auto intro: keeps_put keeps_refl keeps_loop simp: queueinloop_def wakeup_def)
qed

lemma run_send_same:
  "run_tasks (run_send ctl) ts (k, os) = Inr (k', os') \<Longrightarrow> length os' = length os \<and>
     (\<forall>h < length os. disconnect (sc_conn (os' ! h)) = disconnect (sc_conn (os ! h)) \<and>
       c_fd (sc_conn (os' ! h)) = c_fd (sc_conn (os ! h)))"
proof (induction ts arbitrary: k os)
  case (Cons t ts)
  obtain h d where t: "t = (h, d)" by fastforce
  from Cons.prems obtain k1 c where c: "sendinloop ctl d (k, sc_conn (os ! h)) = Inr (k1, c)"
    and r: "run_tasks (run_send ctl) ts (k1, os[h := (os ! h)\<lparr>sc_conn := c\<rparr>]) = Inr (k', os')"
    by (auto simp: t run_send_def bind_res_Inr split: if_splits)
  from Cons.IH [OF r] sendinloop_same [OF c] show ?case by (auto simp: nth_update_if)
qed simp

lemma wake_keeps:
  assumes "sv_wake ctl i sv = Inr sv'"
  shows "keeps H sv sv'"
proof -
  obtain k os where r: "run_tasks (run_send ctl) (queue_of sv i) (epolls sv ! i, objs sv) = Inr (k, os)"
    and sv': "sv' = sv\<lparr>subloops := (subloops sv)[i := (subloops sv ! i)\<lparr>wakeups := 0, taskqueue := []\<rparr>],
      epolls := (epolls sv)[i := k], objs := os\<rparr>"
    using assms by (auto simp: sv_wake_def handlewakeup_def queue_of_def bind_res_Inr)
  then show ?thesis
    using run_send_same [OF r] by (auto simp: keeps_def sv_fd_def loop_find_def nth_update_if)
qed

lemma write_keeps:
  assumes "sv_write ctl room h sv = Inr (out, sv')"
  shows "keeps H sv sv'"
proof -
  obtain i n fin k c where w: "writecallback ctl n (epolls sv ! i, sc_conn (objs sv ! h)) = Inr (fin, k, c)"
    and sv': "sv' = sv_put i h (k, c) sv"
    using assms by (auto simp: sv_write_def bind_res_Inr Let_def split: if_splits)
  have "disconnect c = closed sv h \<and> c_fd c = sv_fd h sv"
    using w by (auto simp: writecallback_def bind_res_Inr Let_def sv_fd_def dest: on_channel_same split: if_splits)
  then show ?thesis unfolding sv' by (intro keeps_put) simp_all
qed

lemma error_keeps:
  assumes "sv_error ctl h sv = Inr sv'"
  shows "keeps {h} sv sv'"
proof -
  obtain i k c where i: "conn_errorcallback ctl (epolls sv ! i, sc_conn (objs sv ! h)) = Inr (k, c)"
    and sv': "sv' = sv_errorconnection h (sv_put i h (k, c) sv)"
    using assms by (auto simp: sv_error_def bind_res_Inr Let_def sv_put_def split: if_splits)
  have "disconnect c \<and> c_fd c = sv_fd h sv"
    using i by (auto simp: conn_errorcallback_def sv_fd_def dest: on_channel_same)
  then have "keeps {h} sv (sv_put i h (k, c) sv)" by (intro keeps_put) simp_all
  then show ?thesis by (simp add: keeps_def sv' sv_errorconnection_def loop_find_def sv_fd_def)
qed

text \<open>A read closes the connection exactly when it meets the end of the stream.\<close>

lemma onmessage_same:
  "onmessagecallback ctl now rs kc = Some (Inr (e, msgs, k', c')) \<Longrightarrow>
     c_fd c' = c_fd (snd kc) \<and> (disconnect c' \<longleftrightarrow> disconnect (snd kc) \<or> e = PeerClosed)"
proof (induction ctl now rs kc rule: onmessagecallback.induct)
  case (2 ctl now d rs k c)
  then show ?case
    by (auto simp: bind_res_Inr conn_closecallback_def dest: on_channel_same split: if_splits)
next
  case (4 ctl now rs k c)
  then show ?case by (auto simp: bind_res_Inr)
qed (auto simp: bind_res_Inr)

lemma read_keeps:
  assumes "sv_inv sv" "h < length (objs sv)" "sv_read ctl now rs h sv = Some (Inr (ms, sv'))"
  shows "keeps {h} sv sv'"
proof -
  obtain i e k c where r: "onmessagecallback ctl now rs (epolls sv ! i, sc_conn (objs sv ! h)) = Some (Inr (e, ms, k, c))"
    and sv': "sv' = sv_put i h (k, c) sv \<and> e \<noteq> PeerClosed \<or>
      sv_closeconnection h (sv_put i h (k, c) sv) = Inr sv' \<and> e = PeerClosed"
    using assms(3) by (auto simp: sv_read_def Let_def bind_res_Inr sv_put_def split: if_splits sum.splits)
  have c: "c_fd c = sv_fd h sv" "disconnect c \<longleftrightarrow> closed sv h \<or> e = PeerClosed"
    using onmessage_same [OF r] by (simp_all add: sv_fd_def)
  let ?sv = "sv_put i h (k, c) sv"
  have k: "keeps {h} sv ?sv" using c by (intro keeps_put) auto
  show ?thesis
  proof (cases "e = PeerClosed")
    case True
    then have cl: "sv_closeconnection h ?sv = Inr sv'" using sv' by simp
    have inv: "sv_inv ?sv" using sv_inv_objs(1) [OF assms(1) _ c(1), of "(epolls sv)[i := k]"] by (simp add: sv_put_def)
    have "h < length (objs ?sv)" using assms(2) by simp
    from sv_inv_close [OF inv this] cl have f: "threadnum sv' = threadnum ?sv" "objs sv' = objs ?sv"
      "loop_find sv' fd = (if fd = sv_fd h ?sv then None else loop_find ?sv fd)" for fd
      by auto
    have "length (subloops sv') = length (subloops ?sv)"
      using same_out_close [OF cl] by (simp add: same_out_def)
    moreover have "closed sv' h" "sv_fd h ?sv = sv_fd h sv"
      using c True assms(2) by (simp_all add: f(2) sv_put_def sv_fd_def)
    moreover have "loop_find ?sv = loop_find sv" by (simp add: fun_eq_iff sv_put_def loop_find_def)
    ultimately show ?thesis using k f assms(2) by (auto simp: keeps_def sv_fd_def)
  next
    case False
    then show ?thesis using k sv' by simp
  qed
qed

text \<open>Answers close nothing.\<close>

lemma OnMessage_keeps: "server_OnMessage ctl d inloop t s = Some (Inr s') \<Longrightarrow> keeps H (tcp s) (tcp s')"
  by (auto simp: server_OnMessage_def bind_res_Inr dest: send_keeps split: prod.splits)

lemma OnMessage_both:
  "server_OnMessage ctl d inloop t s = Some (Inr s') \<Longrightarrow> workers s' = workers s \<and> keeps {} (tcp s) (tcp s')"
  using OnMessage_pool OnMessage_keeps by blast

lemma HandleMessage_keeps:
  assumes "server_HandleMessage ctl d (h, m) s = Some (Inr s')"
  shows "keeps H (tcp s) (tcp s') \<and> pool_conns s' \<subseteq> insert h (pool_conns s)"
proof (cases "pool_size (workers s) = 0")
  case True
  then obtain s1 where "server_OnMessage ctl d True (h, m) (s\<lparr>messages := messages s @ [(h, m)]\<rparr>) = Some (Inr s1)"
      "s' = s1\<lparr>workers := workers s\<rparr>"
    using assms by (auto simp: server_HandleMessage_def HandleMessage_def bind_res_Inr)
  with OnMessage_keeps [OF this(1), of H] show ?thesis by (auto simp: pool_conns_def)
next
  case False
  then have "s' = s\<lparr>messages := messages s @ [(h, m)], workers := addtask (h, m) (workers s)\<rparr>"
    using assms by (auto simp: server_HandleMessage_def HandleMessage_def)
  moreover have "in_work (addtask t p) = in_work p" "tp_queue (addtask t p) = tp_queue p @ [t]" for t p
    by (simp_all add: in_work_def addtask_def Let_def List.map_filter_def)
  ultimately show ?thesis by (auto simp: pool_conns_def keeps_refl)
qed

lemma handle_messages_keeps:
  "handle_messages ctl d h ms s = Some (Inr s') \<Longrightarrow>
     keeps {} (tcp s) (tcp s') \<and> pool_conns s' \<subseteq> insert h (pool_conns s)"
proof (induction ms arbitrary: s)
  case (Cons m ms)
  then obtain s1 where s1: "server_HandleMessage ctl d (h, m) s = Some (Inr s1)" "handle_messages ctl d h ms s1 = Some (Inr s')"
    by (auto split: option.splits sum.splits)
  from HandleMessage_keeps [OF s1(1), of "{}"] Cons.IH [OF s1(2)] show ?case using keeps_trans by blast
qed (auto simp: keeps_refl)

text \<open>The connection an event may close, and those it may give a task to.\<close>

fun closes :: "srv_event \<Rightarrow> nat set" where
  "closes (Readable h now rs) = {h}"
| "closes (ErrorEv h) = {h}"
| "closes e = {}"

lemma running_finish:
  assumes "at_phase is_running i p"
  shows "set_mset (running (tp_finish i p)) \<subseteq> set_mset (running p)"
proof -
  let ?q = "p\<lparr>idleThreadnum := idleThreadnum p + 1\<rparr>"
  have "at_phase is_running i ?q" using assms by (simp add: at_phase_def)
  note r = running_set_phase [OF this, of AtTest]
  have "running ?q = running p" by (rule running_cong) simp
  then have "running (tp_finish i p) \<subseteq># running p"
    using r unfolding tp_finish_def by (metis mset_subset_eq_add_left add.right_neutral option.simps(4) running_task.simps(2))
  then show ?thesis by (rule set_mset_mono)
qed

lemma step_keeps:
  assumes "srv_inv d w0 s" "srv_step ctl d e s = Some (Inr s')" "\<And>now fd. e \<noteq> Accept now fd" "\<And>i now. e \<noteq> Timer i now"
  shows "keeps (closes e) (tcp s) (tcp s') \<and> pool_conns s' \<subseteq> pool_conns s \<union> closes e"
proof (cases e)
  case (Readable h now rs)
  then obtain ms sv where r: "h < length (objs (tcp s))" "sv_read ctl now rs h (tcp s) = Some (Inr (ms, sv))"
      "handle_messages ctl d h ms (s\<lparr>tcp := sv\<rparr>) = Some (Inr s')"
    using assms(2) by (auto split: if_splits option.splits sum.splits)
  have "keeps {h} (tcp s) sv" by (rule read_keeps [OF srv_inv_sel(2) [OF assms(1)] r(1,2)])
  moreover have "keeps {} sv (tcp s')" "pool_conns s' \<subseteq> insert h (pool_conns s)"
    using handle_messages_keeps [OF r(3)] by (simp_all add: pool_conns_def)
  ultimately show ?thesis using keeps_trans by (auto simp: Readable)
next
  case (Move e')
  then obtain p where p: "pool_move e'" "tp_step e' (workers s) = Some (Inr p)" "s' = s\<lparr>workers := p\<rparr>"
    using assms(2) by (auto simp: bind_res_Inr split: if_splits)
  from running_move [OF p(2,1) srv_inv_sel(3) [OF assms(1)]] have "pool_conns s' = pool_conns s"
    by (simp add: pool_conns_alt p(3))
  then show ?thesis by (simp add: p(3) keeps_refl)
next
  case (Done i)
  then have at: "at_phase is_running i (workers s)" using assms(2) by (auto split: if_splits)
  have w: "workers s' = tp_finish i (workers s)" "keeps {} (tcp s) (tcp s')"
    using assms(2) Done keeps_refl
    by (auto simp: bind_res_Inr split: if_splits option.splits dest!: OnMessage_both)
  then have "pool_conns s' \<subseteq> pool_conns s"
    using running_finish [OF at] by (auto simp: pool_conns_alt tp_finish_def)
  with w(2) show ?thesis by (simp add: Done)
next
  case (LoopWake i)
  then show ?thesis using assms(2) by (auto simp: on_tcp_def bind_res_Inr pool_conns_def dest: wake_keeps split: if_splits)
next
  case (WritableEv h room)
  then show ?thesis using assms(2) by (auto simp: bind_res_Inr pool_conns_def dest: write_keeps split: if_splits)
next
  case (ErrorEv h)
  then show ?thesis using assms(2) by (auto simp: on_tcp_def bind_res_Inr pool_conns_def dest: error_keeps split: if_splits)
qed (use assms in \<open>auto simp: pool_conns_def split: if_splits\<close>)

section \<open>The invariant\<close>

text \<open>
  Nobody owns a destroyed connection, living ones have different descriptors, what is neither closed nor
  swept is in its loop's table, and the batch of a loop holds open connections of the loop, each once.
\<close>

definition owners_ok :: "('k, 'w) rpc_server \<Rightarrow> nat set \<Rightarrow> nat set \<Rightarrow> (nat \<Rightarrow> ready list) \<Rightarrow> bool" where
  "owners_ok s dead swept batch \<longleftrightarrow> (let sv = tcp s; n = length (objs (tcp s)) in
     (\<forall>h \<in> dead. h < n \<and> \<not> owned s h) \<and>
     (\<forall>h < n. \<forall>h' < n. h \<notin> dead \<and> h' \<notin> dead \<and> sv_fd h sv = sv_fd h' sv \<longrightarrow> h = h') \<and>
     (\<forall>h < n. \<not> closed sv h \<and> h \<notin> swept \<longrightarrow> loop_find sv (sv_fd h sv) = Some h) \<and>
     (\<forall>i. distinct (batch i) \<and> (\<forall>h. ConnCh h \<in> set (batch i) \<longrightarrow> h < n \<and> \<not> closed sv h \<and> loop_of sv h = i)))"

definition life_inv :: "'w app \<Rightarrow> 'w \<Rightarrow> ('k, 'w) live_server \<Rightarrow> bool" where
  "life_inv d w0 s \<longleftrightarrow> srv_inv d w0 (lv_server s) \<and>
     owners_ok (lv_server s) (lv_dead s) (lv_swept s) (lv_batch s) \<and>
     (\<forall>h < length (objs (lv_tcp s)). h \<notin> lv_dead s \<longrightarrow> owned (lv_server s) h)"

lemma life_inv_sel:
  assumes "life_inv d w0 s"
  shows "srv_inv d w0 (lv_server s)" "owners_ok (lv_server s) (lv_dead s) (lv_swept s) (lv_batch s)"
    "sv_inv (lv_tcp s)" "sv_ok (lv_tcp s)"
  using assms srv_inv_sel [of d w0 "lv_server s"] by (simp_all add: life_inv_def)

text \<open>Steps that do not add a connection, in terms of what they do to entries.\<close>

lemma owners_ok_step:
  assumes "owners_ok s dead swept batch" "sv_inv (tcp s)" "sv_inv (tcp s')"
    and len: "length (objs (tcp s')) = length (objs (tcp s))" "threadnum (tcp s') = threadnum (tcp s)"
    and fd: "\<And>h. h < length (objs (tcp s)) \<Longrightarrow> sv_fd h (tcp s') = sv_fd h (tcp s)"
    and find: "\<And>h. h < length (objs (tcp s)) \<Longrightarrow> loop_find (tcp s') (sv_fd h (tcp s)) = Some h \<Longrightarrow>
      loop_find (tcp s) (sv_fd h (tcp s)) = Some h"
    and stay: "\<And>h. h < length (objs (tcp s)) \<Longrightarrow> loop_find (tcp s) (sv_fd h (tcp s)) = Some h \<Longrightarrow>
      \<not> closed (tcp s') h \<Longrightarrow> h \<notin> swept' \<Longrightarrow> loop_find (tcp s') (sv_fd h (tcp s)) = Some h"
    and close: "\<And>h. h < length (objs (tcp s)) \<Longrightarrow> closed (tcp s) h \<Longrightarrow> closed (tcp s') h"
    and still: "\<And>h i. ConnCh h \<in> set (batch' i) \<Longrightarrow> \<not> closed (tcp s) h \<Longrightarrow> h < length (objs (tcp s)) \<Longrightarrow> \<not> closed (tcp s') h"
    and pool: "pool_conns s' \<subseteq> pool_conns s \<union> H" "H \<inter> dead = {}"
    and batch: "\<And>i. distinct (batch' i) \<and> set (batch' i) \<subseteq> set (batch i)" "swept \<subseteq> swept'"
  shows "owners_ok s' dead swept' batch'"
proof -
  let ?n = "length (objs (tcp s))"
  have D: "\<And>h. h \<in> dead \<Longrightarrow> h < ?n \<and> \<not> owned s h"
    and U: "\<And>h h'. h < ?n \<Longrightarrow> h' < ?n \<Longrightarrow> h \<notin> dead \<Longrightarrow> h' \<notin> dead \<Longrightarrow> sv_fd h (tcp s) = sv_fd h' (tcp s) \<Longrightarrow> h = h'"
    and T: "\<And>h. h < ?n \<Longrightarrow> \<not> closed (tcp s) h \<Longrightarrow> h \<notin> swept \<Longrightarrow> loop_find (tcp s) (sv_fd h (tcp s)) = Some h"
    and B: "\<And>i h. ConnCh h \<in> set (batch i) \<Longrightarrow> h < ?n \<and> \<not> closed (tcp s) h \<and> loop_of (tcp s) h = i"
    using assms(1) unfolding owners_ok_def Let_def by blast+
  have l: "loop_of (tcp s') h = loop_of (tcp s) h" if "h < ?n" for h
    using fd [OF that] len(2) by (simp add: loop_of_def)
  have 1: "h < ?n \<and> \<not> owned s' h" if "h \<in> dead" for h
  proof -
    note h = D [OF that]
    then have "loop_find (tcp s') (sv_fd h (tcp s)) \<noteq> Some h" "h \<notin> pool_conns s'"
      using find [of h] pool that by (auto simp: owned_iff [OF assms(2)])
    with h show ?thesis using fd [of h] by (simp add: owned_iff [OF assms(3)])
  qed
  have 2: "h = h'" if "h < ?n" "h' < ?n" "h \<notin> dead \<and> h' \<notin> dead \<and> sv_fd h (tcp s') = sv_fd h' (tcp s')" for h h'
    using that U [of h h'] fd [of h] fd [of h'] by simp
  have 3: "loop_find (tcp s') (sv_fd h (tcp s')) = Some h" if "h < ?n" "\<not> closed (tcp s') h \<and> h \<notin> swept'" for h
    using that T [of h] close [of h] stay [of h] fd [of h] batch(2) by auto
  have 4: "h < ?n \<and> \<not> closed (tcp s') h \<and> loop_of (tcp s') h = i" if "ConnCh h \<in> set (batch' i)" for i h
  proof -
    have "ConnCh h \<in> set (batch i)" using batch(1) that by blast
    then show ?thesis using B [of h i] still [OF that] l [of h] by simp
  qed
  show ?thesis unfolding owners_ok_def Let_def len(1) using 1 2 3 4 batch(1) by blast
qed

text \<open>Closing descriptors changes what the kernel watches and nothing else.\<close>

lemma sock_close_frame:
  "\<exists>ks. length ks = length (epolls sv) \<and> fold (sock_close ctl) hs sv = sv\<lparr>epolls := ks\<rparr>"
proof (induction hs arbitrary: sv)
  case Nil
  show ?case by (intro exI [of _ "epolls sv"]) simp
next
  case (Cons h hs)
  obtain ks where ks: "length ks = length (epolls sv)" "sock_close ctl h sv = sv\<lparr>epolls := ks\<rparr>"
  proof (cases "ctl CTL_DEL (sv_fd h sv) 0 (epolls sv ! loop_of sv h)")
    case None
    then show ?thesis by (intro that [of "epolls sv"]) (simp_all add: sock_close_def)
  next
    case (Some k)
    then show ?thesis by (intro that [of "(epolls sv)[loop_of sv h := k]"]) (simp_all add: sock_close_def)
  qed
  from Cons.IH [of "sv\<lparr>epolls := ks\<rparr>"] ks show ?case by auto
qed

lemma release_inv:
  assumes "srv_inv d w0 (lv_server s)" "owners_ok (lv_server s) (lv_dead s) (lv_swept s) (lv_batch s)"
  shows "life_inv d w0 (release ctl s)"
proof -
  let ?s = "lv_server s"
  let ?gone = "filter (\<lambda>h. h \<notin> lv_dead s \<and> \<not> owned ?s h) [0..<length (objs (tcp ?s))]"
  obtain ks where ks: "length ks = length (epolls (tcp ?s))" "fold (sock_close ctl) ?gone (tcp ?s) = (tcp ?s)\<lparr>epolls := ks\<rparr>"
    using sock_close_frame [of "tcp ?s" ctl ?gone] by blast
  let ?s' = "?s\<lparr>tcp := (tcp ?s)\<lparr>epolls := ks\<rparr>\<rparr>"
  have r: "release ctl s = s\<lparr>lv_server := ?s', lv_dead := lv_dead s \<union> set ?gone\<rparr>"
    unfolding release_def Let_def ks(2) ..
  have inv: "sv_inv (tcp ?s)" by (rule srv_inv_sel(2) [OF assms(1)])
  have "sv_inv (tcp ?s')" by (rule sv_inv_cong [OF inv]) (simp_all add: ks(1) sv_fd_def)
  moreover have "same_out (tcp ?s) (tcp ?s')" by (simp add: same_out_def queue_of_def out_of_def sv_fd_def)
  ultimately have 1: "srv_inv d w0 ?s'" by (intro same_out_inv [OF assms(1)]) simp
  have o: "owned ?s' = owned ?s" by (simp add: fun_eq_iff owned_def pool_conns_def)
  have e: "loop_find (tcp ?s') = loop_find (tcp ?s)" "sv_fd h (tcp ?s') = sv_fd h (tcp ?s)"
    "loop_of (tcp ?s') h = loop_of (tcp ?s) h" for h
    by (simp_all add: fun_eq_iff loop_find_def sv_fd_def loop_of_def)
  have "owners_ok ?s' (lv_dead s \<union> set ?gone) (lv_swept s) (lv_batch s)"
    using assms(2) unfolding owners_ok_def Let_def o e by auto
  then show ?thesis using 1 by (auto simp: life_inv_def r o)
qed

lemma done_with_batch:
  assumes "owners_ok s dead swept (lv_batch l)"
  shows "distinct (done_with e l i) \<and> set (done_with e l i) \<subseteq> set (lv_batch l i)"
proof -
  have "distinct (lv_batch l i)" using assms by (simp add: owners_ok_def Let_def)
  then show ?thesis
    by (cases "lv_batch l i") (auto simp: done_with_def split: option.splits)
qed

text \<open>A connection that is closed by its event is in no batch any more.\<close>

lemma closes_out:
  assumes "owners_ok (lv_server s) dead swept (lv_batch s)" "may_come e s" "h \<in> closes e"
  shows "ConnCh h \<notin> set (done_with e s i)"
proof -
  let ?i = "loop_of (lv_tcp s) h"
  have c: "channel_of (lv_tcp s) e = Some (?i, ConnCh h)" using assms(3) by (cases e) auto
  then have b: "lv_batch s ?i \<noteq> []" "hd (lv_batch s ?i) = ConnCh h" using assms(2,3) by (cases e; simp)+
  have d: "distinct (lv_batch s ?i)" "\<And>j. ConnCh h \<in> set (lv_batch s j) \<Longrightarrow> j = ?i"
    using assms(1) by (auto simp: owners_ok_def Let_def)
  show ?thesis
  proof (cases "i = ?i")
    case True
    then show ?thesis using b d(1) by (cases "lv_batch s ?i") (simp_all add: done_with_def c)
  next
    case False
    then show ?thesis using d(2) [of i] by (auto simp: done_with_def c)
  qed
qed

lemma accept_owners:
  assumes "owners_ok s dead swept batch" "sv_inv (tcp s)" "0 \<le> fd" "newconnction ctl now fd (tcp s) = Inr (h, sv)"
    and "\<forall>h < length (objs (tcp s)). h \<notin> dead \<longrightarrow> sv_fd h (tcp s) \<noteq> fd"
  shows "owners_ok (s\<lparr>tcp := sv\<rparr>) dead swept batch"
proof -
  let ?sv = "tcp s" and ?n = "length (objs (tcp s))" and ?s = "s\<lparr>tcp := sv\<rparr>"
  have th: "0 < threadnum ?sv" "length (subloops ?sv) = nat (threadnum ?sv)"
    using assms(2) by (simp_all add: sv_inv_def)
  obtain k c where kc: "new_connection ctl fd now (epolls ?sv ! nat (fd mod threadnum ?sv)) = Inr (k, c)"
    using assms(4) subloop_index_ok(1) [OF th assms(3)] by (auto simp: newconnction_def sv_construct_def bind_res_Inr)
  from sv_inv_newconnction [OF assms(2,3) kc] assms(4) have n: "sv_inv sv" "threadnum sv = threadnum ?sv"
    "objs sv = objs ?sv @ [\<lparr>sc_conn = c, sc_installed = 4\<rparr>]"
    "\<And>fd'. loop_find sv fd' = (if fd' = fd then Some ?n else loop_find ?sv fd')" by auto
  have fd: "sv_fd h sv = (if h = ?n then fd else sv_fd h ?sv)" "closed sv h = (if h = ?n then disconnect c else closed ?sv h)"
    if "h \<le> ?n" for h
    using that new_connection_fd [OF kc] by (auto simp: sv_fd_def n(3) nth_append)
  then have l: "loop_of sv h = loop_of ?sv h" if "h < ?n" for h
    using that n(2) by (simp add: loop_of_def)
  have D: "\<And>h. h \<in> dead \<Longrightarrow> h < ?n \<and> \<not> owned s h"
    and U: "\<And>h h'. h < ?n \<Longrightarrow> h' < ?n \<Longrightarrow> h \<notin> dead \<and> h' \<notin> dead \<and> sv_fd h ?sv = sv_fd h' ?sv \<Longrightarrow> h = h'"
    and T: "\<And>h. h < ?n \<Longrightarrow> \<not> closed ?sv h \<and> h \<notin> swept \<Longrightarrow> loop_find ?sv (sv_fd h ?sv) = Some h"
    and B: "\<And>i. distinct (batch i) \<and> (\<forall>h. ConnCh h \<in> set (batch i) \<longrightarrow> h < ?n \<and> \<not> closed ?sv h \<and> loop_of ?sv h = i)"
    using assms(1) unfolding owners_ok_def Let_def by blast+
  have p: "pool_conns ?s = pool_conns s" by (simp add: pool_conns_def)
  have 1: "h < Suc ?n \<and> \<not> owned ?s h" if "h \<in> dead" for h
    using D [OF that] fd [of h] n(1,4) owned_iff [OF assms(2)] p by (auto simp: owned_iff)
  have 2: "h = h'" if "h < Suc ?n" "h' < Suc ?n" "h \<notin> dead \<and> h' \<notin> dead \<and> sv_fd h sv = sv_fd h' sv" for h h'
    using that U [of h h'] fd(1) [of h] fd(1) [of h'] assms(5) by (auto simp: less_Suc_eq split: if_splits)
  have 3: "loop_find sv (sv_fd h sv) = Some h" if h: "h < Suc ?n" "\<not> closed sv h \<and> h \<notin> swept" for h
  proof (cases "h = ?n")
    case False
    then have h': "h < ?n" using h(1) by simp
    then have t: "loop_find ?sv (sv_fd h ?sv) = Some h" using T [of h] h(2) fd(2) [of h] False by simp
    then have "owned s h" by (simp add: owned_iff [OF assms(2)])
    then have "h \<notin> dead" using D by blast
    then show ?thesis using t assms(5) h' False by (simp add: fd(1) n(4))
  qed (simp add: fd(1) n(4))
  have 4: "distinct (batch i) \<and> (\<forall>h. ConnCh h \<in> set (batch i) \<longrightarrow> h < Suc ?n \<and> \<not> closed sv h \<and> loop_of sv h = i)" for i
    using B [of i] l fd(2) by auto
  have "length (objs sv) = Suc ?n" by (simp add: n(3))
  then show ?thesis unfolding owners_ok_def Let_def using 1 2 3 4 by simp
qed

lemma timer_owners:
  assumes "owners_ok s dead swept batch" "sv_inv (tcp s)" "i < length (subloops (tcp s))"
  shows "owners_ok (s\<lparr>tcp := sv_timer now i (tcp s)\<rparr>) dead (swept \<union> swept_by (Timer i now) (tcp s)) batch"
proof -
  let ?sv = "tcp s"
  have i: "i < nat (threadnum ?sv)" using assms(2,3) by (simp add: sv_inv_def)
  note t = sv_timer_objs [OF assms(2) i, of now] sv_timer_threads [OF assms(2) i, of now] sv_timer_inv [OF assms(2) i, of now]
    sv_timer_loop [OF assms(2) i, of now]
  have c: "sv_fd h (sv_timer now i ?sv) = sv_fd h ?sv" "closed (sv_timer now i ?sv) h = closed ?sv h" for h
    by (simp_all add: sv_fd_def t(1))
  have sw: "h \<in> swept_by (Timer i now) ?sv" if "loop_find ?sv fd = Some h" "nat (fd mod threadnum ?sv) = i" "sv_idle now i ?sv h" for h fd
  proof -
    have "smap_inv (el_conns (subloops ?sv ! i))" using assms(2) i by (simp add: sv_inv_def)
    from smap_find_mem [OF this, of h] that show ?thesis by (auto simp: loop_find_def)
  qed
  have b: "distinct (batch j) \<and> set (batch j) \<subseteq> set (batch j)" for j using assms(1) by (simp add: owners_ok_def Let_def)
  show ?thesis
    by (rule owners_ok_step [OF assms(1,2), where H = "{}"])
      (use t sw b in \<open>auto simp: c pool_conns_def split: option.splits if_splits\<close>)
qed

lemma may_come_channel:
  "may_come e s \<Longrightarrow> channel_of (lv_tcp s) e = Some (i, c) \<Longrightarrow> lv_batch s i \<noteq> [] \<and> hd (lv_batch s i) = c"
  by (cases e) auto

lemma life_step_inv:
  assumes "life_inv d w0 s" "life_step ctl d e s = Some (Inr s')"
  shows "life_inv d w0 s'"
proof (cases e)
  case (Poll i es)
  then have p: "distinct es" "\<forall>c \<in> set es. pollable s i c" and s': "s' = s\<lparr>lv_batch := (lv_batch s)(i := es)\<rparr>"
    using assms(2) by (auto split: if_splits)
  then show ?thesis using assms(1) by (fastforce simp: life_inv_def owners_ok_def Let_def pollable_def)
next
  case (Serve e)
  let ?s = "lv_server s"
  obtain s1 where m: "may_come e s" and live: "touched e ?s \<inter> lv_dead s = {}" and st: "srv_step ctl d e ?s = Some (Inr s1)"
    and s': "s' = release ctl (s\<lparr>lv_server := s1, lv_batch := done_with e s, lv_swept := lv_swept s \<union> swept_by e (lv_tcp s)\<rparr>)"
    using assms(2) Serve by (auto simp: bind_res_Inr split: if_splits)
  have inv: "srv_inv d w0 ?s" and o: "owners_ok ?s (lv_dead s) (lv_swept s) (lv_batch s)"
    using assms(1) by (simp_all add: life_inv_def)
  note inv1 = srv_step_inv [OF inv st] and b = done_with_batch [OF o, of e] and sv = srv_inv_sel(2) [OF inv]
  have o': "owners_ok ?s (lv_dead s) (lv_swept s) (done_with e s)"
    using b by (intro owners_ok_step [OF o sv sv, where H = "{}"]) auto
  have "owners_ok s1 (lv_dead s) (lv_swept s \<union> swept_by e (lv_tcp s)) (done_with e s)"
  proof (cases "(\<exists>now fd. e = Accept now fd) \<or> (\<exists>i now. e = Timer i now)")
    case False
    then have k: "keeps (closes e) (lv_tcp s) (tcp s1)" "pool_conns s1 \<subseteq> pool_conns ?s \<union> closes e"
      using step_keeps [OF inv st] by blast+
    have U: "h = h'" if "h < length (objs (lv_tcp s))" "h' < length (objs (lv_tcp s))" "h \<notin> lv_dead s" "h' \<notin> lv_dead s"
      "sv_fd h (lv_tcp s) = sv_fd h' (lv_tcp s)" for h h'
      using o that unfolding owners_ok_def Let_def by blast
    have alive: "h \<notin> lv_dead s" if "loop_find (lv_tcp s) (sv_fd h (lv_tcp s)) = Some h" for h
    proof -
      have "owned ?s h" using that by (simp add: owned_iff [OF sv])
      then show ?thesis using o by (auto simp: owners_ok_def Let_def)
    qed
    have cl: "closes e \<inter> lv_dead s = {}" using live by (cases e) auto
    show ?thesis
    proof (rule owners_ok_step [OF o sv srv_inv_sel(2) [OF inv1], where H = "closes e"])
      fix h assume h: "h < length (objs (lv_tcp s))" "loop_find (lv_tcp s) (sv_fd h (lv_tcp s)) = Some h" "\<not> closed (tcp s1) h"
      have "loop_find (tcp s1) (sv_fd h (lv_tcp s)) = loop_find (lv_tcp s) (sv_fd h (lv_tcp s)) \<or>
          (\<exists>h' \<in> closes e. h' < length (objs (lv_tcp s)) \<and> sv_fd h (lv_tcp s) = sv_fd h' (lv_tcp s) \<and> closed (tcp s1) h')"
        using k(1) unfolding keeps_def by blast
      then show "loop_find (tcp s1) (sv_fd h (lv_tcp s)) = Some h"
        using h U [of h] alive cl by auto
    next
      fix h i assume "ConnCh h \<in> set (done_with e s i)" "\<not> closed (lv_tcp s) h" "h < length (objs (lv_tcp s))"
      then show "\<not> closed (tcp s1) h" using k(1) closes_out [OF o m, of h i] by (auto simp: keeps_def)
    next
      fix h assume "h < length (objs (lv_tcp s))" "loop_find (tcp s1) (sv_fd h (lv_tcp s)) = Some h"
      then show "loop_find (lv_tcp s) (sv_fd h (lv_tcp s)) = Some h"
        using k(1) unfolding keeps_def by (metis option.distinct(1))
    qed (use k cl b in \<open>auto simp: keeps_def\<close>)
  next
    case True
    then show ?thesis
    proof (elim disjE exE)
      fix now fd assume e: "e = Accept now fd"
      then obtain h sv1 where "0 \<le> fd" "newconnction ctl now fd (lv_tcp s) = Inr (h, sv1)" "s1 = ?s\<lparr>tcp := sv1\<rparr>"
        using st by (auto simp: on_tcp_def bind_res_Inr split: if_splits)
      with accept_owners [OF o' sv this(1,2)] m show ?thesis by (simp add: e)
    next
      fix i now assume e: "e = Timer i now"
      then have "i < length (subloops (lv_tcp s))" "s1 = ?s\<lparr>tcp := sv_timer now i (lv_tcp s)\<rparr>"
        using st by (auto split: if_splits)
      with timer_owners [OF o' sv this(1), of now] show ?thesis by (simp add: e)
    qed
  qed
  then show ?thesis unfolding s' by (intro release_inv) (simp_all add: inv1)
qed

lemma life_run_inv:
  "life_run ctl d es s = Some (Inr s') \<Longrightarrow> life_inv d w0 s \<Longrightarrow> life_inv d w0 s'"
proof (induction es arbitrary: s)
  case (Cons e es)
  then obtain s1 where 1: "life_step ctl d e s = Some (Inr s1)" "life_run ctl d es s1 = Some (Inr s')"
    by (auto split: option.splits sum.splits)
  from Cons.IH [OF 1(2) life_step_inv [OF Cons.prems(2) 1(1)]] show ?case .
qed simp

lemma life_inv_new: "0 < io \<Longrightarrow> life_inv d w (new_live (new_rpc_server io m mx ks w))"
  using srv_inv_new [where d = d and io = io and m = m and mx = mx and ks = ks and w = w]
  by (simp add: life_inv_def new_live_def owners_ok_def rpc_server_over_def new_tcpserver_def)

section \<open>Properties\<close>

lemma dead_cause:
  assumes "life_inv d w0 s" "h \<in> lv_dead s"
  shows "\<not> owned (lv_server s) h" "closed (lv_tcp s) h \<or> h \<in> lv_swept s"
proof -
  have o: "owners_ok (lv_server s) (lv_dead s) (lv_swept s) (lv_batch s)" and sv: "sv_inv (lv_tcp s)"
    by (rule life_inv_sel [OF assms(1)])+
  show n: "\<not> owned (lv_server s) h" using o assms(2) by (simp add: owners_ok_def Let_def)
  then have "loop_find (lv_tcp s) (sv_fd h (lv_tcp s)) \<noteq> Some h" by (simp add: owned_iff [OF sv])
  then show "closed (lv_tcp s) h \<or> h \<in> lv_swept s"
    using o assms(2) unfolding owners_ok_def Let_def by blast
qed

text \<open>
  C8. Lifetime of connections, in every history of a server: a connection is destroyed exactly when no table and
  no task of the pool has it; so one that is neither closed nor swept by a timer exists. Workers and
  timers never use a destroyed connection. A loop that uses one does so in one of two ways: it handles a channel from a batch
  that \<open>epoll_wait\<close> returned before the timer swept the connection, or it runs a queued \<open>sendinloop\<close> of a
  connection that was closed or swept after the worker had queued it.
\<close>

theorem connection_lifetime:
  assumes "life_run ctl d es (new_live (new_rpc_server io m mx ks w)) = Some (Inr s)" "0 < io"
  shows "(\<forall>h < length (objs (lv_tcp s)). (h \<in> lv_dead s \<longleftrightarrow> \<not> owned (lv_server s) h) \<and>
      (\<not> closed (lv_tcp s) h \<and> h \<notin> lv_swept s \<longrightarrow> h \<notin> lv_dead s)) \<and>
    (\<forall>e h. may_come e s \<and> h \<in> touched e (lv_server s) \<and> h \<in> lv_dead s \<longrightarrow>
      (\<exists>i. channel_of (lv_tcp s) e = Some (i, ConnCh h) \<and> h \<in> lv_swept s) \<or>
      (\<exists>i data. e = LoopWake i \<and> (h, data) \<in> set (queue_of (lv_tcp s) i) \<and> (closed (lv_tcp s) h \<or> h \<in> lv_swept s)))"
proof -
  have inv: "life_inv d w s" by (rule life_run_inv [OF assms(1) life_inv_new [OF assms(2)]])
  note o = life_inv_sel(2) [OF inv]
  note dead = dead_cause [OF inv]
  have 1: "h \<in> lv_dead s \<longleftrightarrow> \<not> owned (lv_server s) h" if "h < length (objs (lv_tcp s))" for h
    using inv dead that by (auto simp: life_inv_def)
  have 2: "(\<exists>i. channel_of (lv_tcp s) e = Some (i, ConnCh h) \<and> h \<in> lv_swept s) \<or>
      (\<exists>i data. e = LoopWake i \<and> (h, data) \<in> set (queue_of (lv_tcp s) i) \<and> (closed (lv_tcp s) h \<or> h \<in> lv_swept s))"
    if e: "may_come e s" "h \<in> touched e (lv_server s)" "h \<in> lv_dead s" for e h
  proof -
    have chan: ?thesis if c: "channel_of (lv_tcp s) e = Some (loop_of (lv_tcp s) h, ConnCh h)"
    proof -
      have "ConnCh h \<in> set (lv_batch s (loop_of (lv_tcp s) h))"
        using may_come_channel [OF e(1) c] list.set_sel(1) by metis
      then have "\<not> closed (lv_tcp s) h" using o by (simp add: owners_ok_def Let_def)
      then show ?thesis using c dead(2) [OF e(3)] by blast
    qed
    have table: False if "i < length (subloops (lv_tcp s))" "h \<in> snd ` set (el_conns (subloops (lv_tcp s) ! i))" for i
      using that dead(1) [OF e(3)] unfolding owned_def by (metis nth_mem)
    have task: False if r: "at_phase is_running i (workers (lv_server s))"
      "h \<in> fst ` set_option (running_task (tp_threads (workers (lv_server s)) ! i))" for i
    proof -
      obtain t where t: "running_task (tp_threads (workers (lv_server s)) ! i) = Some t" "fst t = h" using r(2) by auto
      have "t \<in># running (workers (lv_server s))"
        using running_set_phase [OF r(1), of AtTest] t(1)
        by simp (metis union_iff union_single_eq_member add.commute)
      then have "h \<in> pool_conns (lv_server s)" using t(2) by (auto simp: pool_conns_alt)
      then show False using dead(1) [OF e(3)] by (simp add: owned_def)
    qed
    show ?thesis
    proof (cases e)
      case (LoopWake i)
      then show ?thesis using e(2) dead(2) [OF e(3)] by (fastforce split: if_splits)
    next
      case (Timer i now)
      then show ?thesis using e(2) table by (auto split: if_splits)
    next
      case (Done i)
      then show ?thesis using e(2) task by (auto split: if_splits)
    qed (use e(2) chan in auto)
  qed
  have 3: "h \<notin> lv_dead s" if "\<not> closed (lv_tcp s) h \<and> h \<notin> lv_swept s" for h
    using that dead(2) [of h] by blast
  from 1 2 3 show ?thesis by blast
qed

text \<open>An echo server with one loop and one worker reads a message, the worker queues the reply, the client hangs up.\<close>

definition sample_live :: "(int \<Rightarrow> 32 word option, unit) live_server" where
  "sample_live = new_live (new_rpc_server 1 1 0 (\<lambda>_ _. None) ())"

definition reply_queued :: "life_event list" where
  "reply_queued = [Serve (Accept 0 8), Poll 0 [ConnCh 0], Serve (Readable 0 1 [Recv ''hi'', RecvErr EAGAIN]),
     Serve (Move (Test 0)), Serve (Move (WakeUp 0)), Serve (Done 0), Poll 0 [ConnCh 0, WakeCh]]"

lemma hung_up:
  "\<exists>s s1. life_run list_ctl echo_answer reply_queued sample_live = Some (Inr s) \<and>
     life_step list_ctl echo_answer (Serve (Readable 0 2 [Recv []])) s = Some (Inr s1) \<and> closed (lv_tcp s1) 0 \<and>
     0 \<notin> pool_conns (lv_server s) \<and> (0, ''reply:hi'') \<in> set (queue_of (lv_tcp s) 0) \<and>
     0 < length (subloops (lv_tcp s)) \<and> lv_batch s1 0 = [WakeCh] \<and> 0 \<in> lv_dead s1 \<and> 0 < length (objs (lv_tcp s1)) \<and>
     life_run list_ctl echo_answer (reply_queued @ [Serve (Readable 0 2 [Recv []])]) sample_live = Some (Inr s1)"
proof -
  have "case life_run list_ctl echo_answer reply_queued sample_live of None \<Rightarrow> False | Some (Inl _) \<Rightarrow> False | Some (Inr s) \<Rightarrow>
     (case life_step list_ctl echo_answer (Serve (Readable 0 2 [Recv []])) s of None \<Rightarrow> False | Some (Inl _) \<Rightarrow> False | Some (Inr s1) \<Rightarrow>
     closed (lv_tcp s1) 0 \<and> 0 \<notin> pool_conns (lv_server s) \<and> (0, ''reply:hi'') \<in> set (queue_of (lv_tcp s) 0) \<and>
     0 < length (subloops (lv_tcp s)) \<and> lv_batch s1 0 = [WakeCh] \<and> 0 \<in> lv_dead s1 \<and> 0 < length (objs (lv_tcp s1)))"
    by code_simp
  then obtain s s1 where "life_run list_ctl echo_answer reply_queued sample_live = Some (Inr s)"
    "life_step list_ctl echo_answer (Serve (Readable 0 2 [Recv []])) s = Some (Inr s1)" "closed (lv_tcp s1) 0"
    "0 \<notin> pool_conns (lv_server s)" "(0, ''reply:hi'') \<in> set (queue_of (lv_tcp s) 0)"
    "0 < length (subloops (lv_tcp s))" "lv_batch s1 0 = [WakeCh]" "0 \<in> lv_dead s1" "0 < length (objs (lv_tcp s1))"
    unfolding case_Some_Inr by blast
  moreover from this have "life_run list_ctl echo_answer (reply_queued @ [Serve (Readable 0 2 [Recv []])]) sample_live = Some (Inr s1)"
    by (simp add: life_run_append)
  ultimately show ?thesis by blast
qed

theorem connection_lifetime_witness:
  "\<exists>s. life_run list_ctl echo_answer (reply_queued @ [Serve (Readable 0 2 [Recv []])]) sample_live = Some (Inr s) \<and>
     0 \<in> lv_dead s \<and> \<not> owned (lv_server s) 0 \<and> closed (lv_tcp s) 0"
proof -
  obtain s where s: "life_run list_ctl echo_answer (reply_queued @ [Serve (Readable 0 2 [Recv []])]) sample_live = Some (Inr s)"
    "0 \<in> lv_dead s" "0 < length (objs (lv_tcp s))" "closed (lv_tcp s) 0"
    using hung_up by blast
  from connection_lifetime [OF s(1) [unfolded sample_live_def]] s show ?thesis by auto
qed

text \<open>A read that closes its connection takes it out of its loop's table and delivers nothing.\<close>

lemma onmessage_closed:
  "onmessagecallback ctl now rs kc = Some (Inr (PeerClosed, msgs, k', c')) \<Longrightarrow> msgs = []"
proof (induction ctl now rs kc rule: onmessagecallback.induct)
  case (2 ctl now d rs k c)
  then show ?case by (auto simp: bind_res_Inr split: if_splits)
qed (auto simp: bind_res_Inr)

lemma read_closed:
  assumes "sv_inv sv" "h < length (objs sv)" "sv_read ctl now rs h sv = Some (Inr (ms, sv'))" "\<not> closed sv h" "closed sv' h"
  shows "ms = [] \<and> loop_find sv' (sv_fd h sv') = None"
proof -
  obtain i e k c where r: "onmessagecallback ctl now rs (epolls sv ! i, sc_conn (objs sv ! h)) = Some (Inr (e, ms, k, c))"
    and sv': "sv' = sv_put i h (k, c) sv \<and> e \<noteq> PeerClosed \<or>
      sv_closeconnection h (sv_put i h (k, c) sv) = Inr sv' \<and> e = PeerClosed"
    using assms(3) by (auto simp: sv_read_def Let_def bind_res_Inr sv_put_def split: if_splits sum.splits)
  note c = onmessage_same [OF r]
  let ?sv = "sv_put i h (k, c) sv"
  have "e = PeerClosed"
    using c sv' assms(2,4,5) by (auto simp: sv_put_def)
  then have e: "e = PeerClosed" "sv_closeconnection h ?sv = Inr sv'" using sv' by simp_all
  have "c_fd c = sv_fd h sv" using c by (simp add: sv_fd_def)
  then have inv: "sv_inv ?sv" using sv_inv_objs(1) [OF assms(1), of "(epolls sv)[i := k]" c h] by (simp add: sv_put_def)
  have "h < length (objs ?sv)" using assms(2) by simp
  from sv_inv_close [OF inv this] e(2) have "objs sv' = objs ?sv" "loop_find sv' (sv_fd h ?sv) = None" by auto
  then show ?thesis using onmessage_closed [OF r [unfolded e(1)]] by (simp add: sv_fd_def)
qed

text \<open>
  C39. A reply in the queue of its loop does not keep its connection alive: when the peer hangs up after the
  worker has queued the last reply and the same batch goes on to the wake-up, the connection is destroyed at once, and
  the wake-up calls \<open>sendinloop\<close> on the destroyed object.
\<close>

theorem queued_reply_dangles:
  assumes "life_run ctl d es (new_live (new_rpc_server io m mx ks w)) = Some (Inr s)" "0 < io"
    and "life_step ctl d (Serve (Readable h now rs)) s = Some (Inr s1)" "closed (lv_tcp s1) h"
    and "h \<notin> pool_conns (lv_server s)" "(h, data) \<in> set (queue_of (lv_tcp s) i)" "i < length (subloops (lv_tcp s))"
    and "lv_batch s1 i = WakeCh # cs"
  shows "h \<in> lv_dead s1 \<and> life_step ctl d (Serve (LoopWake i)) s1 = Some (Inl UseAfterFree)"
proof -
  have inv: "life_inv d w s" by (rule life_run_inv [OF assms(1) life_inv_new [OF assms(2)]])
  then have inv1: "life_inv d w s1" by (rule life_step_inv [OF _ assms(3)])
  have o: "owners_ok (lv_server s) (lv_dead s) (lv_swept s) (lv_batch s)" and sv: "sv_inv (lv_tcp s)" and ok: "sv_ok (lv_tcp s)"
    by (rule life_inv_sel [OF inv])+
  let ?e = "Readable h now rs"
  obtain s2 where m: "may_come ?e s" and st: "srv_step ctl d ?e (lv_server s) = Some (Inr s2)"
    and s1: "s1 = release ctl (s\<lparr>lv_server := s2, lv_batch := done_with ?e s, lv_swept := lv_swept s \<union> swept_by ?e (lv_tcp s)\<rparr>)"
    using assms(3) by (auto simp: bind_res_Inr split: if_splits)
  have "ConnCh h \<in> set (lv_batch s (loop_of (lv_tcp s) h))"
    using m by simp (metis list.set_sel(1))
  then have up: "\<not> closed (lv_tcp s) h" using o by (simp add: owners_ok_def Let_def)
  obtain ms sv1 where r: "h < length (objs (lv_tcp s))" "sv_read ctl now rs h (lv_tcp s) = Some (Inr (ms, sv1))"
      "handle_messages ctl d h ms ((lv_server s)\<lparr>tcp := sv1\<rparr>) = Some (Inr s2)"
    using st by (auto split: if_splits option.splits sum.splits)
  note same = read_ok [OF ok r(1,2)]
  let ?gone = "filter (\<lambda>h. h \<notin> lv_dead s \<and> \<not> owned s2 h) [0..<length (objs (tcp s2))]"
  obtain ks where ks: "fold (sock_close ctl) ?gone (tcp s2) = (tcp s2)\<lparr>epolls := ks\<rparr>"
    using sock_close_frame by blast
  have t1: "lv_server s1 = s2\<lparr>tcp := (tcp s2)\<lparr>epolls := ks\<rparr>\<rparr>" by (simp add: s1 release_def Let_def ks)
  have h: "h < length (objs sv1)" using same r(1) by (simp add: same_out_def)
  have "keeps {} sv1 (tcp s2)" using handle_messages_keeps [OF r(3)] by simp
  then have "closed sv1 h" using assms(4) h by (simp add: t1 keeps_def)
  from read_closed [OF sv r(1,2) up this] have ms: "ms = []" "loop_find sv1 (sv_fd h sv1) = None" by simp_all
  have s2: "s2 = (lv_server s)\<lparr>tcp := sv1\<rparr>" using r(3) by (simp add: ms(1))
  have sv1: "sv_inv (lv_tcp s1)" by (rule life_inv_sel(3) [OF inv1])
  have "loop_find (lv_tcp s1) (sv_fd h (lv_tcp s1)) \<noteq> Some h" "h \<notin> pool_conns (lv_server s1)"
    using ms(2) assms(5) by (simp_all add: t1 s2 loop_find_def sv_fd_def pool_conns_def)
  then have "\<not> owned (lv_server s1) h" by (simp add: owned_iff [OF sv1])
  then have dead: "h \<in> lv_dead s1" using inv1 h by (auto simp: life_inv_def t1 s2)
  have "queue_of (lv_tcp s1) i = queue_of (lv_tcp s) i" "length (subloops (lv_tcp s1)) = length (subloops (lv_tcp s))"
    using same assms(7) by (simp_all add: t1 s2 same_out_def queue_of_def)
  then have "h \<in> touched (LoopWake i) (lv_server s1)" using assms(6,7) by force
  then show ?thesis using dead assms(8) by (auto simp del: touched.simps)
qed

theorem queued_reply_dangles_witness:
  "life_run list_ctl echo_answer (reply_queued @ [Serve (Readable 0 2 [Recv []]), Serve (LoopWake 0)]) sample_live =
     Some (Inl UseAfterFree)"
proof -
  obtain s s1 where s: "life_run list_ctl echo_answer reply_queued sample_live = Some (Inr s)"
    "life_step list_ctl echo_answer (Serve (Readable 0 2 [Recv []])) s = Some (Inr s1)" "closed (lv_tcp s1) 0"
    "0 \<notin> pool_conns (lv_server s)" "(0, ''reply:hi'') \<in> set (queue_of (lv_tcp s) 0)"
    "0 < length (subloops (lv_tcp s))" "lv_batch s1 0 = [WakeCh]"
    using hung_up by blast
  from queued_reply_dangles [OF s(1) [unfolded sample_live_def] _ s(2-7)] s(1,2) show ?thesis
    by (simp add: life_run_append del: life_step.simps)
qed

text \<open>
  The other way: the timer comes before the channel of a connection it sweeps in the same batch.
\<close>

lemma swept_channel_dangles:
  "life_run list_ctl echo_answer [Serve (Accept 0 7), Poll 0 [TimerCh, ConnCh 0], Serve (Timer 0 61),
     Serve (Readable 0 61 [Recv ''hi'', RecvErr EAGAIN])] sample_live = Some (Inl UseAfterFree)"
proof -
  have "case life_run list_ctl echo_answer [Serve (Accept 0 7), Poll 0 [TimerCh, ConnCh 0], Serve (Timer 0 61),
     Serve (Readable 0 61 [Recv ''hi'', RecvErr EAGAIN])] sample_live of Some (Inl f) \<Rightarrow> f = UseAfterFree | _ \<Rightarrow> False"
    by code_simp
  then show ?thesis by (rule case_fault)
qed

section \<open>Undisturbed servers\<close>

fun served :: "life_event list \<Rightarrow> srv_event list" where
  "served [] = []"
| "served (Poll i cs # es) = served es"
| "served (Serve e # es) = e # served es"

text \<open>While nothing is closed or swept nothing dies, and the server is the one of \<open>ServerRun\<close>.\<close>

lemma none_dead:
  assumes "life_inv d w0 s" "srv_open watched own (lv_server s)" "lv_swept s = {}"
  shows "lv_dead s = {}"
proof -
  have "h < length (objs (lv_tcp s))" if "h \<in> lv_dead s" for h
    using life_inv_sel(2) [OF assms(1)] that by (simp add: owners_ok_def Let_def)
  then show ?thesis
    using dead_cause(2) [OF assms(1)] assms(2,3) open_sel(6) by (fastforce simp: srv_open_def)
qed

lemma release_none:
  assumes "lv_dead (release ctl s) = {}"
  shows "release ctl s = s"
proof -
  let ?gone = "filter (\<lambda>h. h \<notin> lv_dead s \<and> \<not> owned (lv_server s) h) [0..<length (objs (lv_tcp s))]"
  have "lv_dead (release ctl s) = lv_dead s \<union> set ?gone" by (simp add: release_def Let_def)
  then have "lv_dead s \<union> set ?gone = {}" by (simp only: assms)
  then have g: "?gone = []" unfolding Un_empty set_empty by (rule conjunct2)
  have "release ctl s = s\<lparr>lv_server := (lv_server s)\<lparr>tcp := fold (sock_close ctl) ?gone (lv_tcp s)\<rparr>,
      lv_dead := lv_dead s \<union> set ?gone\<rparr>"
    unfolding release_def Let_def ..
  then show ?thesis unfolding g by simp
qed

lemma new_live_sels: "lv_server (new_live s) = s" "lv_swept (new_live s) = {}"
  by (simp_all add: new_live_def)

lemma undisturbed_life:
  assumes "epoll_ctl_spec ctl watched" "life_inv d w0 s" "srv_open watched own (lv_server s)" "lv_swept s = {}"
    and "undisturbed_run own ctl d (served es) (lv_server s)" "life_run ctl d es s = Some r"
  shows "case r of Inl f \<Rightarrow> \<exists>message w. d message w = Some (Inl f)
    | Inr s' \<Rightarrow> srv_run ctl d (served es) (lv_server s) = Some (Inr (lv_server s')) \<and> lv_dead s' = {}"
  using assms(2-)
proof (induction es arbitrary: s)
  case Nil
  then show ?case using none_dead [OF Nil(1-3)] by auto
next
  case (Cons e es)
  show ?case
  proof (cases e)
    case (Poll i cs)
    then obtain s1 where s1: "life_step ctl d e s = Some (Inr s1)" "s1 = s\<lparr>lv_batch := (lv_batch s)(i := cs)\<rparr>" "life_run ctl d es s1 = Some r"
      using Cons.prems(5) by (auto split: if_splits)
    from Cons.IH [OF life_step_inv [OF Cons.prems(1) s1(1)] _ _ _ s1(3)] show ?thesis
      using Cons.prems(1-4) s1(2) Poll by (simp split: sum.splits)
  next
    case (Serve e')
    have dead: "lv_dead s = {}" by (rule none_dead [OF Cons.prems(1-3)])
    have u: "undisturbed own e' (lv_server s)" using Cons.prems(4) Serve by simp
    obtain r1 where r1: "srv_step ctl d e' (lv_server s) = Some r1"
      using Cons.prems(5) Serve dead by (auto split: if_splits option.splits)
    note o = step_open [OF assms(1) Cons.prems(2) life_inv_sel(1) [OF Cons.prems(1)] u r1]
    show ?thesis
    proof (cases r1)
      case (Inl f)
      then have "r = Inl f" using Cons.prems(5) Serve dead r1 by (auto split: if_splits)
      then show ?thesis using o Inl by simp
    next
      case (Inr t)
      let ?m = "s\<lparr>lv_server := t, lv_batch := done_with e' s, lv_swept := lv_swept s \<union> swept_by e' (lv_tcp s)\<rparr>"
      have st: "life_step ctl d e s = Some (Inr (release ctl ?m))"
        and rest: "life_run ctl d es (release ctl ?m) = Some r"
        using Cons.prems(5) Serve dead r1 Inr by (auto split: if_splits)
      have sw: "swept_by e' (lv_tcp s) = {}" using u by (cases e') auto
      have t: "srv_open watched own t" using o Inr by simp
      note inv = life_step_inv [OF Cons.prems(1) st]
      let ?gone = "filter (\<lambda>h. h \<notin> lv_dead s \<and> \<not> owned t h) [0..<length (objs (tcp t))]"
      obtain ks' where "fold (sock_close ctl) ?gone (tcp t) = (tcp t)\<lparr>epolls := ks'\<rparr>" using sock_close_frame by blast
      then obtain ks where ks: "lv_server (release ctl ?m) = t\<lparr>tcp := (tcp t)\<lparr>epolls := ks\<rparr>\<rparr>" "lv_swept (release ctl ?m) = {}"
        using Cons.prems(3) sw by (auto simp: release_def Let_def)
      have "h < length (objs (tcp t))" if "h \<in> lv_dead (release ctl ?m)" for h
        using life_inv_sel(2) [OF inv] that ks(1) by (simp add: owners_ok_def Let_def)
      moreover have "\<not> closed (tcp t) h" if "h < length (objs (tcp t))" for h
        using t that open_sel(6) by (auto simp: srv_open_def)
      ultimately have "lv_dead (release ctl ?m) = {}"
        using dead_cause(2) [OF inv] by (auto simp: ks)
      then have rel: "release ctl ?m = ?m" by (rule release_none)
      have "undisturbed_run own ctl d (served es) (lv_server ?m)" using Cons.prems(4) Serve r1 Inr by simp
      moreover have "srv_open watched own (lv_server ?m)" "lv_swept ?m = {}" using t sw Cons.prems(3) by simp_all
      ultimately show ?thesis
        using Cons.IH [OF inv [unfolded rel] _ _ _ rest [unfolded rel]] r1 Inr Serve by (simp split: sum.splits)
    qed
  qed
qed

text \<open>
  C9. While nobody disturbs the server no object dies under a pointer: whatever batches \<open>epoll_wait\<close> returns and
  however they are interleaved with the workers, the only faults are those of decoder, methods and encoder, no connection is
  destroyed, and the state is the one \<open>ServerRun\<close>, which knows no lifetimes, gives for the same events.
\<close>

theorem undisturbed_lifetime:
  assumes "epoll_ctl_spec ctl watched" "loops_own watched io ks own" "0 < io"
    and "undisturbed_run own ctl d (served es) (new_rpc_server io m mx ks w)"
    and "life_run ctl d es (new_live (new_rpc_server io m mx ks w)) = Some r"
  shows "case r of Inl f \<Rightarrow> \<exists>message w. d message w = Some (Inl f)
    | Inr s \<Rightarrow> srv_run ctl d (served es) (new_rpc_server io m mx ks w) = Some (Inr (lv_server s)) \<and> lv_dead s = {}"
  by (rule undisturbed_life [OF assms(1) life_inv_new [OF assms(3)], unfolded new_live_sels,
        OF srv_open_new [OF assms(2)] refl assms(4,5)])

lemma undisturbed_run_always:
  "(\<And>e s. e \<in> set es \<Longrightarrow> undisturbed own e (s :: ('k, 'w) rpc_server)) \<Longrightarrow> undisturbed_run own ctl d es (s :: ('k, 'w) rpc_server)"
proof (induction es arbitrary: s)
  case (Cons e es)
  then have "undisturbed own e s" "undisturbed_run own ctl d es s" for s by simp_all
  then show ?case by (simp split: option.splits sum.splits)
qed simp

text \<open>The echo server again, up to the moment before the client hangs up.\<close>

theorem undisturbed_lifetime_witness:
  "\<exists>s. life_run list_ctl echo_answer reply_queued (new_live (new_rpc_server 2 1 0 loop_kernels ())) = Some (Inr s) \<and>
     srv_run list_ctl echo_answer (served reply_queued) (new_rpc_server 2 1 0 loop_kernels ()) = Some (Inr (lv_server s)) \<and>
     lv_dead s = {}"
proof -
  have "case life_run list_ctl echo_answer reply_queued (new_live (new_rpc_server 2 1 0 loop_kernels ())) of
      None \<Rightarrow> False | Some (Inl _) \<Rightarrow> False | Some (Inr s) \<Rightarrow> True"
    by code_simp
  then obtain s where s: "life_run list_ctl echo_answer reply_queued (new_live (new_rpc_server 2 1 0 loop_kernels ())) = Some (Inr s)"
    unfolding case_Some_Inr by blast
  let ?new = "new_rpc_server 2 1 0 loop_kernels () :: (int \<Rightarrow> 32 word option, unit) rpc_server"
  have e: "served reply_queued = Accept 0 8 # tl (served reply_queued)" by (simp add: reply_queued_def)
  have "undisturbed {3..6} (Accept 0 8) ?new" by (simp add: fresh_fd_def rpc_server_over_def new_tcpserver_def)
  moreover have a: "undisturbed {3..6} e s" if "e \<in> set (tl (served reply_queued))" for e and s :: "(int \<Rightarrow> 32 word option, unit) rpc_server"
    using that by (auto simp: reply_queued_def receiving_def)
  have "undisturbed_run {3..6} list_ctl echo_answer (tl (served reply_queued)) s"
    for s :: "(int \<Rightarrow> 32 word option, unit) rpc_server"
    by (rule undisturbed_run_always) (rule a)
  ultimately have "undisturbed_run {3..6} list_ctl echo_answer (served reply_queued) ?new"
    by (subst e) (simp del: srv_step.simps split: option.splits sum.splits)
  from undisturbed_lifetime [OF list_ctl_spec loop_kernels_own _ this s] s show ?thesis by auto
qed

end
