(* ===== verification/Simulation.thy ===== *)
theory Simulation
  imports RunDown
begin

text \<open>
  Forward simulation: what is asked of a detailed transition system that implements a specification. One
  step of the detailed system may be any number of steps of the specification.
\<close>

locale simulation =
  fixes step :: "'e \<Rightarrow> 'c \<Rightarrow> 'c option"
    and inv :: "'c \<Rightarrow> bool"
    and abs :: "'c \<Rightarrow> 'a"
    and spec :: "'a \<Rightarrow> 'a \<Rightarrow> bool"
  assumes keeps_inv: "inv c \<Longrightarrow> step e c = Some c' \<Longrightarrow> inv c'"
    and simulates: "inv c \<Longrightarrow> step e c = Some c' \<Longrightarrow> spec\<^sup>*\<^sup>* (abs c) (abs c')"
begin

lemma run_simulates: "inv c \<Longrightarrow> steps step es c = Some c' \<Longrightarrow> inv c' \<and> spec\<^sup>*\<^sup>* (abs c) (abs c')"
proof (induction es arbitrary: c)
  case (Cons e es)
  then obtain c1 where 1: "step e c = Some c1" "steps step es c1 = Some c'"
    by (auto split: option.splits)
  from Cons.IH [OF keeps_inv [OF Cons.prems(1) 1(1)] 1(2)] simulates [OF Cons.prems(1) 1(1)] show ?case
    by (auto intro: rtranclp_trans)
qed simp

end

text \<open>What every step of the specification keeps holds of the detailed system.\<close>

locale safe_simulation = simulation step inv abs spec
  for step :: "'e \<Rightarrow> 'c \<Rightarrow> 'c option" and inv :: "'c \<Rightarrow> bool" and abs :: "'c \<Rightarrow> 'a" and spec :: "'a \<Rightarrow> 'a \<Rightarrow> bool" +
  fixes good :: "'a \<Rightarrow> bool"
  assumes good_step: "good a \<Longrightarrow> spec a a' \<Longrightarrow> good a'"
begin

lemma good_steps: "spec\<^sup>*\<^sup>* a a' \<Longrightarrow> good a \<Longrightarrow> good a'"
  by (induction rule: rtranclp_induct) (auto intro: good_step)

lemma run_good: "inv c \<Longrightarrow> steps step es c = Some c' \<Longrightarrow> good (abs c) \<Longrightarrow> good (abs c')"
  using run_simulates good_steps by blast

end

end
