(* ===== verification/Service.thy ===== *)
theory Service
  imports Lifetime Simulation
begin

text \<open>
  What the running server promises, without loops, queues, buffers and workers: an abstract service, and
  the proof that every run of the server is a run of it.
\<close>

section \<open>The service\<close>

text \<open>
  \<open>sp_todo\<close> are the messages read and not answered, \<open>sp_owed\<close> what was answered and is not written,
  \<open>sp_got\<close> what has gone out, \<open>sp_asked\<close> the connections a message has come from.
\<close>

record 'w service =
  sp_conns :: nat
  sp_closed :: "nat set"
  sp_asked :: "nat set"
  sp_todo :: "task multiset"
  sp_owed :: "nat \<Rightarrow> string"
  sp_got :: "nat \<Rightarrow> string"
  sp_world :: 'w

definition new_service :: "'w \<Rightarrow> 'w service" where
  "new_service w = \<lparr>sp_conns = 0, sp_closed = {}, sp_asked = {}, sp_todo = {#}, sp_owed = (\<lambda>_. []),
     sp_got = (\<lambda>_. []), sp_world = w\<rparr>"

text \<open>
  A client connects or hangs up; a message comes; some message is answered, the answer going to its own connection
  unless that is closed; some of what is owed goes out, in order.
\<close>

inductive service_step :: "'w app \<Rightarrow> 'w service \<Rightarrow> 'w service \<Rightarrow> bool" for d :: "'w app" where
  connect: "service_step d a (a\<lparr>sp_conns := Suc (sp_conns a)\<rparr>)"
| hang_up: "h < sp_conns a \<Longrightarrow> service_step d a (a\<lparr>sp_closed := insert h (sp_closed a)\<rparr>)"
| receive: "h < sp_conns a \<Longrightarrow>
    service_step d a (a\<lparr>sp_asked := insert h (sp_asked a), sp_todo := add_mset (h, m) (sp_todo a)\<rparr>)"
| respond: "(h, m) \<in># sp_todo a \<Longrightarrow> d m (sp_world a) = Some (Inr (out, w)) \<Longrightarrow>
    service_step d a (a\<lparr>sp_todo := sp_todo a - {#(h, m)#}, sp_world := w,
      sp_owed := (sp_owed a)(h := sp_owed a h @ (if h \<in> sp_closed a then [] else out))\<rparr>)"
| deliver: "sp_owed a h = out @ rest \<Longrightarrow>
    service_step d a (a\<lparr>sp_owed := (sp_owed a)(h := rest), sp_got := (sp_got a)(h := sp_got a h @ out)\<rparr>)"

inductive_cases service_stepE: "service_step d a a'"

text \<open>Nobody gets anything who has not asked.\<close>

definition only_asked :: "'w service \<Rightarrow> bool" where
  "only_asked a \<longleftrightarrow> (\<forall>h. sp_owed a h \<noteq> [] \<or> sp_got a h \<noteq> [] \<longrightarrow> h \<in> sp_asked a) \<and>
     (\<forall>t \<in># sp_todo a. fst t \<in> sp_asked a) \<and> sp_asked a \<union> sp_closed a \<subseteq> {..<sp_conns a}"

lemma only_asked_step: "only_asked a \<Longrightarrow> service_step d a a' \<Longrightarrow> only_asked a'"
  by (erule service_stepE) (fastforce simp: only_asked_def dest: in_diffD split: if_splits)+

section \<open>The server as an implementation\<close>

definition unwritten :: "'k tcp_server \<Rightarrow> nat \<Rightarrow> string" where
  "unwritten sv h = (if h < length (objs sv) then b_buf (out_of sv h) @ posted_to h (queue_of sv (loop_of sv h)) else [])"

definition service_of :: "('k, 'w) rpc_server \<Rightarrow> 'w service" where
  "service_of s = \<lparr>sp_conns = length (objs (tcp s)), sp_closed = {h. h < length (objs (tcp s)) \<and> closed (tcp s) h},
     sp_asked = fst ` set (messages s), sp_todo = mset (tp_queue (workers s)) + running (workers s),
     sp_owed = unwritten (tcp s), sp_got = wires s, sp_world = world s\<rparr>"

lemma flow_unwritten: "flow sv ws h = ws h @ unwritten sv h"
  by (simp add: flow_def unwritten_def)

lemma unwritten_eq: "flow sv' = flow sv \<Longrightarrow> unwritten sv' = unwritten sv"
  by (simp add: fun_eq_iff flow_unwritten)

lemma closed_set:
  assumes "keeps {} sv sv'"
  shows "{h. h < length (objs sv') \<and> closed sv' h} = {h. h < length (objs sv) \<and> closed sv h}"
  using assms by (auto simp: keeps_def)

text \<open>\<open>OnMessage\<close>, in the loop or in a worker, is an answer.\<close>

lemma OnMessage_responds:
  assumes "core_inv d w0 s" "h < length (objs (tcp s))" "server_OnMessage ctl d inloop (h, m) s = Some (Inr s')"
    and "inloop \<Longrightarrow> queue_of (tcp s) (loop_of (tcp s) h) = []"
    and "sp_todo a = add_mset (h, m) T" "a\<lparr>sp_todo := {#}\<rparr> = (service_of s)\<lparr>sp_todo := {#}\<rparr>"
  shows "service_step d a ((service_of s')\<lparr>sp_todo := T\<rparr>)"
proof -
  obtain out w sv where a: "d m (world s) = Some (Inr (out, w))"
    and sv: "sv_send ctl inloop h out (tcp s) = Inr sv"
    and s': "s' = s\<lparr>tcp := sv, world := w, replies := replies s @ [\<lparr>re_conn = h, re_msg = m, re_out = out,
       re_sent = (\<not> disconnect (sc_conn (objs (tcp s) ! h)))\<rparr>]\<rparr>"
    using assms(3) by (auto simp: server_OnMessage_def bind_res_Inr)
  have ok: "sv_ok (tcp s)" using assms(1) by (simp add: core_inv_def)
  note o = send_ok [OF ok assms(2) sv assms(4), of "\<lambda>_. []"]
  have u: "unwritten sv = (unwritten (tcp s))(h := unwritten (tcp s) h @ (if closed (tcp s) h then [] else out))"
    using o by (auto simp: fun_eq_iff flow_unwritten sent_by_def)
  have f: "sp_conns a = length (objs (tcp s))" "sp_closed a = {h. h < length (objs (tcp s)) \<and> closed (tcp s) h}"
    "sp_asked a = fst ` set (messages s)" "sp_owed a = unwritten (tcp s)" "sp_got a = wires s" "sp_world a = world s"
    using assms(6) by (cases a; simp add: service_of_def)+
  have c: "{h. h < length (objs sv) \<and> closed sv h} = sp_closed a" "length (objs sv) = sp_conns a"
    using closed_set [OF send_keeps [OF sv]] o by (simp_all add: f)
  have "service_step d a (a\<lparr>sp_todo := sp_todo a - {#(h, m)#}, sp_world := w,
      sp_owed := (sp_owed a)(h := sp_owed a h @ (if h \<in> sp_closed a then [] else out))\<rparr>)"
    using assms(5) a by (intro service_step.respond) (simp_all add: f)
  also have "a\<lparr>sp_todo := sp_todo a - {#(h, m)#}, sp_world := w,
      sp_owed := (sp_owed a)(h := sp_owed a h @ (if h \<in> sp_closed a then [] else out))\<rparr> =
    (service_of s')\<lparr>sp_todo := T\<rparr>"
    using assms(2) f u c by (simp add: service_of_def s' assms(5))
  finally show ?thesis .
qed

text \<open>Steps of the tables that owe nothing new and close at most connection \<open>h\<close>.\<close>

lemma tables_step:
  assumes "flow sv = flow (tcp s)" "keeps {h} (tcp s) sv" "h < length (objs (tcp s))"
  shows "(service_step d)\<^sup>*\<^sup>* (service_of s) (service_of (s\<lparr>tcp := sv\<rparr>))"
proof -
  let ?C = "sp_closed (service_of s)" and ?C' = "{h. h < length (objs sv) \<and> closed sv h}"
  have e: "service_of (s\<lparr>tcp := sv\<rparr>) = (service_of s)\<lparr>sp_closed := ?C'\<rparr>"
    using assms(2) by (simp add: service_of_def unwritten_eq [OF assms(1)] keeps_def)
  have "?C' = ?C \<or> ?C' = insert h ?C" using assms(2,3) by (auto simp: service_of_def keeps_def)
  then show ?thesis
  proof
    assume "?C' = ?C"
    then show ?thesis by (simp add: e)
  next
    assume "?C' = insert h ?C"
    moreover have "h < sp_conns (service_of s)" using assms(3) by (simp add: service_of_def)
    ultimately show ?thesis using service_step.hang_up unfolding e by (metis r_into_rtranclp)
  qed
qed

lemma same_service:
  assumes "flow sv = flow (tcp s)" "keeps {} (tcp s) sv"
  shows "service_of (s\<lparr>tcp := sv\<rparr>) = service_of s"
  using assms(2) closed_set [OF assms(2)] by (simp add: service_of_def unwritten_eq [OF assms(1)] keeps_def)

lemma HandleMessage_serves:
  assumes "srv_inv d w0 s" "h < length (objs (tcp s))" "server_HandleMessage ctl d (h, m) s = Some (Inr s')"
  shows "(service_step d)\<^sup>*\<^sup>* (service_of s) (service_of s')"
proof -
  let ?a = "(service_of s)\<lparr>sp_asked := insert h (sp_asked (service_of s)), sp_todo := add_mset (h, m) (sp_todo (service_of s))\<rparr>"
  have 1: "service_step d (service_of s) ?a" by (rule service_step.receive) (simp add: service_of_def assms(2))
  have tp: "tp_inv (workers s)" using assms(1) by (simp add: srv_inv_def)
  show ?thesis
  proof (cases "pool_size (workers s) = 0")
    case True
    let ?s = "s\<lparr>messages := messages s @ [(h, m)]\<rparr>"
    obtain s1 where s1: "server_OnMessage ctl d True (h, m) ?s = Some (Inr s1)" and s': "s' = s1\<lparr>workers := workers s\<rparr>"
      using assms(3) True by (auto simp: server_HandleMessage_def HandleMessage_def bind_res_Inr)
    have w: "workers s1 = workers s" "messages s1 = messages ?s" using OnMessage_pool [OF s1] by simp_all
    have "minThreadnum (workers s) = 0" using tp True by (simp add: tp_inv_def pool_size_def)
    then have q: "queue_of (tcp ?s) (loop_of (tcp ?s) h) = []"
      using assms(1) loop_of_less [OF srv_inv_sel(2) [OF assms(1)], of h] by (simp add: srv_inv_def)
    have core: "core_inv d w0 ?s" using srv_inv_sel(4) [OF assms(1)] by (simp add: core_inv_def)
    have "service_step d ?a ((service_of s1)\<lparr>sp_todo := sp_todo (service_of s)\<rparr>)"
      by (rule OnMessage_responds [OF core _ s1 q]) (simp_all add: assms(2) service_of_def)
    moreover have "(service_of s1)\<lparr>sp_todo := sp_todo (service_of s)\<rparr> = service_of s'"
      by (simp add: service_of_def s' w)
    ultimately show ?thesis using 1 by (metis rtranclp.rtrancl_into_rtrancl rtranclp.rtrancl_refl)
  next
    case False
    then have s': "s' = s\<lparr>messages := messages s @ [(h, m)], workers := addtask (h, m) (workers s)\<rparr>"
      using assms(3) by (auto simp: server_HandleMessage_def HandleMessage_def)
    have "running (addtask (h, m) (workers s)) = running (workers s)"
      "tp_queue (addtask (h, m) (workers s)) = tp_queue (workers s) @ [(h, m)]"
      by (simp_all add: running_def addtask_def Let_def)
    then have "?a = service_of s'" by (simp add: service_of_def s')
    then show ?thesis using 1 by (metis r_into_rtranclp)
  qed
qed

lemma handle_messages_serves:
  "handle_messages ctl d h ms s = Some (Inr s') \<Longrightarrow> srv_inv d w0 s \<Longrightarrow> h < length (objs (tcp s)) \<Longrightarrow>
     (service_step d)\<^sup>*\<^sup>* (service_of s) (service_of s')"
proof (induction ms arbitrary: s)
  case (Cons m ms)
  then obtain s1 where s1: "server_HandleMessage ctl d (h, m) s = Some (Inr s1)" "handle_messages ctl d h ms s1 = Some (Inr s')"
    by (auto split: option.splits sum.splits)
  note i = HandleMessage_inv [OF Cons.prems(2,3) s1(1)]
  have "(service_step d)\<^sup>*\<^sup>* (service_of s) (service_of s1)" by (rule HandleMessage_serves [OF Cons.prems(2,3) s1(1)])
  also have "(service_step d)\<^sup>*\<^sup>* (service_of s1) (service_of s')"
    using Cons.IH [OF s1(2)] i Cons.prems(3) by simp
  finally show ?case .
qed simp

lemma done_serves:
  assumes "srv_inv d w0 s" "srv_step ctl d (Done i) s = Some (Inr s')"
  shows "(service_step d)\<^sup>*\<^sup>* (service_of s) (service_of s')"
proof -
  let ?p = "workers s"
  have at: "at_phase is_running i ?p" using assms(2) by (auto split: if_splits)
  let ?q = "?p\<lparr>idleThreadnum := idleThreadnum ?p + 1\<rparr>"
  have at': "at_phase is_running i ?q" using at by (simp add: at_phase_def)
  have run: "running (tp_finish i ?p) +
      (case running_task (tp_threads ?p ! i) of None \<Rightarrow> {#} | Some t \<Rightarrow> {#t#}) = running ?p"
    using running_set_phase [OF at', of AtTest] running_cong [of ?q ?p] by (simp add: tp_finish_def)
  have f: "tp_queue (tp_finish i ?p) = tp_queue ?p" by (simp add: tp_finish_def)
  show ?thesis
  proof (cases "running_task (tp_threads ?p ! i)")
    case None
    then have "s' = s\<lparr>workers := tp_finish i ?p\<rparr>" using assms(2) at by simp
    then show ?thesis using run None f by (simp add: service_of_def)
  next
    case (Some t)
    obtain h m where t: "t = (h, m)" by fastforce
    obtain s1 where s1: "server_OnMessage ctl d False (h, m) s = Some (Inr s1)"
      and s': "s' = s1\<lparr>workers := tp_finish i (workers s1)\<rparr>"
      using assms(2) at Some t by (auto simp: bind_res_Inr)
    have h: "h < length (objs (tcp s))" using running_known(2) [OF assms(1) at Some] by (simp add: t)
    let ?T = "mset (tp_queue ?p) + running (tp_finish i ?p)"
    have T: "sp_todo (service_of s) = add_mset (h, m) ?T" using run Some by (simp add: service_of_def t)
    have "service_step d (service_of s) ((service_of s1)\<lparr>sp_todo := ?T\<rparr>)"
      by (rule OnMessage_responds [OF srv_inv_sel(4) [OF assms(1)] h s1 _ T]) simp_all
    moreover have "(service_of s1)\<lparr>sp_todo := ?T\<rparr> = service_of s'"
      using OnMessage_pool [OF s1] f by (simp add: service_of_def s')
    ultimately show ?thesis by (metis r_into_rtranclp)
  qed
qed

lemma accept_serves:
  assumes "sv_ok (tcp s)" "0 \<le> fd" "newconnction ctl now fd (tcp s) = Inr (h, sv)"
  shows "service_step d (service_of s) (service_of (s\<lparr>tcp := sv\<rparr>))"
proof -
  have inv: "sv_inv (tcp s)" using assms(1) by (simp add: sv_ok_def)
  then have th: "0 < threadnum (tcp s)" "length (subloops (tcp s)) = nat (threadnum (tcp s))" by (simp_all add: sv_inv_def)
  obtain k c where kc: "new_connection ctl fd now (epolls (tcp s) ! nat (fd mod threadnum (tcp s))) = Inr (k, c)"
    using assms(3) subloop_index_ok(1) [OF th assms(2)] by (auto simp: newconnction_def sv_construct_def bind_res_Inr)
  then have o: "\<not> disconnect c" by (auto simp: new_connection_def bind_res_Inr)
  have objs: "objs sv = objs (tcp s) @ [\<lparr>sc_conn = c, sc_installed = 4\<rparr>]"
    using sv_inv_newconnction [OF inv assms(2) kc] assms(3) by auto
  have f: "flow sv = flow (tcp s)" using accept_ok [OF assms] by blast
  have "{h. h < length (objs sv) \<and> closed sv h} = {h. h < length (objs (tcp s)) \<and> closed (tcp s) h}"
    using o by (auto simp: objs nth_append less_Suc_eq)
  then have "service_of (s\<lparr>tcp := sv\<rparr>) = (service_of s)\<lparr>sp_conns := Suc (sp_conns (service_of s))\<rparr>"
    by (simp add: service_of_def unwritten_eq [OF f]) (simp add: objs)
  then show ?thesis using service_step.connect by metis
qed

lemma step_serves:
  assumes "srv_inv d w0 s" "srv_step ctl d e s = Some (Inr s')"
  shows "(service_step d)\<^sup>*\<^sup>* (service_of s) (service_of s')"
proof -
  note ok = srv_inv_sel(1) [OF assms(1)] and inv = srv_inv_sel(2) [OF assms(1)]
  show ?thesis
  proof (cases e)
    case (Accept now fd)
    then obtain h sv where "0 \<le> fd" "newconnction ctl now fd (tcp s) = Inr (h, sv)" "s' = s\<lparr>tcp := sv\<rparr>"
      using assms(2) by (auto simp: on_tcp_def bind_res_Inr split: if_splits)
    with accept_serves [OF ok this(1,2)] show ?thesis by (simp only: r_into_rtranclp)
  next
    case (Readable h now rs)
    then obtain ms sv where r: "h < length (objs (tcp s))" "sv_read ctl now rs h (tcp s) = Some (Inr (ms, sv))"
        "handle_messages ctl d h ms (s\<lparr>tcp := sv\<rparr>) = Some (Inr s')"
      using assms(2) by (auto split: if_splits option.splits sum.splits)
    note same = read_ok [OF ok r(1,2)]
    have "flow sv = flow (tcp s)" using same_out_ok(2) [of "tcp s" sv] same ok by blast
    from tables_step [OF this read_keeps [OF inv r(1,2)] r(1)]
    have "(service_step d)\<^sup>*\<^sup>* (service_of s) (service_of (s\<lparr>tcp := sv\<rparr>))" .
    moreover have "h < length (objs (tcp (s\<lparr>tcp := sv\<rparr>)))" using same r(1) by (simp add: same_out_def)
    from handle_messages_serves [OF r(3) same_out_inv [OF assms(1) same] this]
    have "(service_step d)\<^sup>*\<^sup>* (service_of (s\<lparr>tcp := sv\<rparr>)) (service_of s')" .
    ultimately show ?thesis by (rule rtranclp_trans)
  next
    case (WritableEv h room)
    then obtain out sv where h: "h < length (objs (tcp s))" "sv_write ctl room h (tcp s) = Inr (out, sv)"
      and s': "s' = s\<lparr>tcp := sv, wires := (wires s)(h := wires s h @ out)\<rparr>"
      using assms(2) by (auto simp: bind_res_Inr split: if_splits)
    note w = write_ok [OF ok h, of "wires s"] and k = write_keeps [OF h(2), of "{}"]
    have "flow sv ((wires s)(h := wires s h @ out)) = flow (tcp s) (wires s)" using w by blast
    from fun_cong [OF this] have f: "((wires s)(h := wires s h @ out)) h' @ unwritten sv h' = wires s h' @ unwritten (tcp s) h'" for h'
      by (simp only: flow_unwritten)
    have 1: "unwritten (tcp s) h = out @ unwritten sv h" using f [of h, symmetric] by simp
    have "unwritten sv h' = unwritten (tcp s) h'" if "h' \<noteq> h" for h' using f [of h'] that by simp
    then have "unwritten sv = (unwritten (tcp s))(h := unwritten sv h)" by (intro ext) simp
    then obtain rest where u: "unwritten sv = (unwritten (tcp s))(h := rest)" "unwritten (tcp s) h = out @ rest"
      using 1 by blast
    have "service_of s' = (service_of s)\<lparr>sp_owed := (sp_owed (service_of s))(h := rest),
        sp_got := (sp_got (service_of s))(h := sp_got (service_of s) h @ out)\<rparr>"
      using closed_set [OF k] conjunct1 [OF conjunct2 [OF w]] by (simp add: service_of_def s' u(1))
    moreover have "sp_owed (service_of s) h = out @ rest" using u(2) by (simp add: service_of_def)
    from service_step.deliver [OF this, of d] have "service_step d (service_of s)
      ((service_of s)\<lparr>sp_owed := (sp_owed (service_of s))(h := rest),
        sp_got := (sp_got (service_of s))(h := sp_got (service_of s) h @ out)\<rparr>)" .
    ultimately show ?thesis by (simp only: r_into_rtranclp)
  next
    case (LoopWake i)
    then obtain sv where i: "i < length (subloops (tcp s))" "sv_wake ctl i (tcp s) = Inr sv" "s' = s\<lparr>tcp := sv\<rparr>"
      using assms(2) by (auto simp: on_tcp_def bind_res_Inr split: if_splits)
    have "flow sv = flow (tcp s)" using wake_ok [OF ok i(1,2)] by blast
    from same_service [OF this wake_keeps [OF i(2)]] show ?thesis by (simp add: i(3))
  next
    case (Timer i now)
    then have i: "i < length (subloops (tcp s))" "s' = s\<lparr>tcp := sv_timer now i (tcp s)\<rparr>"
      using assms(2) by (auto split: if_splits)
    note t = timer_ok [OF ok i(1), of now] and e = timer_effect(2) [OF inv i(1), of now]
    have "flow (sv_timer now i (tcp s)) = flow (tcp s)" using same_out_ok(2) [of "tcp s"] t ok by blast
    from unwritten_eq [OF this] have "service_of s' = service_of s" by (simp add: i(2) service_of_def e)
    then show ?thesis by simp
  next
    case (ErrorEv h)
    then obtain sv where h: "h < length (objs (tcp s))" "sv_error ctl h (tcp s) = Inr sv" "s' = s\<lparr>tcp := sv\<rparr>"
      using assms(2) by (auto simp: on_tcp_def bind_res_Inr split: if_splits)
    have "flow sv = flow (tcp s)" using same_out_ok(2) [of "tcp s" sv] error_ok [OF ok h(2)] ok by blast
    from tables_step [OF this error_keeps [OF h(2)] h(1)] show ?thesis by (simp add: h(3))
  next
    case (Move e')
    then obtain p where p: "pool_move e'" "tp_step e' (workers s) = Some (Inr p)" "s' = s\<lparr>workers := p\<rparr>"
      using assms(2) by (auto simp: bind_res_Inr split: if_splits)
    from running_move [OF p(2,1) srv_inv_sel(3) [OF assms(1)]] show ?thesis by (simp add: service_of_def p(3))
  next
    case (Done i)
    then show ?thesis using done_serves [OF assms(1)] assms(2) by blast
  qed (use assms(2) in \<open>simp split: if_splits\<close>)
qed

interpretation server: safe_simulation "unfaulted (srv_step ctl d)" "srv_inv d w0" service_of "service_step d" only_asked
  for ctl :: "'k epoll_ctl" and d :: "'w app" and w0 :: 'w
  by unfold_locales (auto simp: unfaulted_Some intro: srv_step_inv step_serves only_asked_step)

lemma service_of_new: "service_of (new_rpc_server io m mx ks w) = new_service w"
proof -
  have "running (new_pool m mx) = {#}"
    by (simp add: running_def new_pool_def) (induction m, simp_all)
  then show ?thesis
    by (simp add: service_of_def new_service_def rpc_server_over_def new_tcpserver_def unwritten_def fun_eq_iff new_pool_def)
qed

section \<open>Properties\<close>

text \<open>
  C4. Refinement: every run of the server, whatever its loops, workers, clients and timers do, is a run of the
  abstract service, in which messages are answered one at a time, each once, in any order, each answer goes
  whole to the end of what its own connection is owed (or nowhere, when that connection is closed), and
  what is owed goes out in order. So nothing is ever written to a connection no message came from.
\<close>

theorem server_refines_service:
  assumes "srv_run ctl d es (new_rpc_server io m mx ks w0) = Some (Inr s)" "0 < io"
  shows "(service_step d)\<^sup>*\<^sup>* (new_service w0) (service_of s) \<and>
    (\<forall>h. wires s h \<noteq> [] \<longrightarrow> h \<in> fst ` set (messages s))"
proof -
  let ?new = "new_rpc_server io m mx ks w0"
  have r: "steps (unfaulted (srv_step ctl d)) es ?new = Some s" using assms(1) by (simp add: srv_run_steps)
  note run = srv_inv_new [OF assms(2)] r
  have "only_asked (new_service w0)" by (simp add: only_asked_def new_service_def)
  then have "only_asked (service_of s)" using server.run_good [OF run] by (simp add: service_of_new)
  then have "\<forall>h. wires s h \<noteq> [] \<longrightarrow> h \<in> fst ` set (messages s)" by (simp add: only_asked_def service_of_def)
  then show ?thesis using server.run_simulates [OF run] by (simp add: service_of_new)
qed

theorem server_refines_service_witness:
  "\<exists>s. srv_run list_ctl echo_answer [Accept 0 7, Accept 0 8, Readable 0 1 [Recv ''hi'', RecvErr EAGAIN], WritableEv 0 (Some 6)]
       (new_rpc_server 1 0 0 (\<lambda>_ _. None) ()) = Some (Inr s) \<and>
     (service_step echo_answer)\<^sup>*\<^sup>* (new_service ()) (service_of s) \<and> wires s 0 = ''reply:'' \<and> wires s 1 = []"
proof -
  let ?es = "[Accept 0 7, Accept 0 8, Readable 0 1 [Recv ''hi'', RecvErr EAGAIN], WritableEv 0 (Some 6)]"
    and ?new = "new_rpc_server 1 0 0 (\<lambda>_ _. None) () :: (int \<Rightarrow> 32 word option, unit) rpc_server"
  have "case srv_run list_ctl echo_answer ?es ?new of None \<Rightarrow> False | Some (Inl _) \<Rightarrow> False | Some (Inr s) \<Rightarrow>
     wires s 0 = ''reply:'' \<and> fst ` set (messages s) = {0}"
    by code_simp
  then obtain s where s: "srv_run list_ctl echo_answer ?es ?new = Some (Inr s)" "wires s 0 = ''reply:''" "fst ` set (messages s) = {0}"
    unfolding case_Some_Inr by blast
  have "(service_step echo_answer)\<^sup>*\<^sup>* (new_service ()) (service_of s)" "wires s 1 = []"
    using server_refines_service [OF s(1)] s(3) by auto
  with s(1,2) show ?thesis by blast
qed

end
