(* ===== verification/Wiring.thy ===== *)
theory Wiring
  imports TcpServerModel Callbacks
begin

text \<open>
  Which function is called by which event: the callback members of \<open>Channel\<close>, \<open>EventLoop\<close>, \<open>Connection\<close> and
  \<open>Acceptor\<close>, their setters, and what the constructors set. A member that is not set is an empty
  \<open>std::function\<close>, and none is tested before it is called.
\<close>

section \<open>Setters\<close>

type_synonym 'w channel_callbacks = "callback \<Rightarrow> ('w \<Rightarrow> 'w res) option"

definition no_callbacks :: "'c \<Rightarrow> ('w \<Rightarrow> 'w res) option" where
  "no_callbacks = (\<lambda>_. None)"

definition setreadcallback :: "('w \<Rightarrow> 'w res) \<Rightarrow> 'w channel_callbacks \<Rightarrow> 'w channel_callbacks" where
  "setreadcallback fn cbs = cbs(ReadCb := Some fn)"

definition setclosecallback :: "('w \<Rightarrow> 'w res) \<Rightarrow> 'w channel_callbacks \<Rightarrow> 'w channel_callbacks" where
  "setclosecallback fn cbs = cbs(CloseCb := Some fn)"

definition seterrorcallback :: "('w \<Rightarrow> 'w res) \<Rightarrow> 'w channel_callbacks \<Rightarrow> 'w channel_callbacks" where
  "seterrorcallback fn cbs = cbs(ErrorCb := Some fn)"

definition setwritecallback :: "('w \<Rightarrow> 'w res) \<Rightarrow> 'w channel_callbacks \<Rightarrow> 'w channel_callbacks" where
  "setwritecallback fn cbs = cbs(WriteCb := Some fn)"

datatype loop_callback = EpollTimeoutCb | IdleCb

type_synonym 'w loop_callbacks = "loop_callback \<Rightarrow> ('w \<Rightarrow> 'w res) option"

definition setepolltimeoutcallback :: "('w \<Rightarrow> 'w res) \<Rightarrow> 'w loop_callbacks \<Rightarrow> 'w loop_callbacks" where
  "setepolltimeoutcallback fn cbs = cbs(EpollTimeoutCb := Some fn)"

definition settimeoutcallback :: "('w \<Rightarrow> 'w res) \<Rightarrow> 'w loop_callbacks \<Rightarrow> 'w loop_callbacks" where
  "settimeoutcallback fn cbs = cbs(IdleCb := Some fn)"

datatype conn_callback = MessageCb | ClosedCb | FailedCb | ComplateCb

type_synonym 'w conn_callback_table = "conn_callback \<Rightarrow> ('w \<Rightarrow> 'w res) option"

definition conn_setonmessagecallback :: "('w \<Rightarrow> 'w res) \<Rightarrow> 'w conn_callback_table \<Rightarrow> 'w conn_callback_table" where
  "conn_setonmessagecallback fn cbs = cbs(MessageCb := Some fn)"

definition conn_setclosecallback :: "('w \<Rightarrow> 'w res) \<Rightarrow> 'w conn_callback_table \<Rightarrow> 'w conn_callback_table" where
  "conn_setclosecallback fn cbs = cbs(ClosedCb := Some fn)"

definition conn_seterrorcallback :: "('w \<Rightarrow> 'w res) \<Rightarrow> 'w conn_callback_table \<Rightarrow> 'w conn_callback_table" where
  "conn_seterrorcallback fn cbs = cbs(FailedCb := Some fn)"

definition conn_setcomplatecallback :: "('w \<Rightarrow> 'w res) \<Rightarrow> 'w conn_callback_table \<Rightarrow> 'w conn_callback_table" where
  "conn_setcomplatecallback fn cbs = cbs(ComplateCb := Some fn)"

section \<open>What the constructors set\<close>

text \<open>The wake-up and the timer channel of a loop, and the acceptor's, have a read callback only.\<close>

definition loop_wake_callbacks :: "('w \<Rightarrow> 'w res) \<Rightarrow> 'w channel_callbacks" where
  "loop_wake_callbacks handle_wakeup = setreadcallback handle_wakeup no_callbacks"

definition loop_timer_callbacks :: "('w \<Rightarrow> 'w res) \<Rightarrow> 'w channel_callbacks" where
  "loop_timer_callbacks handle_timer = setreadcallback handle_timer no_callbacks"

definition acceptor_callbacks :: "('w \<Rightarrow> 'w res) \<Rightarrow> 'w channel_callbacks" where
  "acceptor_callbacks on_accept = setreadcallback on_accept no_callbacks"

definition connection_callbacks :: "'k epoll_ctl \<Rightarrow> ('k \<times> conn \<Rightarrow> ('k \<times> conn) res) \<Rightarrow>
    ('k \<times> conn \<Rightarrow> ('k \<times> conn) res) \<Rightarrow> ('k \<times> conn) channel_callbacks" where
  "connection_callbacks ctl on_read on_write =
     setwritecallback on_write (seterrorcallback (conn_errorcallback ctl)
       (setclosecallback (conn_closecallback ctl) (setreadcallback on_read no_callbacks)))"

text \<open>The constructor of \<open>TcpServer\<close>: the accepting loop gets one callback, the others both.\<close>

definition main_loop_callbacks :: "('w \<Rightarrow> 'w res) \<Rightarrow> 'w loop_callbacks" where
  "main_loop_callbacks epolltimeout = setepolltimeoutcallback epolltimeout no_callbacks"

definition sub_loop_callbacks :: "('w \<Rightarrow> 'w res) \<Rightarrow> ('w \<Rightarrow> 'w res) \<Rightarrow> 'w loop_callbacks" where
  "sub_loop_callbacks epolltimeout remove =
     settimeoutcallback remove (setepolltimeoutcallback epolltimeout no_callbacks)"

text \<open>The first \<open>n\<close> of the four setters \<open>newconnction\<close> calls on a new connection.\<close>

fun installed :: "nat \<Rightarrow> (conn_callback \<Rightarrow> 'w \<Rightarrow> 'w res) \<Rightarrow> 'w conn_callback_table" where
  "installed 0 f = no_callbacks"
| "installed (Suc n) f =
     (if n = 0 then conn_setonmessagecallback (f MessageCb)
      else if n = 1 then conn_setclosecallback (f ClosedCb)
      else if n = 2 then conn_seterrorcallback (f FailedCb)
      else if n = 3 then conn_setcomplatecallback (f ComplateCb) else id) (installed n f)"

section \<open>Properties\<close>

lemmas setter_defs = no_callbacks_def setreadcallback_def setclosecallback_def seterrorcallback_def setwritecallback_def
  setepolltimeoutcallback_def settimeoutcallback_def conn_setonmessagecallback_def conn_setclosecallback_def
  conn_seterrorcallback_def conn_setcomplatecallback_def

text \<open>The table of a connection's channel is complete, and the one \<open>event_outcome\<close> is about.\<close>

lemma connection_wired: "connection_callbacks ctl r w = conn_callbacks ctl r w"
  by (rule ext, rename_tac cb, case_tac cb) (simp_all add: connection_callbacks_def conn_callbacks_def setter_defs)

text \<open>\<open>sc_installed\<close> counts: callback number \<open>k\<close> (from 0) of a connection is set when more than \<open>k\<close> are.\<close>

fun callback_number :: "conn_callback \<Rightarrow> nat" where
  "callback_number MessageCb = 0"
| "callback_number ClosedCb = 1"
| "callback_number FailedCb = 2"
| "callback_number ComplateCb = 3"

lemma installed_counts: "installed n f cb = (if callback_number cb < n then Some (f cb) else None)"
proof (induction n)
  case (Suc n)
  then show ?case by (cases cb) (auto simp: setter_defs less_Suc_eq)
qed (simp add: no_callbacks_def)

text \<open>
  A wake-up, timer or listening descriptor for which the kernel reports neither input nor output (an
  error or a hang-up alone) meets an empty callback: the loop's thread throws, and with it the process ends.
\<close>

theorem bare_channel_throws:
  assumes "cbs \<in> {loop_wake_callbacks f, loop_timer_callbacks f, acceptor_callbacks f}" "ev AND EPOLLRDHUP = 0"
  shows "handleevent rm cbs ev w = (if ev AND (EPOLLIN OR EPOLLPRI) \<noteq> 0 then f w else Inl EmptyCall)"
  using assms by (auto simp: handleevent_def call_cb_def loop_wake_callbacks_def loop_timer_callbacks_def
      acceptor_callbacks_def setter_defs)

text \<open>
  The accepting loop has no function for idle connections, and its timer does not look for one; an I/O loop
  has, so its sweep meets no empty function.
\<close>

theorem loops_wired:
  "call_cb (main_loop_callbacks f) EpollTimeoutCb w = f w \<and> call_cb (main_loop_callbacks f) IdleCb w = Inl EmptyCall \<and>
   call_cb (sub_loop_callbacks f g) EpollTimeoutCb w = f w \<and> call_cb (sub_loop_callbacks f g) IdleCb w = g w \<and>
   fst (handletimer expired (sv_mainloop (new_tcpserver n ks))) = [] \<and>
   (\<forall>l \<in> set (subloops (new_tcpserver n ks)). \<not> mainloop l)"
  by (simp add: call_cb_def main_loop_callbacks_def sub_loop_callbacks_def setter_defs new_tcpserver_def
      new_event_loop_def handletimer_def)

end
