(* ===== verification/Clock.thy ===== *)
theory Clock
  imports ConnectionModel
begin

text \<open>
  \<open>src/common/Timestamp\<close>: a point in time in seconds. The clock and the calendar are arguments:
  \<open>now\<close> is what \<open>time(0)\<close> answers, \<open>localtime\<close> the years since 1900 and the month from 0, \<^const>\<open>None\<close>
  for a null pointer (a time whose year does not fit an \<open>int\<close>).
\<close>

section \<open>Operations\<close>

record timestamp =
  secsinceepoch :: int

definition Timestamp_default :: "int \<Rightarrow> timestamp" where
  "Timestamp_default now = \<lparr>secsinceepoch = now\<rparr>"

definition Timestamp_of :: "int \<Rightarrow> timestamp" where
  "Timestamp_of secs = \<lparr>secsinceepoch = secs\<rparr>"

definition Timestamp_now :: "int \<Rightarrow> timestamp" where
  "Timestamp_now now = Timestamp_default now"

definition toint :: "timestamp \<Rightarrow> int" where
  "toint t = secsinceepoch t"

text \<open>\<open>%4d\<close> and \<open>%02d\<close>: at least so many characters, filled with blanks, or with zeros behind the sign.\<close>

definition print_d :: "int \<Rightarrow> string" where
  "print_d n = (if n < 0 then ''-'' @ dec_str (nat (- n)) else dec_str (nat n))"

definition print_width :: "nat \<Rightarrow> int \<Rightarrow> string" where
  "print_width k n = replicate (k - length (print_d n)) (CHR '' '') @ print_d n"

definition print_zeros :: "nat \<Rightarrow> int \<Rightarrow> string" where
  "print_zeros k n =
     (let s = dec_str (nat \<bar>n\<bar>); sign = (if n < 0 then ''-'' else [])
      in sign @ replicate (k - length sign - length s) (CHR ''0'') @ s)"

definition snprintf32 :: "string \<Rightarrow> string" where
  "snprintf32 s = take 31 s"

definition tostring :: "(int \<Rightarrow> (int \<times> int) option) \<Rightarrow> timestamp \<Rightarrow> string res" where
  "tostring localtime t =
     (case localtime (secsinceepoch t) of
        None \<Rightarrow> Inl NullPointer
      | Some (year, mon) \<Rightarrow>
          bind_res (int_chk (year + 1900)) (\<lambda>y. bind_res (int_chk (mon + 1)) (\<lambda>m.
          Inr (snprintf32 (print_width 4 y @ ''-'' @ print_zeros 2 m)))))"

section \<open>Properties\<close>

text \<open>\<open>Connection::timeout\<close> compares a \<open>Timestamp\<close> taken with \<open>now()\<close> with the clock.\<close>

lemma timeout_timestamp:
  "conn_timeout now lim (c\<lparr>lastatime := toint (Timestamp_now t)\<rparr>) \<longleftrightarrow> now - t > lim"
  by (simp add: conn_timeout_def toint_def Timestamp_now_def Timestamp_default_def)

lemma print_d_length:
  assumes "- (2 ^ 31) \<le> n" "n < 2 ^ 31"
  shows "length (print_d n) \<le> 11"
proof -
  have "length (dec_str (nat \<bar>n\<bar>)) \<le> 10"
    by (rule dec_str_length_bound) (use assms in \<open>simp_all add: nat_less_iff\<close>)
  then show ?thesis by (cases "n < 0") (simp_all add: print_d_def)
qed

text \<open>
  What \<open>tostring\<close> prints for a time of our calendar's years 1000 to 9999: exactly seven characters, from which year
  and month can be read back; the day and the time of day are not in it. It never fills its 32 bytes.
\<close>

theorem tostring_prints:
  assumes "localtime (secsinceepoch t) = Some (year, mon)" "- (2 ^ 31) \<le> year" "year + 1900 < 2 ^ 31" "0 \<le> mon" "mon < 12"
  shows "\<exists>s. tostring localtime t = Inr s \<and> s = print_width 4 (year + 1900) @ ''-'' @ print_zeros 2 (mon + 1) \<and>
    length s \<le> 14 \<and> (1000 \<le> year + 1900 \<and> year + 1900 \<le> 9999 \<longrightarrow> length s = 7 \<and>
      atoi (take 4 s) = Inr (year + 1900) \<and> atoi (drop 5 s) = Inr (mon + 1))"
proof -
  let ?y = "year + 1900" and ?m = "mon + 1"
  have m: "mon = 0 \<or> mon = 1 \<or> mon = 2 \<or> mon = 3 \<or> mon = 4 \<or> mon = 5 \<or> mon = 6 \<or> mon = 7 \<or> mon = 8 \<or> mon = 9 \<or> mon = 10 \<or> mon = 11"
    using assms(4,5) by presburger
  have zeros: "length (print_zeros 2 ?m) = 2 \<and> atoi (print_zeros 2 ?m) = Inr ?m"
    using m by (elim disjE; simp only:) code_simp+
  have len: "length (print_width 4 ?y) \<le> 11"
    using print_d_length [of ?y] assms(2,3) by (simp add: print_width_def)
  have t: "tostring localtime t = Inr (print_width 4 ?y @ ''-'' @ print_zeros 2 ?m)"
    using assms len zeros by (simp add: tostring_def snprintf32_def)
  have four: "length (print_width 4 ?y) = 4 \<and> atoi (print_width 4 ?y) = Inr ?y" if y: "1000 \<le> ?y" "?y \<le> 9999"
  proof -
    have "length (dec_str (nat ?y)) = 4"
    proof -
      have "nat ?y div 10 div 10 div 10 < 10" "\<not> nat ?y < 10" "\<not> nat ?y div 10 < 10" "\<not> nat ?y div 10 div 10 < 10"
        using y by linarith+
      then show ?thesis
        by (simp add: dec_str.simps [of "nat ?y"] dec_str.simps [of "nat ?y div 10"]
            dec_str.simps [of "nat ?y div 10 div 10"] dec_str.simps [of "nat ?y div 10 div 10 div 10"] del: div_mult2_eq)
    qed
    moreover have "atoi (dec_str (nat ?y)) = Inr ?y" using y atoi_dec_str [of "nat ?y"] by simp
    ultimately show ?thesis using y by (simp add: print_width_def print_d_def)
  qed
  show ?thesis using t len zeros four by simp
qed

end
