(* ===== verification/AsyncLog.thy ===== *)
theory AsyncLog
  imports BufferModel
begin

text \<open>
  \<open>src/common/asynclog\<close>: the double-buffered log. \<open>append\<close> and the swap of the writing thread hold
  the mutex, the rest of the writing thread's round does not, so one round is three steps (the test of
  the loop with its assertions, the swap, the write), between which lines may be appended or the
  logger stopped. The file is the bytes written so far.
\<close>

section \<open>State\<close>

definition maxBuffSize :: "64 word" where "maxBuffSize = 50000"

text \<open>
  The members of the logger, then the local variables of \<open>AsyncLoggerLoop\<close>: \<^const>\<open>None\<close> is a
  moved-from pointer, \<open>in_wait\<close> holds from the loop test to the swap, and \<open>toWrite\<close> is \<open>Some\<close>
  between the swap and the end of the round.
\<close>

record alog =
  currentBuf :: buffer
  nextBuf :: "buffer option"
  al_buffers :: "buffer list"
  isRuning :: bool
  newBuffer1 :: "buffer option"
  newBuffer2 :: "buffer option"
  in_wait :: bool
  toWrite :: "buffer list option"
  al_file :: string

text \<open>
  A logger that has been started and whose thread is at its loop. \<open>maxBuffSize\<close> is the last member
  of the class, so the constructor makes the first two buffers before it is initialised: \<open>g\<close> is the
  value its memory happens to hold then.
\<close>

definition started_logger :: "64 word \<Rightarrow> alog" where
  "started_logger g = \<lparr>currentBuf = new_buffer_max g, nextBuf = Some (new_buffer_max g),
     al_buffers = [], isRuning = True, newBuffer1 = Some (new_buffer_max maxBuffSize),
     newBuffer2 = Some (new_buffer_max maxBuffSize), in_wait = False, toWrite = None, al_file = []\<rparr>"

section \<open>Steps\<close>

text \<open>\<open>avail() > len\<close> compares in \<open>uint64_t\<close>.\<close>

definition al_append :: "string \<Rightarrow> alog \<Rightarrow> alog" where
  "al_append line s =
     (if avail (currentBuf s) > of_nat (length line)
      then s\<lparr>currentBuf := buffer_append (currentBuf s) line\<rparr>
      else let fresh = (case nextBuf s of Some b \<Rightarrow> b | None \<Rightarrow> new_buffer_max maxBuffSize) in
        s\<lparr>al_buffers := al_buffers s @ [currentBuf s], nextBuf := None,
          currentBuf := buffer_append fresh line\<rparr>)"

definition empty_buffer :: "buffer option \<Rightarrow> bool" where
  "empty_buffer b = (case b of None \<Rightarrow> False | Some b \<Rightarrow> buffer_size b = 0)"

text \<open>The start of a round, with its assertions; a failed \<open>assert\<close> ends the process.\<close>

definition al_enter :: "alog \<Rightarrow> alog res" where
  "al_enter s =
     (if empty_buffer (newBuffer1 s) \<and> empty_buffer (newBuffer2 s) then Inr (s\<lparr>in_wait := True\<rparr>)
      else Inl Exit)"

text \<open>
  The critical section, entered when the wait ends, by a notification or by the flush interval. A
  moved-from \<open>currentBuf_\<close> would be used by the next \<open>append\<close>.
\<close>

definition al_swap :: "alog \<Rightarrow> alog res" where
  "al_swap s =
     (case newBuffer1 s of
        None \<Rightarrow> Inl NullPointer
      | Some nb1 \<Rightarrow>
          Inr (s\<lparr>in_wait := False, toWrite := Some (al_buffers s @ [currentBuf s]), al_buffers := [],
                 currentBuf := nb1, newBuffer1 := None,
                 nextBuf := (case nextBuf s of None \<Rightarrow> newBuffer2 s | Some b \<Rightarrow> Some b),
                 newBuffer2 := (case nextBuf s of None \<Rightarrow> None | Some b \<Rightarrow> newBuffer2 s)\<rparr>))"

text \<open>\<open>newBuffer = move(back()); pop_back(); reset()\<close> unless there is one already.\<close>

definition refill :: "buffer option \<Rightarrow> buffer list \<Rightarrow> (buffer option \<times> buffer list) res" where
  "refill nb bs =
     (case nb of
        Some b \<Rightarrow> Inr (Some b, bs)
      | None \<Rightarrow> if bs = [] then Inl Exit else Inr (Some (buffer_reset (last bs)), butlast bs))"

definition al_write :: "buffer list \<Rightarrow> alog \<Rightarrow> alog res" where
  "al_write bs s =
     (if bs = [] then Inl Exit
      else let bs1 = (if length bs > 25 then take 2 bs else bs);
               output = concat (map buffer_data bs1);
               bs2 = (if length bs1 > 2 then take 2 bs1 else bs1)
      in bind_res (refill (newBuffer1 s) bs2) (\<lambda>(nb1, bs3).
         bind_res (refill (newBuffer2 s) bs3) (\<lambda>(nb2, _).
         Inr (s\<lparr>newBuffer1 := nb1, newBuffer2 := nb2, toWrite := None, al_file := al_file s @ output\<rparr>))))"

definition al_stop :: "alog \<Rightarrow> alog" where
  "al_stop s = s\<lparr>isRuning := False\<rparr>"

datatype al_event = Append string | Enter | Swap | Write | StopLog

text \<open>\<^const>\<open>None\<close>: the thread is not at that point.\<close>

fun al_step :: "al_event \<Rightarrow> alog \<Rightarrow> alog res option" where
  "al_step (Append line) s = Some (Inr (al_append line s))"
| "al_step Enter s =
     (if \<not> in_wait s \<and> toWrite s = None \<and> isRuning s then Some (al_enter s) else None)"
| "al_step Swap s = (if in_wait s then Some (al_swap s) else None)"
| "al_step Write s = (case toWrite s of None \<Rightarrow> None | Some bs \<Rightarrow> Some (al_write bs s))"
| "al_step StopLog s = Some (Inr (al_stop s))"

fun al_run :: "al_event list \<Rightarrow> alog \<Rightarrow> alog res option" where
  "al_run [] s = Some (Inr s)"
| "al_run (e # es) s =
     (case al_step e s of
        None \<Rightarrow> None
      | Some (Inl f) \<Rightarrow> Some (Inl f)
      | Some (Inr s') \<Rightarrow> al_run es s')"

section \<open>Invariant\<close>

text \<open>\<open>lim\<close> is a length of line that every buffer can take.\<close>

definition log_buffer :: "nat \<Rightarrow> buffer \<Rightarrow> bool" where
  "log_buffer lim b \<longleftrightarrow> lim \<le> unat (b_maxLen b) \<and> within_max b"

definition blank :: "nat \<Rightarrow> buffer option \<Rightarrow> bool" where
  "blank lim b \<longleftrightarrow> (case b of None \<Rightarrow> True | Some b \<Rightarrow> log_buffer lim b \<and> b_buf b = [])"

definition al_inv :: "nat \<Rightarrow> alog \<Rightarrow> bool" where
  "al_inv lim s \<longleftrightarrow> log_buffer lim (currentBuf s) \<and> list_all (log_buffer lim) (al_buffers s) \<and>
     blank lim (nextBuf s) \<and> blank lim (newBuffer1 s) \<and> blank lim (newBuffer2 s) \<and>
     (nextBuf s = None \<longrightarrow> al_buffers s \<noteq> []) \<and>
     (case toWrite s of
        None \<Rightarrow> newBuffer1 s \<noteq> None \<and> newBuffer2 s \<noteq> None
      | Some bs \<Rightarrow> list_all (log_buffer lim) bs \<and> newBuffer1 s = None \<and> \<not> in_wait s \<and>
          (if newBuffer2 s = None then 2 else 1) \<le> length bs)"

text \<open>What has reached the logger and not been thrown away, in order.\<close>

definition pending :: "alog \<Rightarrow> string" where
  "pending s = concat (map b_buf (case toWrite s of None \<Rightarrow> [] | Some bs \<Rightarrow> bs)) @
     concat (map b_buf (al_buffers s)) @ b_buf (currentBuf s)"

lemma blank_simps [simp]:
  "blank lim None" "blank lim (Some b) \<longleftrightarrow> log_buffer lim b \<and> b_buf b = []"
  by (simp_all add: blank_def)

lemma log_buffer_new:
  "lim \<le> unat w \<Longrightarrow> lim \<le> 1000000 \<Longrightarrow> log_buffer lim (new_buffer_max w)" "b_buf (new_buffer_max w) = []"
  by (simp add: log_buffer_def within_max_new, simp add: new_buffer_max_def MAX_BUF_SIZE_def)
    (simp add: new_buffer_max_def)

lemma log_buffer_block: "lim \<le> 50000 \<Longrightarrow> log_buffer lim (new_buffer_max maxBuffSize)"
  by (rule log_buffer_new) (simp_all add: maxBuffSize_def)

lemma log_buffer_reset: "log_buffer lim b \<Longrightarrow> log_buffer lim (buffer_reset b)"
  by (simp add: log_buffer_def within_max_def)

lemma append_log_buffer:
  assumes "log_buffer lim b" "length line < 2 ^ 31"
  shows "log_buffer lim (buffer_append b line)"
    "length (b_buf b) + length line \<le> unat (b_maxLen b) \<Longrightarrow> b_buf (buffer_append b line) = b_buf b @ line"
  using assms buffer_append_eq [of b line] within_max_append [of b line]
  by (simp_all add: log_buffer_def)

lemma avail_gt:
  assumes "log_buffer lim b" "length line < 2 ^ 31"
  shows "avail b > of_nat (length line) \<longleftrightarrow> length (b_buf b) + length line < unat (b_maxLen b)"
  using assms unat_avail [of b] unat_of_nat_64 [of "length line"]
  by (auto simp: log_buffer_def word_less_nat_alt)

lemma al_append_fields [simp]:
  "toWrite (al_append line s) = toWrite s" "isRuning (al_append line s) = isRuning s"
  "al_file (al_append line s) = al_file s" "in_wait (al_append line s) = in_wait s"
  "newBuffer1 (al_append line s) = newBuffer1 s" "newBuffer2 (al_append line s) = newBuffer2 s"
  by (simp_all add: al_append_def Let_def)

lemma append_inv:
  assumes "al_inv lim s" "length line < 2 ^ 31" "lim \<le> 50000"
  shows "al_inv lim (al_append line s)"
    "length line \<le> lim \<Longrightarrow> pending (al_append line s) = pending s @ line"
proof -
  have b: "log_buffer lim (currentBuf s)" using assms(1) by (simp add: al_inv_def)
  let ?fresh = "case nextBuf s of Some b \<Rightarrow> b | None \<Rightarrow> new_buffer_max maxBuffSize"
  have f: "log_buffer lim ?fresh" "b_buf ?fresh = []"
    using assms(1) log_buffer_block [OF assms(3)] log_buffer_new(2)
    by (cases "nextBuf s"; simp add: al_inv_def)+
  then have "length line \<le> lim \<Longrightarrow> length (b_buf ?fresh) + length line \<le> unat (b_maxLen ?fresh)"
    by (simp add: log_buffer_def)
  note w = append_log_buffer [OF b assms(2)] append_log_buffer [OF f(1) assms(2)] this
  show "al_inv lim (al_append line s)"
    using assms(1) w(1,3)
    by (cases "toWrite s"; simp add: al_inv_def) (simp_all add: al_append_def Let_def)
  show "pending (al_append line s) = pending s @ line" if "length line \<le> lim"
  proof (cases "avail (currentBuf s) > of_nat (length line)")
    case True
    with avail_gt [OF b assms(2)] w(2) show ?thesis
      by (simp add: pending_def) (simp add: al_append_def)
  next
    case False
    with w(4) w(5) [OF that] f(2) show ?thesis
      by (simp add: pending_def) (simp add: al_append_def Let_def)
  qed
qed

lemma enter_inv:
  assumes "al_inv lim s" "toWrite s = None"
  shows "al_enter s = Inr (s\<lparr>in_wait := True\<rparr>)" "al_inv lim (s\<lparr>in_wait := True\<rparr>)"
  using assms
  by (auto simp: al_enter_def empty_buffer_def buffer_size_def al_inv_def)

lemma swap_inv:
  assumes "al_inv lim s" "in_wait s"
  shows "\<exists>s'. al_swap s = Inr s' \<and> al_inv lim s' \<and> al_file s' = al_file s \<and> isRuning s' = isRuning s \<and>
    pending s' = pending s \<and> toWrite s' = Some (al_buffers s @ [currentBuf s])"
proof -
  have t: "toWrite s = None" using assms by (auto simp: al_inv_def split: option.splits)
  then obtain a b where ab: "newBuffer1 s = Some a" "newBuffer2 s = Some b"
    using assms by (auto simp: al_inv_def)
  have e: "b_buf a = []" "b_buf b = []" "log_buffer lim a" "log_buffer lim b"
    using assms(1) ab by (simp_all add: al_inv_def)
  show ?thesis
    using assms ab e t
    by (cases "nextBuf s"; cases "al_buffers s") (simp_all add: al_swap_def al_inv_def pending_def)
qed

lemma take2: "let bs2 = (if length bs > 2 then take 2 bs else bs) in
    length bs2 = min 2 (length bs) \<and> (list_all P bs \<longrightarrow> list_all P bs2)"
  by (auto simp: Let_def list_all_iff dest: in_set_takeD)

definition written :: "buffer list \<Rightarrow> string" where
  "written bs = concat (map b_buf (if length bs > 25 then take 2 bs else bs))"

lemma refill_some: "refill (Some b) bs = Inr (Some b, bs)"
  by (simp add: refill_def)

lemma refill_none:
  assumes "list_all (log_buffer lim) bs" "bs \<noteq> []"
  shows "\<exists>b. refill None bs = Inr (Some b, butlast bs) \<and> blank lim (Some b)"
proof -
  have "log_buffer lim (last bs)" using assms by (simp add: list_all_iff)
  then show ?thesis using assms(2) log_buffer_reset by (simp add: refill_def)
qed

lemma write_inv:
  assumes "al_inv lim s" "toWrite s = Some bs"
  shows "\<exists>s'. al_write bs s = Inr s' \<and> al_inv lim s' \<and> al_file s' = al_file s @ written bs \<and>
    pending s' = concat (map b_buf (al_buffers s)) @ b_buf (currentBuf s)"
proof -
  define bs1 where "bs1 = (if length bs > 25 then take 2 bs else bs)"
  define bs2 where "bs2 = (if length bs1 > 2 then take 2 bs1 else bs1)"
  have bs: "list_all (log_buffer lim) bs" "newBuffer1 s = None"
    "(if newBuffer2 s = None then 2 else 1) \<le> length bs"
    using assms by (simp_all add: al_inv_def)
  have "list_all (log_buffer lim) bs1" "min 2 (length bs1) = min 2 (length bs)"
    using bs(1) by (auto simp: bs1_def list_all_iff dest: in_set_takeD)
  then have l: "list_all (log_buffer lim) bs2" "length bs2 = min 2 (length bs)"
    using take2 [of bs1 "log_buffer lim"] by (simp_all add: bs2_def Let_def)
  then have ne: "bs2 \<noteq> []" "bs \<noteq> []"
    using bs(3) by (auto split: if_splits)
  obtain a where a: "refill (newBuffer1 s) bs2 = Inr (Some a, butlast bs2)" "blank lim (Some a)"
    using refill_none [OF l(1) ne(1)] bs(2) by auto
  have "\<exists>b rest. refill (newBuffer2 s) (butlast bs2) = Inr (Some b, rest) \<and> blank lim (Some b)"
  proof (cases "newBuffer2 s")
    case None
    then have "length (butlast bs2) = 1" using bs(3) l(2) by simp
    then have "butlast bs2 \<noteq> []" by (metis list.size(3) zero_neq_one)
    moreover have "list_all (log_buffer lim) (butlast bs2)"
      using l(1) by (auto simp: list_all_iff dest: in_set_butlastD)
    ultimately show ?thesis using refill_none None by fastforce
  next
    case (Some b)
    then show ?thesis using assms(1) by (simp add: refill_some al_inv_def)
  qed
  then obtain b rest where b: "refill (newBuffer2 s) (butlast bs2) = Inr (Some b, rest)" "blank lim (Some b)"
    by blast
  let ?s = "s\<lparr>newBuffer1 := Some a, newBuffer2 := Some b, toWrite := None, al_file := al_file s @ concat (map buffer_data bs1)\<rparr>"
  have e: "al_write bs s = Inr ?s"
    unfolding al_write_def Let_def bs1_def [symmetric] bs2_def [symmetric] a(1) bind_res.simps prod.case b(1)
    using ne(2) by simp
  have "al_inv lim ?s"
    using assms(1) a(2) b(2) by (simp add: al_inv_def)
  with e show ?thesis
    by (intro exI [of _ ?s]) (simp add: pending_def written_def bs1_def buffer_data_def [abs_def])
qed

section \<open>Runs\<close>

fun appended :: "al_event list \<Rightarrow> string list" where
  "appended [] = []"
| "appended (Append line # es) = line # appended es"
| "appended (e # es) = appended es"

text \<open>No round meets more than 25 buffers.\<close>

fun small_batches :: "al_event list \<Rightarrow> alog \<Rightarrow> bool" where
  "small_batches [] s = True"
| "small_batches (e # es) s =
     ((e = Write \<longrightarrow> (case toWrite s of None \<Rightarrow> True | Some bs \<Rightarrow> length bs \<le> 25)) \<and>
      (case al_step e s of Some (Inr s') \<Rightarrow> small_batches es s' | _ \<Rightarrow> True))"

lemma written_small: "length bs \<le> 25 \<Longrightarrow> written bs = concat (map b_buf bs)"
  by (simp add: written_def)

lemma al_step_inv:
  assumes "al_step e s = Some r" "al_inv lim s" "\<forall>line. e = Append line \<longrightarrow> length line < 2 ^ 31" "lim \<le> 50000"
  shows "\<exists>s'. r = Inr s' \<and> al_inv lim s' \<and>
    (small_batches [e] s \<longrightarrow> (\<forall>line. e = Append line \<longrightarrow> length line \<le> lim) \<longrightarrow>
       al_file s' @ pending s' = al_file s @ pending s @ concat (appended [e]))"
proof (cases e)
  case (Append line)
  with append_inv [OF assms(2) _ assms(4), of line] assms(1,3) show ?thesis by auto
next
  case Enter
  then have "toWrite s = None" "r = al_enter s" using assms(1) by (auto split: if_splits)
  with enter_inv [OF assms(2)] Enter show ?thesis by (simp add: pending_def)
next
  case Swap
  then have "in_wait s" "r = al_swap s" using assms(1) by (auto split: if_splits)
  with swap_inv [OF assms(2)] Swap show ?thesis by auto
next
  case Write
  then obtain bs where bs: "toWrite s = Some bs" "r = al_write bs s"
    using assms(1) by (auto split: option.splits)
  from write_inv [OF assms(2) bs(1)] show ?thesis
    by (auto simp: Write bs pending_def written_small)
next
  case StopLog
  have "al_inv lim (al_stop s)" "pending (al_stop s) = pending s" "al_file (al_stop s) = al_file s"
    using assms(2) by (cases "toWrite s"; simp add: al_stop_def al_inv_def pending_def)+
  with StopLog assms(1) show ?thesis by auto
qed

lemma appended_Cons: "appended (e # es) = appended [e] @ appended es"
  by (cases e) simp_all

lemma al_run_Cons:
  "al_run (e # es) s = Some r \<longleftrightarrow>
     (\<exists>x. al_step e s = Some x \<and> (case x of Inl f \<Rightarrow> r = Inl f | Inr s1 \<Rightarrow> al_run es s1 = Some r))"
  by (auto split: option.splits sum.splits)

lemma al_run_inv:
  assumes "al_run es s = Some r" "al_inv lim s" "\<forall>line \<in> set (appended es). length line < 2 ^ 31" "lim \<le> 50000"
  shows "\<exists>s'. r = Inr s' \<and> al_inv lim s' \<and>
    (small_batches es s \<longrightarrow> (\<forall>line \<in> set (appended es). length line \<le> lim) \<longrightarrow>
       al_file s' @ pending s' = al_file s @ pending s @ concat (appended es))"
  using assms(1-3)
proof (induction es arbitrary: s)
  case (Cons e es)
  obtain x where x: "al_step e s = Some x" using Cons.prems(1) by (auto simp only: al_run_Cons)
  have "\<forall>line. e = Append line \<longrightarrow> length line < 2 ^ 31" using Cons.prems(3) by auto
  from al_step_inv [OF x Cons.prems(2) this assms(4)] obtain s1 where s1: "x = Inr s1" "al_inv lim s1"
    "small_batches [e] s \<Longrightarrow> \<forall>line. e = Append line \<longrightarrow> length line \<le> lim \<Longrightarrow>
       al_file s1 @ pending s1 = al_file s @ pending s @ concat (appended [e])"
    by blast
  have "al_run es s1 = Some r" using Cons.prems(1) x s1(1) by simp
  from Cons.IH [OF this s1(2)] Cons.prems(3) obtain s' where s': "r = Inr s'" "al_inv lim s'"
    "small_batches es s1 \<Longrightarrow> \<forall>line \<in> set (appended es). length line \<le> lim \<Longrightarrow>
       al_file s' @ pending s' = al_file s1 @ pending s1 @ concat (appended es)"
    by (auto simp: appended_Cons [of e es])
  have "al_file s' @ pending s' = al_file s @ pending s @ concat (appended (e # es))"
    if b: "small_batches (e # es) s" and l: "\<forall>line \<in> set (appended (e # es)). length line \<le> lim"
  proof -
    have "al_file s' @ pending s' = (al_file s1 @ pending s1) @ concat (appended es)"
      using s'(3) b l x s1(1) by (simp add: appended_Cons [of e es])
    also have "al_file s1 @ pending s1 = al_file s @ pending s @ concat (appended [e])"
      using b l x s1(1) by (intro s1(3)) auto
    finally show ?thesis by (simp add: appended_Cons [of e es])
  qed
  with s'(1,2) show ?case by blast
qed auto

text \<open>The longest line that every buffer can take.\<close>

definition line_limit :: "64 word \<Rightarrow> nat" where
  "line_limit g = min 50000 (unat g)"

lemma started_inv:
  "al_inv (line_limit g) (started_logger g)" "pending (started_logger g) = []" "al_file (started_logger g) = []"
  using log_buffer_new(1) [of "line_limit g" g] log_buffer_new(2) log_buffer_block [of "line_limit g"]
  by (simp_all add: al_inv_def started_logger_def pending_def line_limit_def)

section \<open>Properties\<close>


definition log_schedule :: "al_event list" where
  "log_schedule = [Append ''one '', Enter, Append ''two '', Swap, Append ''three '', Write, Enter, Swap, Write]"


lemma al_write_fields:
  "al_write bs s = Inr s' \<Longrightarrow> toWrite s' = None \<and> isRuning s' = isRuning s \<and> in_wait s' = in_wait s \<and>
     al_file s' = al_file s @ written bs"
  by (auto simp: al_write_def Let_def bind_res_Inr written_def buffer_data_def [abs_def] split: if_splits)

text \<open>After \<open>stop\<close> a thread that is past its wait writes what it has taken and nothing else.\<close>

lemma stopped_log_run:
  "al_run es s = Some (Inr s') \<Longrightarrow> \<not> isRuning s \<Longrightarrow> \<not> in_wait s \<Longrightarrow>
     al_file s' = al_file s \<or> (\<exists>bs. toWrite s = Some bs \<and> al_file s' = al_file s @ written bs)"
proof (induction es arbitrary: s)
  case (Cons e es)
  then obtain s1 where s1: "al_step e s = Some (Inr s1)" "al_run es s1 = Some (Inr s')"
    by (auto split: option.splits sum.splits)
  show ?case
  proof (cases e)
    case (Append line)
    then have "s1 = al_append line s" using s1(1) by simp
    with Cons.IH [OF s1(2)] Cons.prems(2,3) show ?thesis by simp
  next
    case Write
    then obtain bs where bs: "toWrite s = Some bs" "al_write bs s = Inr s1"
      using s1(1) by (auto split: option.splits)
    with al_write_fields [OF bs(2)] Cons.IH [OF s1(2)] Cons.prems(2,3) show ?thesis by simp
  next
    case StopLog
    then have "s1 = al_stop s" using s1(1) by simp
    with Cons.IH [OF s1(2)] Cons.prems(2,3) show ?thesis by (simp add: al_stop_def)
  qed (use s1 Cons.prems(2,3) in simp_all)
qed auto

text \<open>
  What \<open>stop\<close> loses: if the writing thread is past the swap of its round, it starts no other
  round, so the file gets at most the buffers it has already taken, and whatever was appended after
  that swap is never written, although the thread was stopped in good order.
\<close>

theorem log_stop_loses:
  assumes "al_run es (al_stop s) = Some (Inr s')" "\<not> in_wait s"
  shows "al_file s' = al_file s \<or> (\<exists>bs. toWrite s = Some bs \<and> al_file s' = al_file s @ written bs)"
  using stopped_log_run [OF assms(1)] assms(2) by (simp add: al_stop_def)

theorem log_stop_loses_witness:
  "\<exists>s s'. al_run [Append ''one '', Enter, Swap, Append ''two ''] (started_logger 50000) = Some (Inr s) \<and>
     al_run [Write, Append ''three ''] (al_stop s) = Some (Inr s') \<and> pending s' = ''two three '' \<and>
     (al_file s' = [] \<or> al_file s' = ''one '')"
proof -
  have r: "case al_run [Append ''one '', Enter, Swap, Append ''two ''] (started_logger 50000) of
      Some (Inr s) \<Rightarrow> \<not> in_wait s \<and> al_file s = [] \<and> map_option written (toWrite s) = Some ''one '' \<and>
        (case al_run [Write, Append ''three ''] (al_stop s) of Some (Inr s') \<Rightarrow> pending s' = ''two three '' | _ \<Rightarrow> False)
    | _ \<Rightarrow> False"
    by code_simp
  then obtain s s' where s: "al_run [Append ''one '', Enter, Swap, Append ''two ''] (started_logger 50000) = Some (Inr s)"
    "\<not> in_wait s" "al_file s = []" "map_option written (toWrite s) = Some ''one ''"
    "al_run [Write, Append ''three ''] (al_stop s) = Some (Inr s')" "pending s' = ''two three ''"
    unfolding case_Some_Inr by blast
  with log_stop_loses [OF s(5,2)] show ?thesis by auto
qed

text \<open>
  The constructor sizes its first two buffers with a member that is initialised after them: if
  the memory of \<open>maxBuffSize\<close> holds less than the length of the first log line, that line is
  dropped, even though it is far below the 50000 bytes a buffer is meant to have.
\<close>

theorem first_line_lost:
  assumes "unat g < length line" "length line < 1000000"
  shows "pending (al_append line (started_logger g)) = []"
proof -
  let ?b = "new_buffer_max g"
  have m: "unat (b_maxLen ?b) < length line" "b_buf ?b = []"
    using assms by (auto simp: new_buffer_max_def MAX_BUF_SIZE_def word_less_nat_alt)
  then have "buffer_append ?b line = ?b"
    using buffer_append_eq [OF within_max_new(2), of line g] assms(2) by simp
  moreover have "\<not> avail ?b > of_nat (length line)"
    using m avail_gt [of 0 ?b line] assms(2) within_max_new(2) by (simp add: log_buffer_def)
  ultimately show ?thesis
    using m(2) by (simp add: al_append_def started_logger_def pending_def)
qed

theorem first_line_lost_witness:
  "pending (al_append ''[DEBUG] start'' (started_logger 0)) = []"
  by (rule first_line_lost) simp_all

end
