(* ===== verification/Log.thy ===== *)
theory Log
  imports AsyncLog Config
begin

text \<open>
  \<open>src/common/log\<close>: log levels, the text of a log event, and the macros \<open>DEBUGLOG\<close>, \<open>INFOLOG\<close> and
  \<open>ERRORLOG\<close> with the logger's two sinks, the queue printed at once and the asynchronous log.
\<close>

section \<open>Levels\<close>

datatype log_level = Unknown | Debug | Info | Error

fun level_num :: "log_level \<Rightarrow> nat" where
  "level_num Unknown = 0"
| "level_num Debug = 1"
| "level_num Info = 2"
| "level_num Error = 3"

text \<open>The enumeration is compared by its numbers.\<close>

instantiation log_level :: linorder
begin

definition less_eq_log_level :: "log_level \<Rightarrow> log_level \<Rightarrow> bool" where
  "less_eq_log_level a b \<longleftrightarrow> level_num a \<le> level_num b"

definition less_log_level :: "log_level \<Rightarrow> log_level \<Rightarrow> bool" where
  "less_log_level a b \<longleftrightarrow> level_num a < level_num b"

instance
proof
  fix a b :: log_level
  show "a \<le> b \<Longrightarrow> b \<le> a \<Longrightarrow> a = b"
    by (cases a; cases b) (simp_all add: less_eq_log_level_def)
qed (auto simp: less_eq_log_level_def less_log_level_def)

end

fun LogLevelToString :: "log_level \<Rightarrow> string" where
  "LogLevelToString Debug = ''DEBUG''"
| "LogLevelToString Info = ''INFO''"
| "LogLevelToString Error = ''ERROR''"
| "LogLevelToString Unknown = ''UNKNOWN''"

definition StringToLogLevel :: "string \<Rightarrow> log_level" where
  "StringToLogLevel s =
     (if s = ''DEBUG'' then Debug else if s = ''INFO'' then Info else if s = ''ERROR'' then Error else Unknown)"

section \<open>Log events\<close>

text \<open>
  \<open>common/util\<close>: the process and thread numbers are to be kept in two variables, but nothing assigns
  them, so they stay 0 and every call asks the kernel (\<open>pid\<close>, \<open>tid\<close>).
\<close>

definition g_pid :: nat where "g_pid = 0"
definition g_thread_id :: nat where "g_thread_id = 0"

definition getPid :: "nat \<Rightarrow> nat" where
  "getPid pid = (if g_pid \<noteq> 0 then g_pid else pid)"

definition getThreadId :: "nat \<Rightarrow> nat" where
  "getThreadId tid = (if g_thread_id \<noteq> 0 then g_thread_id else tid)"

lemma ids_asked_each_time [simp]: "getPid pid = pid" "getThreadId tid = tid"
  by (simp_all add: getPid_def getThreadId_def g_pid_def g_thread_id_def)

text \<open>
  \<open>formatString\<close>: \<open>printed\<close> is what \<open>snprintf\<close> makes of format and arguments, \<^const>\<open>None\<close> when it
  answers \<open>-1\<close>. The first call only counts; the second fills the string resized to the count, and its final
  zero falls on the one every \<open>std::string\<close> ends with.
\<close>

definition formatString :: "string option \<Rightarrow> string" where
  "formatString printed =
     (let size = (case printed of None \<Rightarrow> - 1 | Some s \<Rightarrow> int (length s)); result = replicate (nat size) NUL in
      if size > 0 then take (length result) (the printed) else [])"

lemma formatString_eq: "formatString printed = (case printed of None \<Rightarrow> [] | Some s \<Rightarrow> s)"
  by (cases printed) (auto simp: formatString_def)

text \<open>
  \<open>time\<close> is what \<open>strftime\<close> prints for the clock; the microseconds are divided and printed without
  leading zeros.
\<close>

definition toSting :: "log_level \<Rightarrow> string \<Rightarrow> nat \<Rightarrow> nat \<Rightarrow> nat \<Rightarrow> string" where
  "toSting level time usec pid tid =
     ''['' @ LogLevelToString level @ '']'' @ [CHR 0x09] @
     ''['' @ time @ ''.'' @ dec_str (usec div 1000) @ '']'' @ [CHR 0x09] @
     ''['' @ dec_str (getPid pid) @ '':'' @ dec_str (getThreadId tid) @ '']'' @ [CHR 0x09]"

text \<open>The line a macro builds around the formatted message, \<open>printed\<close>.\<close>

definition log_line :: "log_level \<Rightarrow> string \<Rightarrow> nat \<Rightarrow> nat \<Rightarrow> nat \<Rightarrow> string \<Rightarrow> nat \<Rightarrow> string option \<Rightarrow> string" where
  "log_line level time usec pid tid file line printed =
     toSting level time usec pid tid @ ''['' @ file @ '':'' @ dec_str line @ '']'' @ [CHR 0x09] @ formatString printed @ [CHR 0x0A]"

section \<open>The logger\<close>

record logger =
  m_set_level :: log_level
  m_buffer :: "string list"
  asyncLog :: alog

text \<open>\<open>Logger::Init\<close> with a started asynchronous log.\<close>

definition Logger_Init :: "config \<Rightarrow> 64 word \<Rightarrow> logger" where
  "Logger_Init cfg g =
     \<lparr>m_set_level = StringToLogLevel (m_log_level cfg), m_buffer = [], asyncLog = started_logger g\<rparr>"

definition pushlog :: "config \<Rightarrow> string \<Rightarrow> logger \<Rightarrow> logger" where
  "pushlog cfg msg l =
     l\<lparr>m_buffer := (if m_enable_sync_log cfg then m_buffer l @ [msg] else m_buffer l),
       asyncLog := al_append msg (asyncLog l)\<rparr>"

text \<open>\<open>log()\<close>: what it prints, and the logger after it.\<close>

definition flush_log :: "logger \<Rightarrow> string \<times> logger" where
  "flush_log l = (concat (m_buffer l), l\<lparr>m_buffer := []\<rparr>)"

definition LOG :: "config \<Rightarrow> log_level \<Rightarrow> string \<Rightarrow> logger \<Rightarrow> string \<times> logger" where
  "LOG cfg level line l =
     (if m_set_level l \<ge> level then
        let l1 = pushlog cfg line l in
        if m_enable_sync_log cfg then flush_log l1 else ([], l1)
      else ([], l))"

fun log_all :: "config \<Rightarrow> (log_level \<times> string) list \<Rightarrow> logger \<Rightarrow> string \<times> logger" where
  "log_all cfg [] l = ([], l)"
| "log_all cfg ((level, line) # ms) l =
     (let (out, l1) = LOG cfg level line l; (rest, l2) = log_all cfg ms l1 in (out @ rest, l2))"

section \<open>Properties\<close>

lemma level_of_string [simp]: "StringToLogLevel (LogLevelToString l) = l"
  by (cases l) (simp_all add: StringToLogLevel_def)

definition passing :: "log_level \<Rightarrow> (log_level \<times> string) list \<Rightarrow> string list" where
  "passing set_level ms = map snd (filter (\<lambda>(level, _). level \<le> set_level) ms)"

lemma log_all_eq:
  assumes "m_buffer l = []"
  shows "log_all cfg ms l =
    (if m_enable_sync_log cfg then concat (passing (m_set_level l) ms) else [],
     l\<lparr>asyncLog := fold al_append (passing (m_set_level l) ms) (asyncLog l)\<rparr>)"
  using assms
proof (induction ms arbitrary: l)
  case (Cons x ms)
  obtain level line where x: "x = (level, line)" by (cases x)
  define l1 where "l1 = (if level \<le> m_set_level l then l\<lparr>asyncLog := al_append line (asyncLog l)\<rparr> else l)"
  have s: "LOG cfg level line l = (if level \<le> m_set_level l \<and> m_enable_sync_log cfg then line else [], l1)"
    using Cons.prems by (cases l) (auto simp: LOG_def pushlog_def flush_log_def l1_def Let_def)
  have l1: "m_buffer l1 = []" "m_set_level l1 = m_set_level l"
    using Cons.prems by (simp_all add: l1_def)
  show ?case
    using Cons.IH [OF l1(1)] by (auto simp: x s l1(2) passing_def l1_def Let_def)
qed (simp add: passing_def)

text \<open>
  Which messages are logged: for any sequence of messages exactly those whose level is at most the
  configured one reach the asynchronous log, in order, and with the synchronous log switched on the
  same ones are printed. So at level \<open>DEBUG\<close> errors are dropped, at \<open>ERROR\<close> everything is kept, and
  with any other text in the configuration nothing is.
\<close>

theorem log_filter:
  "log_all cfg ms (Logger_Init cfg g) =
     (let lines = map snd (filter (\<lambda>(level, _). level \<le> StringToLogLevel (m_log_level cfg)) ms) in
      (if m_enable_sync_log cfg then concat lines else [],
       (Logger_Init cfg g)\<lparr>asyncLog := fold al_append lines (started_logger g)\<rparr>))"
  using log_all_eq [of "Logger_Init cfg g" cfg ms] by (simp add: Logger_Init_def passing_def Let_def)

text \<open>
  The level in the configuration is read as it is printed, every other text is \<open>Unknown\<close>, and the
  order of levels is the one of the enumeration.
\<close>

theorem log_level_roundtrip:
  "StringToLogLevel (LogLevelToString l) = l \<and>
   (StringToLogLevel s = Unknown \<longleftrightarrow> s \<notin> LogLevelToString ` {Debug, Info, Error}) \<and>
   Unknown < Debug \<and> Debug < Info \<and> Info < (Error :: log_level)"
proof (intro conjI)
  show "StringToLogLevel s = Unknown \<longleftrightarrow> s \<notin> LogLevelToString ` {Debug, Info, Error}"
    by (simp add: StringToLogLevel_def)
qed (simp_all add: less_log_level_def)

end
