(* ===== verification/LogStart.thy ===== *)
theory LogStart
  imports AsyncLog
begin

text \<open>
  \<open>AsyncLogger::start\<close> in \<open>src/common/asynclog\<close>: the caller creates the writing thread and then
  waits, without a predicate, for that thread's notification. \<open>AsyncLog\<close> begins where both are
  through; here are the steps before, as a step relation over the two threads.
\<close>

text \<open>The caller: before the test, with \<open>isRuning_\<close> set, with the thread made, in the wait, returned.\<close>

datatype start_phase = SCall | SSet | SMade | SWait | SReturned

text \<open>The thread: not there, before its \<open>notify_all\<close>, at its loop.\<close>

datatype writer_phase = WNone | WOpening | WLoop

record log_start =
  ls_running :: bool
  ls_caller :: start_phase
  ls_writer :: writer_phase

definition start_called :: "log_start" where
  "start_called = \<lparr>ls_running = False, ls_caller = SCall, ls_writer = WNone\<rparr>"

text \<open>
  The mutex of the wait is held by nobody else, so taking it and blocking are one step. A
  notification reaches a caller that is in the wait and nobody later. The standard allows a wait
  to end spuriously; \<open>spurious\<close> says whether it may here.
\<close>

inductive start_step :: "bool \<Rightarrow> log_start \<Rightarrow> log_start \<Rightarrow> bool" for spurious :: bool where
  again: "ls_caller s = SCall \<Longrightarrow> ls_running s \<Longrightarrow> start_step spurious s (s\<lparr>ls_caller := SReturned\<rparr>)"
| set_running: "ls_caller s = SCall \<Longrightarrow> \<not> ls_running s \<Longrightarrow>
    start_step spurious s (s\<lparr>ls_running := True, ls_caller := SSet\<rparr>)"
| make: "ls_caller s = SSet \<Longrightarrow> start_step spurious s (s\<lparr>ls_caller := SMade, ls_writer := WOpening\<rparr>)"
| wait: "ls_caller s = SMade \<Longrightarrow> start_step spurious s (s\<lparr>ls_caller := SWait\<rparr>)"
| notify: "ls_writer s = WOpening \<Longrightarrow> ls_running s \<Longrightarrow> start_step spurious s (s\<lparr>ls_writer := WLoop,
    ls_caller := (if ls_caller s = SWait then SReturned else ls_caller s)\<rparr>)"
| spurious: "spurious \<Longrightarrow> ls_caller s = SWait \<Longrightarrow> start_step spurious s (s\<lparr>ls_caller := SReturned\<rparr>)"

inductive_cases start_stepE [elim]: "start_step spurious s s'"

abbreviation start_steps :: "bool \<Rightarrow> log_start \<Rightarrow> log_start \<Rightarrow> bool" where
  "start_steps spurious \<equiv> (start_step spurious)\<^sup>*\<^sup>*"

text \<open>The thread is there exactly when the caller has made it, and then \<open>isRuning_\<close> is set.\<close>

definition start_inv :: "log_start \<Rightarrow> bool" where
  "start_inv s \<longleftrightarrow> (ls_running s \<longleftrightarrow> ls_caller s \<noteq> SCall) \<and>
     (ls_writer s = WNone \<longleftrightarrow> ls_caller s = SCall \<or> ls_caller s = SSet)"

lemma start_inv_step: "start_step spurious s s' \<Longrightarrow> start_inv s \<Longrightarrow> start_inv s'"
  by (erule start_stepE) (auto simp: start_inv_def)

lemma start_inv_steps: "start_steps spurious start_called s \<Longrightarrow> start_inv s"
proof (induction rule: rtranclp_induct)
  case base
  show ?case by (simp add: start_called_def start_inv_def)
qed (rule start_inv_step)

text \<open>The notification is over and the caller has not got it.\<close>

definition missed :: "log_start \<Rightarrow> bool" where
  "missed s \<longleftrightarrow> ls_writer s = WLoop \<and> (ls_caller s = SMade \<or> ls_caller s = SWait)"

lemma missed_steps: "start_steps False s s' \<Longrightarrow> missed s \<Longrightarrow> missed s'"
  by (induction rule: rtranclp_induct) (auto simp: missed_def)

text \<open>
  C26. The start of the logger is a race. Its assertion holds in every schedule. If the caller reaches
  its wait before the thread notifies, the notification is the only possible step and \<open>start\<close>
  returns; if the thread is faster, \<open>start\<close> never returns (short of a spurious wake-up), and with it
  the first log line of the program, which starts the logger. Both schedules exist.
\<close>

theorem log_start_race:
  "(\<forall>s. start_steps False start_called s \<longrightarrow>
      (ls_writer s = WOpening \<longrightarrow> ls_running s) \<and>
      (ls_caller s = SWait \<and> ls_writer s = WOpening \<longrightarrow>
         (\<exists>s'. start_step False s s') \<and> (\<forall>s'. start_step False s s' \<longrightarrow> ls_caller s' = SReturned)) \<and>
      (ls_caller s = SMade \<and> ls_writer s = WLoop \<longrightarrow>
         (\<forall>s'. start_steps False s s' \<longrightarrow> ls_caller s' \<noteq> SReturned))) \<and>
    (\<exists>s. start_steps False start_called s \<and> ls_caller s = SWait \<and> ls_writer s = WOpening) \<and>
    (\<exists>s. start_steps False start_called s \<and> ls_caller s = SMade \<and> ls_writer s = WLoop)"
proof (intro conjI allI impI)
  fix s
  assume r: "start_steps False start_called s"
  note inv = start_inv_steps [OF r]
  show "ls_writer s = WOpening \<Longrightarrow> ls_running s" using inv by (auto simp: start_inv_def)
  show "\<exists>s'. start_step False s s'" if "ls_caller s = SWait \<and> ls_writer s = WOpening"
    using that inv start_step.notify [of s False] by (auto simp: start_inv_def)
  show "ls_caller s' = SReturned" if "ls_caller s = SWait \<and> ls_writer s = WOpening" "start_step False s s'" for s'
    using that by auto
  show "ls_caller s' \<noteq> SReturned" if "ls_caller s = SMade \<and> ls_writer s = WLoop" "start_steps False s s'" for s'
    using missed_steps [OF that(2)] that(1) by (auto simp: missed_def)
next
  let ?set = "start_called\<lparr>ls_running := True, ls_caller := SSet\<rparr>"
  let ?made = "?set\<lparr>ls_caller := SMade, ls_writer := WOpening\<rparr>"
  have "start_steps False start_called ?set"
    by (intro r_into_rtranclp start_step.set_running) (simp_all add: start_called_def)
  moreover have "start_step False ?set ?made" by (rule start_step.make) simp
  ultimately have made: "start_steps False start_called ?made" by (rule rtranclp.rtrancl_into_rtrancl)
  have "start_step False ?made (?made\<lparr>ls_caller := SWait\<rparr>)" by (rule start_step.wait) simp
  with made show "\<exists>s. start_steps False start_called s \<and> ls_caller s = SWait \<and> ls_writer s = WOpening"
    by (intro exI [of _ "?made\<lparr>ls_caller := SWait\<rparr>"]) (auto intro: rtranclp.rtrancl_into_rtrancl)
  have "start_step False ?made (?made\<lparr>ls_writer := WLoop, ls_caller := SMade\<rparr>)"
    using start_step.notify [of ?made False] by simp
  with made show "\<exists>s. start_steps False start_called s \<and> ls_caller s = SMade \<and> ls_writer s = WLoop"
    by (intro exI [of _ "?made\<lparr>ls_writer := WLoop, ls_caller := SMade\<rparr>"]) (auto intro: rtranclp.rtrancl_into_rtrancl)
qed

theorem log_start_race_witness:
  "\<exists>s. start_steps False start_called s \<and> (\<forall>s'. start_steps False s s' \<longrightarrow> ls_caller s' \<noteq> SReturned)"
  using log_start_race by blast

end
