(* ===== verification/Singleton.thy ===== *)
theory Singleton
  imports RunDown
begin

text \<open>
  The global objects: \<open>Config::GetGlobalConfig\<close> (with \<open>Config::InitConfig\<close>) and
  \<open>Logger::GetGloballLogger\<close> test a pointer, take a mutex and test again before they make the object;
  \<open>RpcDispatcher::GetRpcDispatcher\<close> tests and makes without a mutex. Each test and each assignment is a
  step, and the calls of several threads interleave; a read or write of the pointer is atomic here
  (the sources use a plain pointer, a data race by the letter of the standard).
\<close>

section \<open>Calls\<close>

text \<open>
  Where a call is: before the first test, at the mutex, before the second test, about to make the object,
  about to release the mutex, about to read the pointer it returns, returned.
\<close>

datatype 'a call_point = CTest | CLock | CTest2 | CMake | CUnlock | CReturn | CDone "'a option"

text \<open>\<open>sg_made\<close> lists the objects made so far.\<close>

record 'a singleton =
  sg_ptr :: "'a option"
  sg_mutex :: "nat option"
  sg_calls :: "'a call_point list"
  sg_made :: "'a list"

definition new_singleton :: "nat \<Rightarrow> 'a singleton" where
  "new_singleton n = \<lparr>sg_ptr = None, sg_mutex = None, sg_calls = replicate n CTest, sg_made = []\<rparr>"

definition goto :: "nat \<Rightarrow> 'a call_point \<Rightarrow> 'a singleton \<Rightarrow> 'a singleton" where
  "goto i x s = s\<lparr>sg_calls := (sg_calls s)[i := x]\<rparr>"

text \<open>A step of call \<open>i\<close>; the object it would make is \<open>mk i\<close>.\<close>

definition get_locked :: "(nat \<Rightarrow> 'a) \<Rightarrow> nat \<Rightarrow> 'a singleton \<Rightarrow> 'a singleton option" where
  "get_locked mk i s =
     (if i < length (sg_calls s) then
        (case sg_calls s ! i of
           CTest \<Rightarrow> Some (goto i (if sg_ptr s = None then CLock else CReturn) s)
         | CLock \<Rightarrow> if sg_mutex s = None then Some (goto i CTest2 (s\<lparr>sg_mutex := Some i\<rparr>)) else None
         | CTest2 \<Rightarrow> Some (goto i (if sg_ptr s = None then CMake else CUnlock) s)
         | CMake \<Rightarrow> Some (goto i CUnlock (s\<lparr>sg_ptr := Some (mk i), sg_made := sg_made s @ [mk i]\<rparr>))
         | CUnlock \<Rightarrow> Some (goto i CReturn (s\<lparr>sg_mutex := None\<rparr>))
         | CReturn \<Rightarrow> Some (goto i (CDone (sg_ptr s)) s)
         | CDone r \<Rightarrow> None)
      else None)"

definition get_unlocked :: "(nat \<Rightarrow> 'a) \<Rightarrow> nat \<Rightarrow> 'a singleton \<Rightarrow> 'a singleton option" where
  "get_unlocked mk i s =
     (if i < length (sg_calls s) then
        (case sg_calls s ! i of
           CTest \<Rightarrow> Some (goto i (if sg_ptr s = None then CMake else CReturn) s)
         | CMake \<Rightarrow> Some (goto i CReturn (s\<lparr>sg_ptr := Some (mk i), sg_made := sg_made s @ [mk i]\<rparr>))
         | CReturn \<Rightarrow> Some (goto i (CDone (sg_ptr s)) s)
         | _ \<Rightarrow> None)
      else None)"

text \<open>
  The two uses of the locked form. \<open>GetGlobalConfig\<close> makes the configuration with the constructor without
  arguments, \<open>InitConfig\<close> the one from a file, under the same pointer and mutex (what a call of \<open>InitConfig\<close>
  would return is not looked at).
\<close>

datatype 'f config_call = GetGlobalConfig | InitConfig 'f

definition config_by :: "'a \<Rightarrow> ('f \<Rightarrow> 'a) \<Rightarrow> 'f config_call \<Rightarrow> 'a" where
  "config_by builtin from_file c = (case c of GetGlobalConfig \<Rightarrow> builtin | InitConfig f \<Rightarrow> from_file f)"

definition config_step :: "'a \<Rightarrow> ('f \<Rightarrow> 'a) \<Rightarrow> 'f config_call list \<Rightarrow> nat \<Rightarrow> 'a singleton \<Rightarrow> 'a singleton option" where
  "config_step builtin from_file calls = get_locked (\<lambda>i. config_by builtin from_file (calls ! i))"

definition GetGloballLogger :: "'a \<Rightarrow> nat \<Rightarrow> 'a singleton \<Rightarrow> 'a singleton option" where
  "GetGloballLogger logger = get_locked (\<lambda>_. logger)"

definition GetRpcDispatcher :: "(nat \<Rightarrow> 'a) \<Rightarrow> nat \<Rightarrow> 'a singleton \<Rightarrow> 'a singleton option" where
  "GetRpcDispatcher mk = get_unlocked mk"

section \<open>With the mutex\<close>

fun inside :: "'a call_point \<Rightarrow> bool" where
  "inside x \<longleftrightarrow> x = CTest2 \<or> x = CMake \<or> x = CUnlock"

text \<open>What a call at a point knows of the pointer.\<close>

fun knows :: "'a call_point \<Rightarrow> 'a option \<Rightarrow> bool" where
  "knows CMake p \<longleftrightarrow> p = None"
| "knows CUnlock p \<longleftrightarrow> p \<noteq> None"
| "knows CReturn p \<longleftrightarrow> p \<noteq> None"
| "knows (CDone r) p \<longleftrightarrow> r = p \<and> p \<noteq> None"
| "knows _ p \<longleftrightarrow> True"

definition sg_inv :: "(nat \<Rightarrow> 'a) \<Rightarrow> nat \<Rightarrow> 'a singleton \<Rightarrow> bool" where
  "sg_inv mk n s \<longleftrightarrow> length (sg_calls s) = n \<and> (\<forall>i. sg_mutex s = Some i \<longrightarrow> i < n) \<and>
     (\<forall>i < n. inside (sg_calls s ! i) \<longleftrightarrow> sg_mutex s = Some i) \<and>
     (\<forall>i < n. knows (sg_calls s ! i) (sg_ptr s)) \<and>
     sg_made s = (case sg_ptr s of None \<Rightarrow> [] | Some x \<Rightarrow> [x]) \<and> set (sg_made s) \<subseteq> mk ` {..<n}"

fun calls_left :: "'a call_point \<Rightarrow> nat" where
  "calls_left CTest = 6"
| "calls_left CLock = 5"
| "calls_left CTest2 = 4"
| "calls_left CMake = 3"
| "calls_left CUnlock = 2"
| "calls_left CReturn = 1"
| "calls_left (CDone r) = 0"

definition sg_left :: "'a singleton \<Rightarrow> nat" where
  "sg_left s = sum_list (map calls_left (sg_calls s))"

definition all_returned :: "'a singleton \<Rightarrow> bool" where
  "all_returned s \<longleftrightarrow> (\<forall>x \<in> set (sg_calls s). \<exists>r. x = CDone r)"

lemma sg_inv_new: "sg_inv mk n (new_singleton n)"
  by (simp add: sg_inv_def new_singleton_def)

lemma get_locked_cases:
  assumes "get_locked mk i s = Some s'"
  shows "\<exists>x p m k. s' = \<lparr>sg_ptr = p, sg_mutex = m, sg_calls = (sg_calls s)[i := x], sg_made = k\<rparr> \<and> i < length (sg_calls s) \<and>
    calls_left x < calls_left (sg_calls s ! i)"
  using assms
  by (cases s) (auto simp: get_locked_def goto_def split: if_splits call_point.splits)

lemma get_locked_left:
  assumes "get_locked mk i s = Some s'"
  shows "sg_left s' < sg_left s"
proof -
  obtain x where x: "sg_calls s' = (sg_calls s)[i := x]" "i < length (sg_calls s)" "calls_left x < calls_left (sg_calls s ! i)"
    using get_locked_cases [OF assms] by auto
  have "sum_list (map calls_left (sg_calls s)) + calls_left x =
      sum_list (map calls_left ((sg_calls s)[i := x])) + calls_left (sg_calls s ! i)"
    using sum_list_update_add [OF x(2), of calls_left x] by simp
  with x show ?thesis by (simp add: sg_left_def)
qed

lemma knows_later: "knows x None \<Longrightarrow> \<not> inside x \<Longrightarrow> knows x p"
  by (cases x) simp_all

text \<open>One call moves on; the rest of the invariant is about the others.\<close>

lemma sg_inv_goto:
  assumes "sg_inv mk n s" "i < n" "sg_calls s' = (sg_calls s)[i := x]"
    and "sg_mutex s' = (if inside x then Some i else if sg_mutex s = Some i then None else sg_mutex s)"
    and "inside x \<Longrightarrow> sg_mutex s = None \<or> sg_mutex s = Some i" "knows x (sg_ptr s')"
    and "sg_ptr s' = sg_ptr s \<and> sg_made s' = sg_made s \<or>
      sg_mutex s = Some i \<and> sg_ptr s = None \<and> sg_ptr s' = Some (mk i) \<and> sg_made s' = sg_made s @ [mk i]"
  shows "sg_inv mk n s'"
proof -
  have c: "sg_calls s' ! j = (if j = i then x else sg_calls s ! j)" if "j < n" for j
    using assms(1,3) that by (simp add: sg_inv_def nth_update_if)
  have "knows (sg_calls s ! j) (sg_ptr s')" if "j < n" "j \<noteq> i" for j
  proof -
    have "knows (sg_calls s ! j) (sg_ptr s)" "inside (sg_calls s ! j) \<longleftrightarrow> sg_mutex s = Some j"
      using assms(1) that(1) by (simp_all add: sg_inv_def del: inside.simps)
    then show ?thesis using assms(7) that(2) knows_later by (metis option.inject)
  qed
  moreover have "inside (sg_calls s' ! j) \<longleftrightarrow> sg_mutex s' = Some j" if "j < n" for j
    using assms(1,4,5) that by (auto simp: sg_inv_def c simp del: inside.simps)
  ultimately show ?thesis
    using assms(1-4,6,7) c by (auto simp: sg_inv_def simp del: inside.simps split: if_splits)
qed

lemma get_locked_inv:
  assumes "sg_inv mk n s" "get_locked mk i s = Some s'"
  shows "sg_inv mk n s'"
proof -
  have i: "i < n" using assms by (auto simp: sg_inv_def get_locked_def split: if_splits)
  have h: "inside (sg_calls s ! i) \<longleftrightarrow> sg_mutex s = Some i" "knows (sg_calls s ! i) (sg_ptr s)"
    using assms(1) i by (simp_all add: sg_inv_def del: inside.simps)
  show ?thesis
    using assms(2) h
    by (auto simp: get_locked_def goto_def split: if_splits call_point.splits intro!: sg_inv_goto [OF assms(1) i])
qed

lemma get_locked_progress:
  assumes "sg_inv mk n s" "\<not> all_returned s"
  shows "\<exists>i s'. get_locked mk i s = Some s'"
proof (cases "sg_mutex s")
  case None
  from assms(2) obtain i where i: "i < length (sg_calls s)" "\<nexists>r. sg_calls s ! i = CDone r"
    by (auto simp: all_returned_def in_set_conv_nth)
  then show ?thesis
    using None by (intro exI [of _ i]) (auto simp: get_locked_def split: call_point.splits)
next
  case (Some i)
  then have "i < length (sg_calls s)" "inside (sg_calls s ! i)"
    using assms(1) by (auto simp: sg_inv_def simp del: inside.simps)
  then show ?thesis
    by (intro exI [of _ i]) (auto simp: get_locked_def split: call_point.splits)
qed

interpretation locked: runs_down "get_locked mk" "sg_inv mk n" all_returned sg_left for mk n
  by unfold_locales (use get_locked_inv get_locked_left get_locked_progress in blast)+

section \<open>Properties\<close>


text \<open>
  Without it two threads that ask for the dispatcher at the same time can each make one, and a service
  the first of them registers is then in an object nobody else will see.
\<close>

theorem dispatcher_made_twice:
  "\<exists>s. steps (GetRpcDispatcher mk) [0, 1, 0, 0, 1, 1] (new_singleton 2) = Some s \<and>
     sg_made s = [mk 0, mk 1] \<and> sg_calls s = [CDone (Some (mk 0)), CDone (Some (mk 1))] \<and> sg_ptr s = Some (mk 1)"
  by (simp add: GetRpcDispatcher_def new_singleton_def get_unlocked_def goto_def eval_nat_numeral)

text \<open>
  Whichever thread is first decides: when \<open>GetGlobalConfig\<close> is called (a log line is enough, its level comes
  from there) before or while \<open>InitConfig\<close> is, the default configuration can be the one that stays, and the
  file is ignored without a word.
\<close>

theorem init_config_ignored:
  "\<exists>s. steps (config_step builtin from_file [GetGlobalConfig, InitConfig f]) [0, 1, 0, 0, 0, 0, 0, 1, 1, 1, 1] (new_singleton 2) = Some s \<and>
     sg_made s = [builtin] \<and> sg_calls s = [CDone (Some builtin), CDone (Some builtin)]"
  by (simp add: config_step_def config_by_def new_singleton_def get_locked_def goto_def eval_nat_numeral)


end
