(* ===== verification/Closure.thy ===== *)
theory Closure
  imports Prelude
begin

text \<open>
  \<open>src/server/Rpc/rpc_closure.h\<close> and \<open>rpc_interface\<close>: the closure of a call, which turns exceptions of
  its callback into an error of its interface, and the interface, whose destructor replies and then
  deletes the four objects it owns. What a callback does to the program's state, and \<open>setError\<close>, which
  is pure virtual, are arguments.
\<close>

section \<open>The closure\<close>

datatype cb_outcome = Returns | StdException | OtherException

text \<open>\<open>m_rpc_interface\<close> is the shared pointer, by the name of the interface it holds.\<close>

record ('i, 'w) closure =
  m_rpc_interface :: "'i option"
  m_cb :: "('w \<Rightarrow> cb_outcome \<times> 'w) option"

definition handle_exception :: "('i \<Rightarrow> int \<Rightarrow> string \<Rightarrow> 'w \<Rightarrow> 'w) \<Rightarrow> string \<Rightarrow> ('i, 'w) closure \<Rightarrow> 'w \<Rightarrow>
    ('i, 'w) closure \<times> 'w" where
  "handle_exception setError what c w =
     (case m_rpc_interface c of
        None \<Rightarrow> (c, w)
      | Some i \<Rightarrow> (c\<lparr>m_rpc_interface := None\<rparr>, setError i (- 1) what w))"

definition Run :: "('i \<Rightarrow> int \<Rightarrow> string \<Rightarrow> 'w \<Rightarrow> 'w) \<Rightarrow> ('i, 'w) closure \<Rightarrow> 'w \<Rightarrow> ('i, 'w) closure \<times> 'w" where
  "Run setError c w =
     (let (outcome, w1) = (case m_cb c of None \<Rightarrow> (Returns, w) | Some cb \<Rightarrow> cb w) in
      case outcome of
        Returns \<Rightarrow> (if m_rpc_interface c \<noteq> None then (c\<lparr>m_rpc_interface := None\<rparr>, w1) else (c, w1))
      | StdException \<Rightarrow> handle_exception setError ''unkonwn std::exception'' c w1
      | OtherException \<Rightarrow> handle_exception setError ''unkonwn exception'' c w1)"

section \<open>The interface\<close>

text \<open>The four pointers are addresses; \<open>delete\<close> of an address that is not live is undefined.\<close>

record interface =
  m_req_base :: "nat option"
  m_rsp_base :: "nat option"
  m_done :: "nat option"
  m_controller :: "nat option"

definition delete_ptr :: "nat option \<Rightarrow> nat set \<Rightarrow> nat set res" where
  "delete_ptr p live =
     (case p of None \<Rightarrow> Inr live | Some a \<Rightarrow> if a \<in> live then Inr (live - {a}) else Inl BadWrite)"

definition destroy :: "interface \<times> nat set \<Rightarrow> (interface \<times> nat set) res" where
  "destroy = (\<lambda>(i, live).
     bind_res (delete_ptr (m_req_base i) live) (\<lambda>l1.
     bind_res (delete_ptr (m_rsp_base i) l1) (\<lambda>l2.
     bind_res (delete_ptr (m_done i) l2) (\<lambda>l3.
     bind_res (delete_ptr (m_controller i) l3) (\<lambda>l4.
       Inr (\<lparr>m_req_base = None, m_rsp_base = None, m_done = None, m_controller = None\<rparr>, l4))))))"

text \<open>\<open>reply\<close> runs the closure \<open>m_done\<close> points to; \<open>run\<close> is that call.\<close>

definition interface_reply :: "(nat \<Rightarrow> 'w \<Rightarrow> 'w) \<Rightarrow> interface \<Rightarrow> 'w \<Rightarrow> 'w" where
  "interface_reply run i w = (case m_done i of None \<Rightarrow> w | Some a \<Rightarrow> run a w)"

definition destruct_interface :: "(nat \<Rightarrow> 'w \<Rightarrow> 'w) \<Rightarrow> interface \<times> nat set \<Rightarrow> 'w \<Rightarrow> ((interface \<times> nat set) \<times> 'w) res" where
  "destruct_interface run s w = bind_res (destroy s) (\<lambda>s'. Inr (s', interface_reply run (fst s) w))"

section \<open>Properties\<close>

definition owned :: "interface \<Rightarrow> nat list" where
  "owned i = concat (map (\<lambda>p. case p of None \<Rightarrow> [] | Some a \<Rightarrow> [a]) [m_req_base i, m_rsp_base i, m_done i, m_controller i])"

text \<open>
  The closure of a call: whatever the callback does, \<open>Run\<close> lets no exception out and gives up its
  reference to the interface; the interface gets error -1 exactly when the callback threw.
\<close>

theorem closure_run:
  "Run setError c w =
     (c\<lparr>m_rpc_interface := None\<rparr>,
      let (outcome, w1) = (case m_cb c of None \<Rightarrow> (Returns, w) | Some cb \<Rightarrow> cb w) in
      case m_rpc_interface c of
        None \<Rightarrow> w1
      | Some i \<Rightarrow>
          (case outcome of
             Returns \<Rightarrow> w1
           | StdException \<Rightarrow> setError i (- 1) ''unkonwn std::exception'' w1
           | OtherException \<Rightarrow> setError i (- 1) ''unkonwn exception'' w1))"
  by (cases c; cases "m_rpc_interface c")
    (auto simp: Run_def handle_exception_def Let_def split: cb_outcome.split prod.split)

text \<open>
  The destructor of an interface: with four live, pairwise different objects it deletes each of
  them once and replies once; an object in two roles, or one that is gone already, is deleted
  twice, which is undefined.
\<close>

theorem interface_destroyed:
  "destruct_interface run (i, live) w =
     (if distinct (owned i) \<and> set (owned i) \<subseteq> live then
        Inr ((\<lparr>m_req_base = None, m_rsp_base = None, m_done = None, m_controller = None\<rparr>, live - set (owned i)),
             interface_reply run i w)
      else Inl BadWrite)"
  by (cases "m_req_base i"; cases "m_rsp_base i"; cases "m_done i"; cases "m_controller i")
    (auto simp: destruct_interface_def destroy_def delete_ptr_def owned_def)

end
