(* ===== verification/DistLock.thy ===== *)
theory DistLock
  imports StdMap ZkClient
begin

text \<open>
  \<open>src/common/DistributedReadWriteLock\<close>: a read-write lock over sequential ephemeral nodes. What
  ZooKeeper answers is an argument: the path \<open>zoo_create\<close> makes, and one record per iteration of the
  waiting loop.
\<close>

section \<open>State\<close>

record dlock =
  m_lock_name :: string
  isWriteLock :: bool
  min_write_node_deleted :: bool
  min_read_node_deleted :: bool
  min_write_node_path :: string
  min_read_node_path :: string
  read_lock_node_name :: string
  write_lock_node_name :: string

definition new_dlock :: "string \<Rightarrow> dlock" where
  "new_dlock lock_name = \<lparr>m_lock_name = ''/'' @ lock_name, isWriteLock = False,
     min_write_node_deleted = False, min_read_node_deleted = False,
     min_write_node_path = [], min_read_node_path = [],
     read_lock_node_name = [], write_lock_node_name = []\<rparr>"

text \<open>
  One iteration: the children (\<^const>\<open>None\<close> is an answer other than \<open>ZOK\<close>), the answer of \<open>zoo_get\<close>
  with a watch, and whether the watcher sets the flag of the condition variable by the time of the
  wait.
\<close>

record lock_round =
  children :: "string list option"
  get_ret :: "string \<Rightarrow> zk_ret"
  woken :: bool

section \<open>Writing\<close>

text \<open>The element before the first occurrence of \<open>self\<close>, which is not the head.\<close>

fun node_before :: "string \<Rightarrow> string list \<Rightarrow> string option" where
  "node_before self (a # b # cs) = (if b = self then Some a else node_before self (b # cs))"
| "node_before self cs = None"

text \<open>
  The \<open>do\<close> loop of \<open>lock_write\<close>; \<^const>\<open>None\<close>: it waits for ever, or the rounds are used up.
\<close>

fun lock_write_loop :: "lock_round list \<Rightarrow> string \<Rightarrow> dlock \<Rightarrow> dlock res option" where
  "lock_write_loop [] self d = None"
| "lock_write_loop (r # rs) self d =
     (case children r of
        None \<Rightarrow> Some (Inl Exit)
      | Some cs \<Rightarrow>
          if cs = [] then Some (Inl Exit)
          else let all_children = sort cs; d1 = d\<lparr>isWriteLock := True\<rparr> in
            if hd all_children = self then Some (Inr d1)
            else let min_node_path = (case node_before self all_children of
                   None \<Rightarrow> [] | Some c \<Rightarrow> m_lock_name d @ ''/'' @ c) in
              case get_ret r min_node_path of
                ZNONODE \<Rightarrow> lock_write_loop rs self d1
              | ZOK \<Rightarrow> Some (Inl Exit)
              | _ \<Rightarrow>
                let d2 = d1\<lparr>min_read_node_path := min_node_path,
                            min_read_node_deleted := min_read_node_deleted d1 \<or> woken r\<rparr> in
                if min_read_node_deleted d2 then lock_write_loop rs self d2 else None)"

text \<open>\<open>created\<close> is the path \<open>zoo_create\<close> stores for the path it is given, \<^const>\<open>None\<close> a failure.\<close>

definition self_node_name :: "string \<Rightarrow> dlock \<Rightarrow> string res" where
  "self_node_name self_node_path d =
     (if length (m_lock_name d) \<le> length self_node_path
      then Inr (drop (length (m_lock_name d)) self_node_path) else Inl LengthError)"

definition lock_write :: "(string \<Rightarrow> string option) \<Rightarrow> lock_round list \<Rightarrow> dlock \<Rightarrow> dlock res option" where
  "lock_write created rs d =
     (case created (m_lock_name d @ ''/'' @ ''write_'') of
        None \<Rightarrow> Some (Inl Exit)
      | Some path \<Rightarrow>
        (case self_node_name path d of
           Inl f \<Rightarrow> Some (Inl f)
         | Inr self \<Rightarrow>
             map_option (\<lambda>r. bind_res r (\<lambda>d'. Inr (d'\<lparr>write_lock_node_name := self\<rparr>)))
               (lock_write_loop rs self d)))"

section \<open>Reading\<close>

text \<open>The code takes the position as a truth value, and \<open>npos\<close> is not zero.\<close>

fun first_hit :: "string \<Rightarrow> string list \<Rightarrow> string option" where
  "first_hit self [] = None"
| "first_hit self (c # cs) =
     (if c = self then None else if str_find ''write_'' c \<noteq> Some 0 then Some c else first_hit self cs)"

fun lock_read_loop :: "lock_round list \<Rightarrow> string \<Rightarrow> dlock \<Rightarrow> dlock res option" where
  "lock_read_loop [] self d = None"
| "lock_read_loop (r # rs) self d =
     (case children r of
        None \<Rightarrow> Some (Inl Exit)
      | Some cs \<Rightarrow>
          if cs = [] then Some (Inl Exit)
          else let all_children = sort cs in
            if hd all_children = self then Some (Inr d)
            else let (min_node_path, d1) = (case first_hit self all_children of
                   None \<Rightarrow> ([], d) | Some c \<Rightarrow> (m_lock_name d @ ''/'' @ c, d\<lparr>isWriteLock := True\<rparr>)) in
              if \<not> isWriteLock d1 then Some (Inr d1)
              else case get_ret r min_node_path of
                ZNONODE \<Rightarrow> lock_read_loop rs self d1
              | ZOK \<Rightarrow> Some (Inl Exit)
              | _ \<Rightarrow>
                let d2 = d1\<lparr>min_write_node_path := min_node_path,
                            min_write_node_deleted := min_write_node_deleted d1 \<or> woken r\<rparr> in
                if min_write_node_deleted d2 then lock_read_loop rs self d2 else None)"

definition lock_read :: "(string \<Rightarrow> string option) \<Rightarrow> lock_round list \<Rightarrow> dlock \<Rightarrow> dlock res option" where
  "lock_read created rs d =
     (case created (m_lock_name d @ ''/'' @ ''read_'') of
        None \<Rightarrow> Some (Inl Exit)
      | Some path \<Rightarrow>
        (case self_node_name path d of
           Inl f \<Rightarrow> Some (Inl f)
         | Inr self \<Rightarrow>
             map_option (\<lambda>r. bind_res r (\<lambda>d'. Inr (d'\<lparr>read_lock_node_name := self\<rparr>)))
               (lock_read_loop rs self d)))"

section \<open>Unlocking\<close>

definition unlock_write :: "(string \<Rightarrow> zk_ret) \<Rightarrow> dlock \<Rightarrow> dlock res" where
  "unlock_write zoo_delete d =
     (if zoo_delete (m_lock_name d @ ''/'' @ write_lock_node_name d) \<noteq> ZOK then Inl Exit
      else Inr (d\<lparr>isWriteLock := False\<rparr>))"

definition unlock_read :: "(string \<Rightarrow> zk_ret) \<Rightarrow> dlock \<Rightarrow> dlock res" where
  "unlock_read zoo_delete d =
     (if zoo_delete (m_lock_name d @ ''/'' @ read_lock_node_name d) \<noteq> ZOK then Inl Exit else Inr d)"

section \<open>The own node is never found\<close>

text \<open>
  The name of the own node is cut off behind the lock's name, not behind the slash that follows it,
  so it starts with a slash, which no child's name does.
\<close>

lemma self_node_name_slash: "self_node_name (m_lock_name d @ ''/'' @ s) d = Inr (CHR ''/'' # s)"
  by (simp add: self_node_name_def)

definition plain_names :: "lock_round list \<Rightarrow> bool" where
  "plain_names rs \<longleftrightarrow> (\<forall>r \<in> set rs. \<forall>cs. children r = Some cs \<longrightarrow> (\<forall>c \<in> set cs. CHR ''/'' \<notin> set c))"

lemma hd_sort_in: "cs \<noteq> [] \<Longrightarrow> hd (sort cs) \<in> set (cs :: string list)"
  by (metis hd_in_set set_empty set_sort)

lemma hd_not_self: "cs \<noteq> [] \<Longrightarrow> \<forall>c \<in> set cs. CHR ''/'' \<notin> set c \<Longrightarrow> hd (sort cs) \<noteq> CHR ''/'' # s"
  using hd_sort_in [of cs] by force

lemma node_before_notin: "self \<notin> set cs \<Longrightarrow> node_before self cs = None"
  by (induction self cs rule: node_before.induct) auto

lemma write_loop_never:
  assumes "plain_names rs"
  shows "lock_write_loop rs (CHR ''/'' # s) d \<in> {None, Some (Inl Exit)}"
  using assms
proof (induction rs arbitrary: d)
  case (Cons r rs)
  then have IH: "lock_write_loop rs (CHR ''/'' # s) d' \<in> {None, Some (Inl Exit)}" for d'
    by (simp add: plain_names_def)
  show ?case
  proof (cases "children r")
    case (Some cs)
    then have "cs \<noteq> [] \<Longrightarrow> hd (sort cs) \<noteq> CHR ''/'' # s"
      using Cons.prems by (intro hd_not_self) (auto simp: plain_names_def)
    then show ?thesis
      using Some IH by (auto simp: Let_def split: zk_ret.splits)
  qed simp
qed simp

lemma first_hit_some:
  "self \<notin> set cs \<Longrightarrow> c \<in> set cs \<Longrightarrow> str_find ''write_'' c \<noteq> Some 0 \<Longrightarrow>
     \<exists>x \<in> set cs. first_hit self cs = Some x"
  by (induction cs) auto

lemma read_not_write: "str_find ''write_'' (''read_'' @ s) \<noteq> Some 0"
  by simp

definition has_child :: "string \<Rightarrow> lock_round list \<Rightarrow> bool" where
  "has_child c rs \<longleftrightarrow> (\<forall>r \<in> set rs. \<forall>cs. children r = Some cs \<longrightarrow> c \<in> set cs)"

lemma read_loop_never:
  assumes "plain_names rs" "has_child (''read_'' @ s) rs"
  shows "lock_read_loop rs (CHR ''/'' # ''read_'' @ s) d \<in> {None, Some (Inl Exit)}"
  using assms
proof (induction rs arbitrary: d)
  case (Cons r rs)
  let ?self = "CHR ''/'' # ''read_'' @ s"
  have IH: "lock_read_loop rs ?self d' \<in> {None, Some (Inl Exit)}" for d'
    using Cons by (simp add: plain_names_def has_child_def)
  show ?case
  proof (cases "children r")
    case (Some cs)
    have cs: "\<forall>c \<in> set cs. CHR ''/'' \<notin> set c" "''read_'' @ s \<in> set cs"
      using Cons.prems Some by (auto simp: plain_names_def has_child_def)
    then have "cs \<noteq> [] \<Longrightarrow> hd (sort cs) \<noteq> ?self" by (intro hd_not_self)
    moreover have "?self \<notin> set (sort cs)" using cs(1) by auto
    then obtain x where "first_hit ?self (sort cs) = Some x"
      using first_hit_some [of ?self "sort cs", OF _ _ read_not_write] cs(2) by auto
    ultimately show ?thesis
      using Some IH by (auto simp: Let_def split: zk_ret.splits)
  qed simp
qed simp

section \<open>Properties\<close>

text \<open>
  C38. Neither lock is ever acquired: with sequential nodes created below the lock's own (and, for a
  reader, present among the children), whatever the children, the answers of \<open>zoo_get\<close> and the
  watcher do in any number of rounds, \<open>lock_write\<close> and \<open>lock_read\<close> end the process or do not return.
\<close>

theorem locks_never_acquired:
  assumes "created (m_lock_name d @ ''/'' @ ''write_'') = Some (m_lock_name d @ ''/'' @ ''write_'' @ s)"
    and "created (m_lock_name d @ ''/'' @ ''read_'') = Some (m_lock_name d @ ''/'' @ ''read_'' @ t)"
    and "plain_names rs"
  shows "lock_write created rs d \<in> {None, Some (Inl Exit)} \<and>
    (has_child (''read_'' @ t) rs \<longrightarrow> lock_read created rs d \<in> {None, Some (Inl Exit)})"
proof (intro conjI impI)
  show "lock_write created rs d \<in> {None, Some (Inl Exit)}"
    using write_loop_never [OF assms(3), of "''write_'' @ s" d] assms(1)
      self_node_name_slash [of d "''write_'' @ s"]
    by (auto simp: lock_write_def)
next
  assume "has_child (''read_'' @ t) rs"
  from read_loop_never [OF assms(3) this, of d] assms(2) self_node_name_slash [of d "''read_'' @ t"]
  show "lock_read created rs d \<in> {None, Some (Inl Exit)}"
    by (auto simp: lock_read_def)
qed

text \<open>A lock nobody else wants: the children are the own node alone, and \<open>zoo_get\<close> finds what exists.\<close>

definition alone :: "string \<Rightarrow> dlock \<Rightarrow> bool \<Rightarrow> lock_round" where
  "alone c d w = \<lparr>children = Some [c],
     get_ret = (\<lambda>p. if p = m_lock_name d @ ''/'' @ c then ZOK else if p = [] then ZOther else ZNONODE), woken = w\<rparr>"

definition sequential :: "string \<Rightarrow> string option" where
  "sequential p = Some (p @ ''0000000000'')"

theorem locks_never_acquired_witness:
  "let d = new_dlock ''lock''; rs = replicate 3 (alone ''read_0000000000'' d True) in
     lock_write sequential rs d \<in> {None, Some (Inl Exit)} \<and> lock_read sequential rs d \<in> {None, Some (Inl Exit)}"
proof -
  let ?d = "new_dlock ''lock''"
  have p: "plain_names (replicate 3 (alone ''read_0000000000'' ?d True))"
    "has_child (''read_'' @ ''0000000000'') (replicate 3 (alone ''read_0000000000'' ?d True))"
    by (simp_all add: plain_names_def has_child_def alone_def)
  show ?thesis
    unfolding Let_def
    using locks_never_acquired [OF _ _ p(1), of sequential ?d "''0000000000''" "''0000000000''"] p(2)
    by (simp add: sequential_def)
qed

text \<open>
  What happens to the only client of a lock: as a writer it asks for the data of the empty path
  and then waits for a deletion that nobody can report; as a reader it takes its own node for a
  write lock, finds it, and ends the process because the return code is tested the wrong way
  round.
\<close>

theorem uncontended_lock:
  assumes "m_lock_name d \<noteq> []" "\<not> min_read_node_deleted d" "\<not> min_write_node_deleted d" "CHR ''/'' \<notin> set s"
  shows "lock_write (\<lambda>p. Some (p @ s)) (alone (''write_'' @ s) d False # rs) d = None \<and>
    lock_read (\<lambda>p. Some (p @ s)) (alone (''read_'' @ s) d False # rs) d = Some (Inl Exit)"
proof
  have n: "node_before (CHR ''/'' # ''write_'' @ s) [''write_'' @ s] = None" by simp
  show "lock_write (\<lambda>p. Some (p @ s)) (alone (''write_'' @ s) d False # rs) d = None"
    using assms self_node_name_slash [of d "''write_'' @ s"]
    by (simp add: lock_write_def alone_def Let_def)
  show "lock_read (\<lambda>p. Some (p @ s)) (alone (''read_'' @ s) d False # rs) d = Some (Inl Exit)"
    using assms self_node_name_slash [of d "''read_'' @ s"]
    by (simp add: lock_read_def alone_def Let_def)
qed

theorem uncontended_lock_witness:
  "let d = new_dlock ''lock'' in
     lock_write (\<lambda>p. Some (p @ ''0000000007'')) [alone (''write_'' @ ''0000000007'') d False] d = None \<and>
     lock_read (\<lambda>p. Some (p @ ''0000000007'')) [alone (''read_'' @ ''0000000007'') d False] d = Some (Inl Exit)"
  unfolding Let_def by (rule uncontended_lock) (simp_all add: new_dlock_def)

end
