(* ===== verification/Http.thy ===== *)
theory Http
  imports Prelude "HOL-Library.Sublist"
begin

text \<open>
  \<open>src/server/Http/Http.cpp\<close>: parsing of a request, line by line, and the response with a file. The
  two regular expressions are executable matchers, with the languages they decide stated beside
  them; the file system is an argument.
\<close>

section \<open>State\<close>

datatype parse_state = REQUEST_LINE | HEADERS | BODY | FINISH

record http =
  RequstMethod :: string
  RequstUrl :: string
  RequstHttpEdition :: string
  FilePath :: string
  FileType :: string
  Message :: string
  MessageCopy :: string
  RequestHead :: "(string, string) map"
  http_state :: parse_state

definition new_http :: "string \<Rightarrow> http" where
  "new_http m = \<lparr>RequstMethod = [], RequstUrl = [], RequstHttpEdition = [], FilePath = [], FileType = [],
     Message = m, MessageCopy = m, RequestHead = Map.empty, http_state = REQUEST_LINE\<rparr>"

section \<open>Lines and expressions\<close>

abbreviation SP :: char where "SP \<equiv> CHR '' ''"
abbreviation CR :: char where "CR \<equiv> CHR 0x0D"
abbreviation LF :: char where "LF \<equiv> CHR 0x0A"

definition crlf :: string where "crlf = [CR, LF]"

text \<open>
  \<open>GetLine\<close>: the line and what stays of the message. Without a line end \<open>find\<close> answers \<open>npos\<close>, as an
  \<open>int\<close> \<open>-1\<close>: \<open>substr(0,-1)\<close> is the whole message and \<open>erase(0,-1+2)\<close> takes one character.
\<close>

definition GetLine :: "string \<Rightarrow> string \<times> string" where
  "GetLine s = (case str_find crlf s of None \<Rightarrow> (s, drop 1 s) | Some i \<Rightarrow> (take i s, drop (i + 2) s))"

definition until :: "char \<Rightarrow> string \<Rightarrow> (string \<times> string) option" where
  "until c s = (let a = takeWhile (\<lambda>x. x \<noteq> c) s; r = drop (length a) s in
     if r = [] then None else Some (a, tl r))"

text \<open>\<open>^([^ ]*) ([^ ]*) HTTP/([^ ]*)$\<close>, with its three groups.\<close>

definition match_request_line :: "string \<Rightarrow> (string \<times> string \<times> string) option" where
  "match_request_line line =
     (case until SP line of
        None \<Rightarrow> None
      | Some (m, r1) \<Rightarrow>
     (case until SP r1 of
        None \<Rightarrow> None
      | Some (u, r2) \<Rightarrow>
          if take 5 r2 = ''HTTP/'' \<and> SP \<notin> set (drop 5 r2) then Some (m, u, drop 5 r2) else None))"

text \<open>\<open>^([^:]*): ?(.*)$\<close>, with its two groups; the dot matches neither CR nor LF.\<close>

definition match_header :: "string \<Rightarrow> (string \<times> string) option" where
  "match_header line =
     (case until (CHR '':'') line of
        None \<Rightarrow> None
      | Some (k, r) \<Rightarrow>
          let x = (if r \<noteq> [] \<and> hd r = SP then tl r else r) in
          if CR \<in> set x \<or> LF \<in> set x then None else Some (k, x))"

definition ParseRequestLine :: "string \<Rightarrow> http \<Rightarrow> bool \<times> http" where
  "ParseRequestLine line h =
     (case match_request_line line of
        None \<Rightarrow> (False, h)
      | Some (m, u, v) \<Rightarrow> (True, h\<lparr>RequstMethod := m, RequstUrl := u, RequstHttpEdition := v, http_state := HEADERS\<rparr>))"

definition ParseHeader :: "string \<Rightarrow> http \<Rightarrow> bool \<times> http" where
  "ParseHeader line h =
     (case match_header line of
        None \<Rightarrow> (False, h\<lparr>http_state := BODY\<rparr>)
      | Some (k, x) \<Rightarrow> (True, h\<lparr>RequestHead := (RequestHead h)(k \<mapsto> x)\<rparr>))"

definition ParseBody :: "string \<Rightarrow> http \<Rightarrow> http" where
  "ParseBody line h = h\<lparr>http_state := FINISH\<rparr>"

definition ParsePath :: "http \<Rightarrow> http" where
  "ParsePath h =
     (if RequstUrl h = ''/'' then h\<lparr>FilePath := ''res/demo.html'', FileType := ''text/html''\<rparr>
      else h\<lparr>FilePath := ''res'' @ RequstUrl h, FileType := ''image/jpg''\<rparr>)"

section \<open>The loop\<close>

lemma GetLine_shorter: "s \<noteq> [] \<Longrightarrow> length (snd (GetLine s)) < length s"
  by (auto simp: GetLine_def split: option.split)

lemma http_sels [simp]:
  "MessageCopy (snd (ParseRequestLine l h)) = MessageCopy h" "MessageCopy (snd (ParseHeader l h)) = MessageCopy h"
  "MessageCopy (ParseBody l h) = MessageCopy h" "MessageCopy (ParsePath h) = MessageCopy h"
  by (simp_all add: ParseRequestLine_def ParseHeader_def ParseBody_def ParsePath_def split: option.split)

text \<open>One iteration; the flag is false when the code returns false.\<close>

definition parse_step :: "http \<Rightarrow> bool \<times> http" where
  "parse_step h =
     (let line = fst (GetLine (MessageCopy h)); h1 = h\<lparr>MessageCopy := snd (GetLine (MessageCopy h))\<rparr> in
      (case http_state h of
         REQUEST_LINE \<Rightarrow>
           (let r = ParseRequestLine line h1 in if \<not> fst r then (False, snd r) else (True, ParsePath (snd r)))
       | HEADERS \<Rightarrow>
           (let h2 = snd (ParseHeader line h1) in
            (True, if length (MessageCopy h2) \<le> 2 then h2\<lparr>http_state := FINISH\<rparr> else h2))
       | BODY \<Rightarrow> (True, ParseBody line h1)
       | FINISH \<Rightarrow> (True, h1)))"

lemma parse_step_copy [simp]: "MessageCopy (snd (parse_step h)) = snd (GetLine (MessageCopy h))"
  by (simp add: parse_step_def Let_def split: parse_state.split)

function parse_loop :: "http \<Rightarrow> bool \<times> http" where
  "parse_loop h =
     (if MessageCopy h \<noteq> [] \<and> http_state h \<noteq> FINISH
      then if fst (parse_step h) then parse_loop (snd (parse_step h)) else (False, snd (parse_step h))
      else (True, h))"
  by pat_completeness auto
termination
  by (relation "measure (\<lambda>h. length (MessageCopy h))") (simp_all add: GetLine_shorter)

declare parse_loop.simps [simp del]

definition Parse :: "http \<Rightarrow> bool \<times> http" where
  "Parse h = (if Message h = [] then (False, h) else parse_loop h)"

section \<open>The response\<close>

text \<open>
  \<open>files\<close> is \<open>open\<close>, \<open>fstat\<close> and \<open>mmap\<close> of a path: \<^const>\<open>None\<close> when it cannot be opened, else the
  size and the bytes mapped (\<^const>\<open>None\<close> for a failed \<open>mmap\<close>, as of a directory).
\<close>

type_synonym file_system = "string \<Rightarrow> (int \<times> string option) option"

definition int_str :: "int \<Rightarrow> string" where
  "int_str n = (if n < 0 then CHR ''-'' # dec_str (nat (- n)) else dec_str (nat n))"

definition ok_head :: "string \<Rightarrow> int \<Rightarrow> string" where
  "ok_head file_type n =
     ''HTTP/1.1 200 OK'' @ crlf @ ''Accept-Ranges: bytes'' @ crlf @ ''Content-Type: '' @ file_type @
     '';charset=UTF-8'' @ crlf @ ''Content-Length: '' @ int_str n @ crlf @ ''Connection: close'' @ crlf @ crlf"

definition error_head :: string where
  "error_head = ''HTTP/1.1 404 ERROR'' @ crlf @ ''Connection: close'' @ crlf @ crlf"

text \<open>\<open>FileSize_\<close> is an \<open>int\<close>; the header goes into \<open>char[1024]\<close>.\<close>

definition Respond :: "file_system \<Rightarrow> http \<Rightarrow> string res" where
  "Respond files h0 =
     (let (ok, h) = Parse h0 in
      if \<not> ok then Inr []
      else case files (takeWhile (\<lambda>c. c \<noteq> NUL) (FilePath h)) of
        None \<Rightarrow> Inr error_head
      | Some (st_size, mapped) \<Rightarrow>
          let FileSize = to_int32 st_size; head = ok_head (FileType h) FileSize in
          if length head + 1 > 1024 then Inl BadWrite
          else if FileSize < 0 then Inl LengthError
          else case mapped of
            None \<Rightarrow> if FileSize = 0 then Inr head else Inl BadRead
          | Some bytes \<Rightarrow> Inr (head @ take (nat FileSize) bytes))"

section \<open>The languages of the expressions\<close>

lemma until_iff: "until c s = Some (a, r) \<longleftrightarrow> s = a @ c # r \<and> c \<notin> set a"
proof
  assume u: "until c s = Some (a, r)"
  define t where "t = drop (length a) s"
  have a: "a = takeWhile (\<lambda>x. x \<noteq> c) s" "t \<noteq> []" "r = tl t"
    using u by (auto simp: until_def Let_def t_def split: if_splits)
  have t: "t = dropWhile (\<lambda>x. x \<noteq> c) s"
    unfolding t_def a(1) by (simp add: dropWhile_eq_drop)
  then have "hd t = c" using a(2) hd_dropWhile [of "\<lambda>x. x \<noteq> c" s] by simp
  then have "t = c # r" using a(2,3) by (cases t) auto
  moreover have "s = a @ t" unfolding a(1) t by simp
  moreover have "c \<notin> set a" unfolding a(1) by (auto dest: set_takeWhileD)
  ultimately show "s = a @ c # r \<and> c \<notin> set a" by simp
next
  assume "s = a @ c # r \<and> c \<notin> set a"
  then show "until c s = Some (a, r)" by (simp add: until_def Let_def takeWhile_pad)
qed

lemma until_app [simp]: "c \<notin> set a \<Longrightarrow> until c (a @ c # r) = Some (a, r)"
  by (simp add: until_iff)

lemma until_none: "c \<notin> set s \<Longrightarrow> until c s = None"
  by (cases "until c s") (auto simp: until_iff)

lemma match_request_line_iff:
  "match_request_line line = Some (m, u, v) \<longleftrightarrow>
     line = m @ SP # u @ SP # ''HTTP/'' @ v \<and> SP \<notin> set m \<and> SP \<notin> set u \<and> SP \<notin> set v"
proof
  assume e: "match_request_line line = Some (m, u, v)"
  then obtain a r1 where 1: "until SP line = Some (a, r1)"
    by (cases "until SP line") (auto simp add: match_request_line_def)
  with e obtain b r2 where 2: "until SP r1 = Some (b, r2)"
    by (cases "until SP r1") (auto simp add: match_request_line_def)
  have 3: "take 5 r2 = ''HTTP/'' \<and> SP \<notin> set (drop 5 r2)" "a = m" "b = u" "v = drop 5 r2"
    using e unfolding match_request_line_def 1 2 option.case prod.case
    by (metis option.distinct(1), metis option.distinct(1) option.inject prod.inject,
        metis option.distinct(1) option.inject prod.inject, metis option.distinct(1) option.inject prod.inject)
  have "r2 = ''HTTP/'' @ v" using append_take_drop_id [of 5 r2] unfolding conjunct1 [OF 3(1)] 3(4) by (rule sym)
  moreover have "line = m @ SP # u @ SP # r2 \<and> SP \<notin> set m \<and> SP \<notin> set u"
    using 1 2 unfolding 3(2,3) by (simp add: until_iff)
  moreover have "SP \<notin> set v" using 3(1) unfolding 3(4) by (rule conjunct2)
  ultimately show "line = m @ SP # u @ SP # ''HTTP/'' @ v \<and> SP \<notin> set m \<and> SP \<notin> set u \<and> SP \<notin> set v"
    by metis
next
  assume l: "line = m @ SP # u @ SP # ''HTTP/'' @ v \<and> SP \<notin> set m \<and> SP \<notin> set u \<and> SP \<notin> set v"
  then have u: "until SP line = Some (m, u @ SP # ''HTTP/'' @ v)"
    "until SP (u @ SP # ''HTTP/'' @ v) = Some (u, ''HTTP/'' @ v)"
    by simp_all
  show "match_request_line line = Some (m, u, v)"
    unfolding match_request_line_def u option.case prod.case using l by simp
qed

text \<open>The optional space is greedy: it is left to the value only when a second one follows.\<close>

lemma match_header_iff:
  "match_header line = Some (k, x) \<longleftrightarrow> CHR '':'' \<notin> set k \<and> CR \<notin> set x \<and> LF \<notin> set x \<and>
     (line = k @ CHR '':'' # SP # x \<or> line = k @ CHR '':'' # x \<and> (x = [] \<or> hd x \<noteq> SP))"
proof
  assume e: "match_header line = Some (k, x)"
  then obtain a r where u: "until (CHR '':'') line = Some (a, r)"
    by (cases "until (CHR '':'') line") (auto simp: match_header_def)
  define y where "y = (if r \<noteq> [] \<and> hd r = SP then tl r else r)"
  have "(if CR \<in> set y \<or> LF \<in> set y then None else Some (a, y)) = Some (k, x)"
    using e unfolding match_header_def u option.case prod.case Let_def y_def .
  then have r: "until (CHR '':'') line = Some (k, r)" "CR \<notin> set x" "LF \<notin> set x" "y = x"
    using u by (simp_all split: if_splits)
  have l: "line = k @ CHR '':'' # r" "CHR '':'' \<notin> set k" using r(1) by (simp_all add: until_iff)
  have "r = SP # x \<or> r = x \<and> (x = [] \<or> hd x \<noteq> SP)"
    using r(4) unfolding y_def by (cases r) (simp_all split: if_splits)
  then show "CHR '':'' \<notin> set k \<and> CR \<notin> set x \<and> LF \<notin> set x \<and>
     (line = k @ CHR '':'' # SP # x \<or> line = k @ CHR '':'' # x \<and> (x = [] \<or> hd x \<noteq> SP))"
    using l r(2,3) by metis
next
  assume a: "CHR '':'' \<notin> set k \<and> CR \<notin> set x \<and> LF \<notin> set x \<and>
     (line = k @ CHR '':'' # SP # x \<or> line = k @ CHR '':'' # x \<and> (x = [] \<or> hd x \<noteq> SP))"
  then show "match_header line = Some (k, x)"
    by (elim conjE disjE) (simp_all add: match_header_def)
qed

lemma match_header_line: "CHR '':'' \<notin> set k \<Longrightarrow> CR \<notin> set x \<Longrightarrow> LF \<notin> set x \<Longrightarrow>
    match_header (k @ '': '' @ x) = Some (k, x)"
  by (simp add: match_header_iff)

lemma match_header_none: "CHR '':'' \<notin> set s \<Longrightarrow> match_header s = None"
  by (simp add: match_header_def until_none)

section \<open>Requests\<close>

definition header_line :: "string \<times> string \<Rightarrow> string" where
  "header_line kx = fst kx @ '': '' @ snd kx @ crlf"

definition request_bytes :: "string \<Rightarrow> string \<Rightarrow> string \<Rightarrow> (string \<times> string) list \<Rightarrow> string \<Rightarrow> string" where
  "request_bytes m u v hs body =
     m @ [SP] @ u @ [SP] @ ''HTTP/'' @ v @ crlf @ concat (map header_line hs) @ crlf @ body"

definition header_ok :: "string \<times> string \<Rightarrow> bool" where
  "header_ok kx \<longleftrightarrow> CHR '':'' \<notin> set (fst kx) \<and> CR \<notin> set (fst kx) \<and> CR \<notin> set (snd kx) \<and> LF \<notin> set (snd kx)"

lemma GetLine_crlf: "CR \<notin> set l \<Longrightarrow> GetLine (l @ crlf @ r) = (l, r)"
  using str_find_hit [of CR l "[LF]" r] by (simp add: GetLine_def crlf_def)

lemma GetLine_last: "CR \<notin> set l \<Longrightarrow> GetLine l = (l, drop 1 l)"
  by (simp add: GetLine_def crlf_def str_find_none)

lemma parse_loop_end: "MessageCopy h = [] \<or> http_state h = FINISH \<Longrightarrow> parse_loop h = (True, h)"
  by (subst parse_loop.simps) auto

lemma parse_loop_body: "http_state h = BODY \<Longrightarrow> \<exists>h'. parse_loop h = (True, h') \<and>
    RequestHead h' = RequestHead h \<and> RequstMethod h' = RequstMethod h \<and> RequstUrl h' = RequstUrl h \<and>
    RequstHttpEdition h' = RequstHttpEdition h \<and> FilePath h' = FilePath h \<and> FileType h' = FileType h"
proof (cases "MessageCopy h = []")
  case False
  assume b: "http_state h = BODY"
  then have "parse_loop h = parse_loop (snd (parse_step h))" "http_state (snd (parse_step h)) = FINISH"
    using False by (subst parse_loop.simps, simp_all add: parse_step_def ParseBody_def Let_def)
  then show ?thesis using b
    by (simp add: parse_loop_end) (simp add: parse_step_def ParseBody_def Let_def)
qed (simp add: parse_loop_end)

text \<open>One header line.\<close>

lemma parse_loop_header:
  assumes "http_state h = HEADERS" "GetLine (MessageCopy h) = (line, r)" "MessageCopy h \<noteq> []"
    "match_header line = Some (k, x)"
  shows "parse_loop h = parse_loop (h\<lparr>MessageCopy := r, RequestHead := (RequestHead h)(k \<mapsto> x),
    http_state := (if length r \<le> 2 then FINISH else HEADERS)\<rparr>)"
  using assms
  by (cases h, subst parse_loop.simps) (simp add: parse_step_def ParseHeader_def Let_def)

lemma parse_loop_no_header:
  assumes "http_state h = HEADERS" "GetLine (MessageCopy h) = (line, r)" "MessageCopy h \<noteq> []"
    "match_header line = None"
  shows "parse_loop h = parse_loop (h\<lparr>MessageCopy := r, http_state := (if length r \<le> 2 then FINISH else BODY)\<rparr>)"
  using assms
  by (subst parse_loop.simps) (simp add: parse_step_def ParseHeader_def Let_def)

definition same_request :: "http \<Rightarrow> http \<Rightarrow> bool" where
  "same_request h h' \<longleftrightarrow> RequstMethod h' = RequstMethod h \<and> RequstUrl h' = RequstUrl h \<and>
     RequstHttpEdition h' = RequstHttpEdition h \<and> FilePath h' = FilePath h \<and> FileType h' = FileType h"

lemma same_request_simps [simp]:
  "same_request (h\<lparr>MessageCopy := r, RequestHead := m, http_state := s\<rparr>) h' = same_request h h'"
  "same_request (h\<lparr>MessageCopy := r, http_state := s\<rparr>) h' = same_request h h'" "same_request h h"
  "same_request h' (h\<lparr>MessageCopy := r, RequestHead := m, http_state := s\<rparr>) = same_request h' h"
  by (simp_all add: same_request_def)

lemma parse_loop_rest:
  assumes "http_state h \<in> {BODY, FINISH}"
  shows "\<exists>h'. parse_loop h = (True, h') \<and> RequestHead h' = RequestHead h \<and> same_request h h'"
  using assms parse_loop_body [of h] parse_loop_end [of h] by (auto simp: same_request_def)

lemma parse_loop_headers:
  assumes "http_state h = HEADERS" "MessageCopy h = concat (map header_line hs) @ crlf @ body" "list_all header_ok hs"
  shows "\<exists>h'. parse_loop h = (True, h') \<and> same_request h h' \<and>
    RequestHead h' = RequestHead h ++ map_of (rev hs)"
  using assms
proof (induction hs arbitrary: h)
  case Nil
  have g: "GetLine (MessageCopy h) = ([], body)"
    using GetLine_crlf [of "[]" body] Nil.prems(2) by simp
  have "MessageCopy h \<noteq> []" using Nil.prems(2) by (simp add: crlf_def)
  from parse_loop_no_header [OF Nil.prems(1) g this] match_header_none [of "[]"] show ?case
    using parse_loop_rest [of "h\<lparr>MessageCopy := body, http_state := (if length body \<le> 2 then FINISH else BODY)\<rparr>"]
    by auto
next
  case (Cons kx hs)
  let ?rest = "concat (map header_line hs) @ crlf @ body"
  have ok: "header_ok kx" "list_all header_ok hs" using Cons.prems(3) by simp_all
  have m: "MessageCopy h = (fst kx @ '': '' @ snd kx) @ crlf @ ?rest"
    unfolding Cons.prems(2) by (simp add: header_line_def [of kx])
  have g: "GetLine (MessageCopy h) = (fst kx @ '': '' @ snd kx, ?rest)"
    unfolding m by (rule GetLine_crlf) (use ok(1) in \<open>simp add: header_ok_def\<close>)
  have h: "match_header (fst kx @ '': '' @ snd kx) = Some (fst kx, snd kx)"
    using ok(1) by (intro match_header_line) (simp_all add: header_ok_def)
  let ?h = "h\<lparr>MessageCopy := ?rest, RequestHead := (RequestHead h)(fst kx \<mapsto> snd kx),
    http_state := (if length ?rest \<le> 2 then FINISH else HEADERS)\<rparr>"
  have p: "parse_loop h = parse_loop ?h"
    by (rule parse_loop_header [OF Cons.prems(1) g _ h]) (simp add: m)
  have e: "RequestHead h ++ map_of (rev (kx # hs)) = RequestHead ?h ++ map_of (rev hs)"
    by (cases kx) (rule ext, simp add: map_add_def split: option.split)
  show ?case
  proof (cases "length ?rest \<le> 2")
    case True
    then have "hs = []" by (cases hs) (simp_all add: header_line_def crlf_def)
    moreover have "parse_loop ?h = (True, ?h)" using True by (intro parse_loop_end) simp
    ultimately show ?thesis unfolding p e by (intro exI [of _ ?h] conjI) simp_all
  next
    case False
    then have "\<exists>h'. parse_loop ?h = (True, h') \<and> same_request ?h h' \<and> RequestHead h' = RequestHead ?h ++ map_of (rev hs)"
      by (intro Cons.IH) (simp_all add: ok(2))
    then show ?thesis unfolding p e by simp
  qed
qed

lemma parse_request_line:
  assumes "SP \<notin> set m" "SP \<notin> set u" "SP \<notin> set v" "CR \<notin> set m" "CR \<notin> set u" "CR \<notin> set v"
    and "bytes = m @ [SP] @ u @ [SP] @ ''HTTP/'' @ v @ crlf @ rest"
  shows "\<exists>h. Parse (new_http bytes) = parse_loop h \<and> RequstMethod h = m \<and> RequstUrl h = u \<and>
    RequstHttpEdition h = v \<and> RequestHead h = Map.empty \<and> http_state h = HEADERS \<and> MessageCopy h = rest \<and>
    FilePath h = (if u = ''/'' then ''res/demo.html'' else ''res'' @ u) \<and>
    FileType h = (if u = ''/'' then ''text/html'' else ''image/jpg'')"
proof -
  let ?l = "m @ SP # u @ SP # ''HTTP/'' @ v"
  let ?h = "(new_http bytes)\<lparr>MessageCopy := rest, RequstMethod := m, RequstUrl := u,
    RequstHttpEdition := v, http_state := HEADERS\<rparr>"
  have b: "bytes = ?l @ crlf @ rest" using assms(7) by simp
  have "CR \<notin> set ?l" using assms(4-6) by simp
  then have g: "GetLine bytes = (?l, rest)" unfolding b by (rule GetLine_crlf)
  have m: "match_request_line ?l = Some (m, u, v)"
    using assms(1-3) by (simp add: match_request_line_iff)
  have ne: "bytes \<noteq> []" using assms(7) by simp
  have s: "parse_step (new_http bytes) = (True, ParsePath ?h)"
    using g m by (simp add: parse_step_def new_http_def ParseRequestLine_def Let_def)
  have "Parse (new_http bytes) = parse_loop (ParsePath ?h)"
    using ne unfolding Parse_def by (subst parse_loop.simps) (simp add: s, simp add: new_http_def)
  then show ?thesis
    by (intro exI [of _ "ParsePath ?h"]) (simp add: ParsePath_def, simp add: new_http_def)
qed

lemma request_parsed:
  assumes "SP \<notin> set m" "SP \<notin> set u" "SP \<notin> set v" "CR \<notin> set m" "CR \<notin> set u" "CR \<notin> set v" "list_all header_ok hs"
  shows "\<exists>h. Parse (new_http (request_bytes m u v hs body)) = (True, h) \<and> RequstMethod h = m \<and>
    RequstUrl h = u \<and> RequstHttpEdition h = v \<and> RequestHead h = map_of (rev hs) \<and>
    FilePath h = (if u = ''/'' then ''res/demo.html'' else ''res'' @ u) \<and>
    FileType h = (if u = ''/'' then ''text/html'' else ''image/jpg'')"
proof -
  obtain h where h: "Parse (new_http (request_bytes m u v hs body)) = parse_loop h" "RequstMethod h = m"
    "RequstUrl h = u" "RequstHttpEdition h = v" "RequestHead h = Map.empty" "http_state h = HEADERS"
    "MessageCopy h = concat (map header_line hs) @ crlf @ body"
    "FilePath h = (if u = ''/'' then ''res/demo.html'' else ''res'' @ u)"
    "FileType h = (if u = ''/'' then ''text/html'' else ''image/jpg'')"
    using parse_request_line [OF assms(1-6) request_bytes_def] by blast
  from parse_loop_headers [OF h(6,7) assms(7)] obtain h' where h': "parse_loop h = (True, h')"
    "same_request h h'" "RequestHead h' = map_of (rev hs)" unfolding h(5) by auto
  then show ?thesis
    using h(1-4,8,9) by (intro exI [of _ h']) (simp add: same_request_def)
qed

section \<open>Properties\<close>



text \<open>
  C30. The two regular expressions as the code uses them: the matchers accept exactly the lines of the
  patterns and split them into their groups.
\<close>

theorem http_patterns:
  "(match_request_line line = Some (m, u, v) \<longleftrightarrow>
      line = m @ SP # u @ SP # ''HTTP/'' @ v \<and> SP \<notin> set m \<and> SP \<notin> set u \<and> SP \<notin> set v) \<and>
   (match_header line = Some (k, x) \<longleftrightarrow> CHR '':'' \<notin> set k \<and> CR \<notin> set x \<and> LF \<notin> set x \<and>
      line \<in> {k @ CHR '':'' # SP # x} \<union> (if x = [] then {k @ [CHR '':'']} else if hd x = SP then {} else {k @ CHR '':'' # x}))"
  using match_request_line_iff [of line m u v] match_header_iff [of line k x] by auto

lemma int_str_length: "0 \<le> n \<Longrightarrow> n < 2 ^ 31 \<Longrightarrow> length (int_str n) \<le> 10"
  using dec_str_length_bound [of "nat n" 10] by (simp add: int_str_def nat_less_iff)

text \<open>
  A request for an existing file gets a 200 with the length of the file and its bytes, whatever the
  method; the url goes into the path as it is, so one that climbs with \<open>..\<close> is served as well, and
  the type is \<open>image/jpg\<close> for every url but \<open>/\<close>.
\<close>

theorem http_serves_path:
  assumes "SP \<notin> set m" "SP \<notin> set u" "SP \<notin> set v" "CR \<notin> set m" "CR \<notin> set u" "CR \<notin> set v" "list_all header_ok hs"
    and "u \<noteq> ''/''" "NUL \<notin> set u" "files (''res'' @ u) = Some (int (length content), Some content)"
    and "length content < 2 ^ 31"
  shows "Respond files (new_http (request_bytes m u v hs body)) =
    Inr (ok_head ''image/jpg'' (int (length content)) @ content)"
proof -
  obtain h where h: "Parse (new_http (request_bytes m u v hs body)) = (True, h)"
    "FilePath h = ''res'' @ u" "FileType h = ''image/jpg''"
    using request_parsed [OF assms(1-7)] assms(8) by auto
  have p: "takeWhile (\<lambda>c. c \<noteq> NUL) (FilePath h) = ''res'' @ u"
    using assms(9) by (auto simp: h(2) takeWhile_eq_all_conv)
  have s: "to_int32 (int (length content)) = int (length content)"
    using assms(11) by (intro to_int32_ok) simp_all
  have "length (ok_head ''image/jpg'' (int (length content))) + 1 \<le> 1024"
    using int_str_length [of "int (length content)"] assms(11) by (simp add: ok_head_def crlf_def)
  then show ?thesis
    unfolding Respond_def h(1) Let_def prod.case p assms(10) option.case s h(3) by simp
qed

theorem http_serves_path_witness:
  "Respond (\<lambda>p. if p = ''res/../config.xml'' then Some (6, Some ''<root>'') else None)
     (new_http (request_bytes ''GET'' ''/../config.xml'' ''1.1'' [] [])) =
   Inr (ok_head ''image/jpg'' (int (length ''<root>'')) @ ''<root>'')"
  by (rule http_serves_path) simp_all

lemma truncated_loop:
  assumes "http_state h = HEADERS" "MessageCopy h = k @ '': '' @ x" "CHR '':'' \<notin> set k" "CHR '':'' \<notin> set x"
    "CR \<notin> set k" "CR \<notin> set x" "LF \<notin> set x" "x \<noteq> []"
  shows "\<exists>h'. parse_loop h = (True, h') \<and>
    RequestHead h' = RequestHead h ++ (\<lambda>k'. if suffix k' k then Some x else None)"
  using assms(1-3,5)
proof (induction k arbitrary: h)
  case Nil
  have g: "GetLine (MessageCopy h) = ('': '' @ x, SP # x)"
    using GetLine_last [of "'': '' @ x"] assms(6) by (simp add: Nil.prems(2))
  have "match_header ([] @ '': '' @ x) = Some ([], x)" using assms(6,7) by (intro match_header_line) simp_all
  then have p: "parse_loop h = parse_loop (h\<lparr>MessageCopy := SP # x, RequestHead := (RequestHead h)([] \<mapsto> x),
      http_state := (if length (SP # x) \<le> 2 then FINISH else HEADERS)\<rparr>)"
    by (intro parse_loop_header [OF Nil.prems(1) g]) (simp_all add: Nil.prems(2))
  have e: "(RequestHead h)([] \<mapsto> x) = RequestHead h ++ (\<lambda>k'. if suffix k' [] then Some x else None)"
    by (rule ext) (simp add: map_add_def)
  show ?case
  proof (cases "length (SP # x) \<le> 2")
    case True
    then show ?thesis using e by (simp add: p parse_loop_end)
  next
    case False
    let ?h = "h\<lparr>MessageCopy := SP # x, RequestHead := (RequestHead h)([] \<mapsto> x), http_state := HEADERS\<rparr>"
    have g2: "GetLine (MessageCopy ?h) = (SP # x, x)"
      using GetLine_last [of "SP # x"] assms(6) by simp
    have "match_header (SP # x) = None" using assms(4) by (intro match_header_none) simp
    from parse_loop_no_header [OF _ g2 _ this]
    have "parse_loop ?h = parse_loop (?h\<lparr>MessageCopy := x, http_state := (if length x \<le> 2 then FINISH else BODY)\<rparr>)"
      by simp
    moreover have "\<exists>h'. parse_loop (?h\<lparr>MessageCopy := x, http_state := (if length x \<le> 2 then FINISH else BODY)\<rparr>) =
        (True, h') \<and> RequestHead h' = (RequestHead h)([] \<mapsto> x)"
      using parse_loop_rest [of "?h\<lparr>MessageCopy := x, http_state := (if length x \<le> 2 then FINISH else BODY)\<rparr>"] by auto
    ultimately show ?thesis using False e p by simp
  qed
next
  case (Cons c k)
  let ?rest = "k @ '': '' @ x"
  have g: "GetLine (MessageCopy h) = ((c # k) @ '': '' @ x, ?rest)"
    using GetLine_last [of "(c # k) @ '': '' @ x"] assms(6) Cons.prems by simp
  have "match_header ((c # k) @ '': '' @ x) = Some (c # k, x)"
    using assms(6,7) Cons.prems(3) by (rule match_header_line [rotated])
  then have p: "parse_loop h = parse_loop (h\<lparr>MessageCopy := ?rest, RequestHead := (RequestHead h)(c # k \<mapsto> x),
      http_state := HEADERS\<rparr>)"
    using parse_loop_header [OF Cons.prems(1) g] assms(8) by (cases x) (simp_all add: Cons.prems(2))
  define h1 where "h1 = h\<lparr>MessageCopy := ?rest, RequestHead := (RequestHead h)(c # k \<mapsto> x), http_state := HEADERS\<rparr>"
  have h1: "http_state h1 = HEADERS" "MessageCopy h1 = ?rest" "RequestHead h1 = (RequestHead h)(c # k \<mapsto> x)"
    by (simp_all add: h1_def)
  have "CHR '':'' \<notin> set k" "CR \<notin> set k" using Cons.prems(3,4) by simp_all
  from Cons.IH [OF h1(1,2) this] have "\<exists>h'. parse_loop h1 = (True, h') \<and>
      RequestHead h' = (RequestHead h)(c # k \<mapsto> x) ++ (\<lambda>k'. if suffix k' k then Some x else None)"
    unfolding h1(3) .
  moreover have "(RequestHead h)(c # k \<mapsto> x) ++ (\<lambda>k'. if suffix k' k then Some x else None) =
      RequestHead h ++ (\<lambda>k'. if suffix k' (c # k) then Some x else None)"
    by (rule ext) (simp add: map_add_def suffix_Cons)
  ultimately show ?case unfolding p h1_def by metis
qed

text \<open>
  A request that ends within its last header line is not rejected: \<open>GetLine\<close> then removes one
  character at a time, and every suffix of the header's name becomes a header of its own, with the
  value as far as it was received.
\<close>

theorem http_truncated_header:
  assumes "SP \<notin> set m" "SP \<notin> set u" "SP \<notin> set v" "CR \<notin> set m" "CR \<notin> set u" "CR \<notin> set v"
    and "CHR '':'' \<notin> set k" "CHR '':'' \<notin> set x" "CR \<notin> set k" "CR \<notin> set x" "LF \<notin> set x" "x \<noteq> []"
  shows "\<exists>h. Parse (new_http (m @ [SP] @ u @ [SP] @ ''HTTP/'' @ v @ crlf @ k @ '': '' @ x)) = (True, h) \<and>
    (\<forall>k'. RequestHead h k' = (if suffix k' k then Some x else None))"
proof -
  obtain h where h: "Parse (new_http (m @ [SP] @ u @ [SP] @ ''HTTP/'' @ v @ crlf @ k @ '': '' @ x)) = parse_loop h"
    "RequestHead h = Map.empty" "http_state h = HEADERS" "MessageCopy h = k @ '': '' @ x"
    using parse_request_line [OF assms(1-6) refl] by blast
  from truncated_loop [OF h(3,4) assms(7,8,9,10,11,12)] show ?thesis
    unfolding h(1,2) by (auto simp: map_add_def)
qed

theorem http_truncated_header_witness:
  "\<exists>h. Parse (new_http (''GET'' @ [SP] @ ''/'' @ [SP] @ ''HTTP/'' @ ''1.1'' @ crlf @ ''Range'' @ '': '' @ ''by'')) = (True, h) \<and>
     RequestHead h ''ange'' = Some ''by''"
  using http_truncated_header [of "''GET''" "''/''" "''1.1''" "''Range''" "''by''"]
  by (auto simp: suffix_Cons)

end
