(* ===== verification/Spec2Isabelle.thy ===== *)
theory Spec2Isabelle
  imports TinypbDecode RpcChannel PoolStop EchoServer IdleTimer Lifetime Service Wiring Clock Log LogStart Singleton Config Controller Closure DistLock Http
begin

text \<open>
  A model of MY-RPC, a small RPC framework in C++ (sources under \<open>src/src/\<close>, written \<open>src/\<close> below).

  The program. A server process owns a \<open>TcpServer\<close>: one accepting event loop and a group of I/O
  event loops, each over its own epoll instance, run by a thread pool. An accepted descriptor
  becomes a \<open>Connection\<close> with a \<open>Channel\<close> on one of the loops. What a connection reads goes to
  \<open>RPCServer\<close>, which decodes requests with \<open>TinyPBCoder\<close>, lets \<open>RpcDispatcher\<close> call the
  registered protobuf services, encodes the replies and sends them through the connection. A client
  finds the server's address in ZooKeeper and makes a blocking call (\<open>RpcChannel::CallMethod\<close>).
  Everything logs through \<open>AsyncLogger\<close>.

  Theories and what they model.

    \<^item> \<open>Prelude\<close>: faults (\<open>fault\<close>, with \<open>'a res = fault + 'a\<close>), bounds-checked reads of C strings,
      \<open>int\<close> arithmetic with its overflow, little-endian memory and network order, decimal numbers,
      string search.
    \<^item> \<open>Tinypb\<close>, \<open>TinypbDecode\<close>: \<open>server/Rpc/coder/\<close>, the frames, the encoder and the decoder.
    \<^item> \<open>BufferModel\<close>: \<open>common/Buffer\<close>, with its two contracts, a byte stream and a message queue.
    \<^item> \<open>StdMap\<close>: \<open>std::map\<close> as the sources use it, behind the contract \<open>keyed_store\<close>.
    \<^item> \<open>ChannelModel\<close>, \<open>EventLoopModel\<close>, \<open>ConnectionModel\<close>, \<open>TcpServerModel\<close>: \<open>net/\<close>, from the epoll
      registration of one descriptor to the tables of all connections.
    \<^item> \<open>SocketModel\<close>, \<open>Startup\<close>: \<open>net/InetAddress\<close> and \<open>net/Socket\<close>, and the constructors of \<open>EventLoop\<close>,
      \<open>Acceptor\<close> and \<open>TcpServer\<close>, up to the pool in which every I/O loop gets its thread.
    \<^item> \<open>ThreadPoll\<close>, \<open>PoolStop\<close>: \<open>common/ThreadPoll\<close>, first the workers and their queue, then the same
      with the clearing thread and the caller of \<open>Stop\<close> step by step.
    \<^item> \<open>MsgId\<close>, \<open>AsyncLog\<close>, \<open>LogStart\<close>, \<open>Log\<close>, \<open>Config\<close>: the files of that name in \<open>common/\<close>
      (\<open>msg_id_util\<close>, \<open>asynclog\<close>); \<open>LogStart\<close> is the handshake of \<open>AsyncLogger::start\<close>.
    \<^item> \<open>ZkClient\<close>, \<open>DistLock\<close>: \<open>common/zookeeperutil\<close> and \<open>common/DistributedReadWriteLock\<close>.
    \<^item> \<open>Controller\<close>, \<open>Dispatcher\<close>, \<open>RpcServer\<close>, \<open>RpcChannel\<close>, \<open>Closure\<close>: \<open>server/Rpc/\<close> (\<open>Closure\<close> is
      \<open>rpc_closure.h\<close> and \<open>rpc_interface\<close>).
    \<^item> \<open>ServerRun\<close>, \<open>ServerOpen\<close>, \<open>ServerDrain\<close>: the running \<open>RPCServer\<close>, that is loops, tables, connections, workers and
      dispatcher in one transition system: \<open>ServerRun\<close> has the steps and what holds under every
      interleaving, \<open>ServerOpen\<close> what holds while no peer disturbs it, and \<open>ServerDrain\<close> that, left
      alone, it answers and writes out everything, under every schedule. \<open>ServerStop\<close>:
      \<open>Stop\<close> of the servers. \<open>IdleTimer\<close>: the same with a clock, how long an idle connection stays.
    \<^item> \<open>RunDown\<close>: the contract \<open>runs_down\<close> of systems that come to an end, interpreted on
      the stopped pool, the shutdown of a pool, the start of the I/O loops, the singletons and the
      running server.
    \<^item> \<open>Lifetime\<close>: who owns a \<open>Connection\<close> of the running server, when it is destroyed, and who may still hold a
      pointer to it: the queue of its loop, and the batch of channels \<open>epoll_wait\<close> returned; and that
      undisturbed it is the server of \<open>ServerRun\<close>.
    \<^item> \<open>Simulation\<close>, \<open>Service\<close>: the contract of a forward simulation, and its interpretation on the running
      server: an abstract service (messages to answer, bytes owed and written per connection) that every run implements.
    \<^item> \<open>Callbacks\<close>: the functions a \<open>TcpServer\<close> calls in its owner, and what the owners bind to them. \<open>Wiring\<close>: the
      callback members of \<open>Channel\<close>, \<open>EventLoop\<close>, \<open>Connection\<close> and \<open>Acceptor\<close>, and what their constructors set.
    \<^item> \<open>Clock\<close>: \<open>common/Timestamp\<close>.
    \<^item> \<open>Singleton\<close>: the threads that make the global configuration, logger and dispatcher at their first use.
    \<^item> \<open>EchoServer\<close>: \<open>server/Echo\<close>, the same running server with another reply. \<open>Http\<close>: \<open>server/Http\<close>.
    \<^item> This theory: the properties that span components, from the configuration to the published
      address and from registration, through the running server, to the response of a call.

  Conventions. A class is a record of its data members; an operation is a function from the state
  before to the state after. Undefined behaviour, an uncaught exception and \<open>exit\<close> are \<open>Inl\<close> of a
  fault, so every operation that can fail says so in its type; \<open>option\<close> around a result is for code
  that may not return, \<^const>\<open>None\<close> being "does not return" (\<open>decode\<close>, \<open>deliver_loop\<close>,
  \<open>connect_send\<close>) or, in the transition systems, "this thread is not at that point". Strings are
  lists of characters, as \<open>std::string\<close> is a sequence of bytes. Threads are modelled at the
  granularity of critical sections: a step of \<open>ThreadPoll\<close> or \<open>AsyncLog\<close> is what one thread does
  between two points where another may run, and a run is any interleaving of steps (in \<open>LogStart\<close> an
  inductive relation, elsewhere a step function on events, so that runs can be evaluated). What the
  kernel answers in a step is part of the event.

  What is a parameter. The kernel (\<open>epoll_ctl\<close> with \<open>epoll_ctl_spec\<close>, the results of \<open>recv\<close>,
  \<open>send\<close>, \<open>connect\<close>, \<open>accept4\<close>, \<open>/dev/urandom\<close>), protobuf (parse, serialise and call of a method, its
  descriptors), ZooKeeper (its calls, with \<open>zk_spec\<close> where a theorem relies on them), the XML library
  and the file system are arguments.

  Lemma groups. Layout and round trip of the wire format, and exactly when the decoder does not
  return; the contracts of buffer and map, interpreted on the model; the sending side of a
  connection as a refinement of three queues; the tables of the server as an invariant over all
  histories; the pool and the log as invariants over all interleavings; the running server as a flow
  of bytes (what is on the wire, in the buffer and in the queue of a connection is what was sent to it),
  its progress by a decreasing measure, its refinement of an abstract service, when its connections are destroyed
  and which pointers to them are left, what is lost while it stops, and how long an idle connection
  stays; what the constructors leave behind, and when \<open>Stop\<close> and \<open>start\<close> come back; which of the global
  objects is made once; the dispatcher's answers;
  the nodes a starting server leaves in ZooKeeper and what a client reads back; one call from
  registration to its response; the distributed lock, which is never acquired; the HTTP parser with
  the languages of its two regular expressions.

  Bounds and fuel. No theorem bounds the length of a run, a message or a table beyond what the code
  does (32-bit lengths, arrays of 100 and 512 bytes, 1024 bytes of one \<open>recv\<close>, 64 bytes of a node);
  the only fuel is the list of results of \<open>connect\<close> and \<open>send\<close> in \<open>connect_send\<close> and the list of
  rounds of the two lock loops; what is shown of those holds for lists of any length. \<open>work_for\<close> bounds what
  a server left alone still does: it is computed from its tasks, its queues and the longest answer its
  messages can get. \<open>lag\<close> in \<open>IdleTimer\<close> is how late a loop may be for its timer.

  Not modelled. The lifetime of objects other than the connections of a server, the
  semaphore of a ZooKeeper session and the pointers of an interface; data races in the sense of the memory
  model (a step is a critical section); memory exhaustion; what \<open>snprintf\<close> and \<open>strftime\<close> print in log messages (an argument);
  accessors that only return or pass on a member; and the watcher of the lock, whose cast is undefined behaviour.
\<close>

section \<open>From the configuration to the published address\<close>

text \<open>
  C34. What a configured server publishes: the configured port, but under the address of ZooKeeper, not
  under the server's own; and if its constructor was given a port other than the configured one, it
  listens on a port nobody is told.
\<close>

theorem published_address:
  assumes "config_of_file xml = Inr cfg" "zk_spec zk tree" "names_ok d"
    and "(s, service) \<in> set d" "m \<in> set (sd_methods service)" "tree z (node_path s (md_name m)) = None"
    and "length (xml_text xml ''zookeeper'' ''zookeeperip'') < 100" "port < 2 ^ 16"
  shows "\<exists>z'. server_Start zk (\<lambda>z. z) cfg d z = Inr z' \<and>
    tree z' (node_path s (md_name m)) =
      Some (Some (xml_text xml ''zookeeper'' ''zookeeperip'' @ '':'' @ dec_str (nat (m_port cfg mod 2 ^ 16)))) \<and>
    (listen_port (RPCServer_new cfg port threads workthreads) = nat (m_port cfg mod 2 ^ 16) \<longleftrightarrow>
       port = 0 \<or> int port = m_port cfg mod 2 ^ 16)"
proof -
  let ?ip = "xml_text xml ''zookeeper'' ''zookeeperip''" and ?p = "nat (m_port cfg mod 2 ^ 16)"
  have "length (dec_str ?p) \<le> 5" by (rule dec_str_length_bound) (simp_all add: nat_less_iff)
  then have l: "length ?ip + 1 + length (dec_str ?p) < 128" using assms(7) by simp
  have ip: "m_ip cfg = ?ip" by (rule config_loaded(6) [OF assms(1)])
  from Start_ok [OF assms(2,3) l, of z] assms(4-6) obtain z' where
    z': "Start zk (\<lambda>z. z) ?ip ?p d z = Inr z'" "tree z' (node_path s (md_name m)) = Some (Some (?ip @ '':'' @ dec_str ?p))"
    by fastforce
  have "listen_port (RPCServer_new cfg port threads workthreads) = ?p \<longleftrightarrow> port = 0 \<or> int port = m_port cfg mod 2 ^ 16"
    using assms(8) by (auto simp: RPCServer_new_def nat_eq_iff)
  with z' show ?thesis by (simp add: server_Start_def ip)
qed

theorem published_address_witness:
  "\<exists>z' cfg. server_Start map_zk (\<lambda>z. z) cfg (registerService order_service []) (\<lambda>_. None) = Inr z' \<and>
     config_of_file (sample_xml ''8'') = Inr cfg \<and> z' ''/Order/makeOrder'' = Some (Some ''10.0.0.1:8'') \<and>
     listen_port (RPCServer_new cfg 9000 0 0) \<noteq> 8"
proof -
  have d: "registerService order_service [] = [(''Order'', order_service)]"
    by (simp add: registerService_def order_service_def)
  have m: "sd_methods order_service = [order_method]" "md_name order_method = ''makeOrder''"
    by (simp_all add: order_service_def order_method_def)
  have n: "names_ok (registerService order_service [])"
    by (simp add: d m names_ok_def name_ok_def)
  obtain cfg where c: "config_of_file (sample_xml ''8'') = Inr cfg" "m_port cfg = 8"
    using sample_config by blast
  have t: "xml_text (sample_xml ''8'') ''zookeeper'' ''zookeeperip'' = ''10.0.0.1''"
    by (simp add: xml_text_def sample_xml_def)
  have s: "(''Order'', order_service) \<in> set (registerService order_service [])" "order_method \<in> set (sd_methods order_service)"
    by (simp_all add: d m)
  have 8: "dec_str 8 = ''8''" by (simp add: dec_str.simps digit_eqI)
  from published_address [OF c(1) map_zk_spec n s, of "\<lambda>_. None" 9000 0 0] show ?thesis
    using c by (auto simp: t m node_path_def 8)
qed

section \<open>From registration to response\<close>

lemma service_call:
  assumes "zk_spec zk tree" "names_ok d" "(s, service) \<in> set d" "m \<in> set (sd_methods service)"
    and "tree z (node_path s (md_name m)) = None"
    and "CHR '':'' \<notin> set ip" "NUL \<notin> set ip" "port < 65536" "length ip + length (dec_str port) < 62"
    and "length (ce_junk env) = 64" "ce_junk env ! (length ip + 1 + length (dec_str port)) = NUL"
    and "ce_pton env ip" "mth_service_name mth = s" "mth_name mth = md_name m" "ch_init cnl"
    and "connect_send (ce_attempts env) (cnl\<lparr>ch_ip := ip, ch_port := int port\<rparr>) = Some (True, c)"
    and "GetMsgId ctrl \<noteq> []" "ce_serialize env = Some data"
    and "sendable [request_of mth (GetMsgId ctrl) data]"
    and "dispatch d (received (request_of mth (GetMsgId ctrl) data)) new_tinypb w = Inr (reply, w')"
    and "sendable [reply]" "total_len [reply] \<le> 1024"
  shows "\<exists>z' ms' bytes. Start zk (\<lambda>z. z) ip port d z = Inr z' \<and>
    encode [request_of mth (GetMsgId ctrl) data] = Inr (ms', bytes) \<and>
    (\<exists>out. answer d bytes w = Some (Inr (out, w'))) \<and>
    (\<forall>out. answer d bytes w = Some (Inr (out, w')) \<longrightarrow>
      (\<exists>c. CallMethod (env\<lparr>ce_node := \<lambda>p. Option.bind (tree z' p) id, ce_recv := Some out\<rparr>) mth (Some ctrl) cnl ids =
        Some (Inr \<lparr>cr_controller = Some ctrl, cr_channel = c, cr_ids = ids, cr_sent = Some bytes,
        cr_response = ce_parse env (m_pb_data reply)\<rparr>)))"
proof -
  let ?q = "request_of mth (GetMsgId ctrl) data" and ?host = "ip @ '':'' @ dec_str port"
  have l: "length ip + 1 + length (dec_str port) < 128" using assms(9) by simp
  from Start_ok [OF assms(1,2) l, of z] assms(3-5) obtain z' where
    z': "Start zk (\<lambda>z. z) ip port d z = Inr z'" "tree z' (node_path s (md_name m)) = Some (Some ?host)"
    by fastforce
  have hd: "host_data ip port = Inr ?host" using l by (simp add: host_data_def Let_def)
  have "bind_res (GetData (ce_junk env) (Some ?host)) parse_host = Inr (Some (ip, int port))"
    using host_lookup [OF assms(6-10)] assms(11) unfolding hd by auto
  then obtain h where h: "GetData (ce_junk env) (Some ?host) = Inr h" "parse_host h = Inr (Some (ip, int port))"
    by (auto simp: bind_res_Inr)
  have "h \<noteq> []" using h(2) by (auto simp: parse_host_def find_first_of_def Let_def)
  obtain ms' bytes where e: "encode [?q] = Inr (ms', bytes)"
    using encode_sendable [OF assms(19)] by blast
  have "dispatch_all d (map received [?q]) w = Inr ([reply], w')" using assms(20) by simp
  from answer_encoded [OF assms(19) e this assms(21)] obtain out where
    a: "answer d bytes w = Some (Inr (out, w'))" by blast
  have "\<exists>c. CallMethod (env\<lparr>ce_node := \<lambda>p. Option.bind (tree z' p) id, ce_recv := Some out'\<rparr>) mth (Some ctrl) cnl ids =
        Some (Inr \<lparr>cr_controller = Some ctrl, cr_channel = c, cr_ids = ids, cr_sent = Some bytes,
        cr_response = ce_parse env (m_pb_data reply)\<rparr>)"
    if "answer d bytes w = Some (Inr (out', w'))" for out'
  proof -
    let ?env = "env\<lparr>ce_node := \<lambda>p. Option.bind (tree z' p) id, ce_recv := Some out'\<rparr>"
    have n: "ce_node ?env (''/'' @ mth_service_name mth @ ''/'' @ mth_name mth) = Some ?host"
      using z'(2) by (simp add: assms(13,14) node_path_def)
    have "reachable ?env mth cnl"
      unfolding reachable_def n
      using h \<open>h \<noteq> []\<close> assms(12,15,16) by (intro conjI exI [of _ h] exI [of _ ip] exI [of _ "int port"] exI [of _ c]) simp_all
    moreover have "ce_serialize ?env = Some data" "ce_recv ?env = Some out'" "ce_parse ?env = ce_parse env"
      using assms(18) by simp_all
    ultimately show ?thesis
      using call_end_to_end [of ?env mth cnl ctrl data ms' bytes d w reply w' out' w' ids] assms(17,19-22) e that
      by metis
  qed
  with z'(1) e a show ?thesis by blast
qed

text \<open>
  The whole system: a server that starts with a registered service publishes it; a client whose
  channel is connected reads the address back, sends its request, and gets the response the
  service computes, provided the reply fits one \<open>recv\<close>.
\<close>

theorem registered_service_called:
  assumes "zk_spec zk tree" "names_ok d" "(s, service) \<in> set d" "m \<in> set (sd_methods service)"
    and "tree z (node_path s (md_name m)) = None"
    and "CHR '':'' \<notin> set ip" "NUL \<notin> set ip" "port < 65536" "length ip + length (dec_str port) < 62"
    and "length (ce_junk env) = 64" "ce_junk env ! (length ip + 1 + length (dec_str port)) = NUL"
    and "ce_pton env ip" "mth_service_name mth = s" "mth_name mth = md_name m" "ch_init cnl"
    and "connect_send (ce_attempts env) (cnl\<lparr>ch_ip := ip, ch_port := int port\<rparr>) = Some (True, c)"
    and "GetMsgId ctrl \<noteq> []" "ce_serialize env = Some data"
    and "sendable [request_of mth (GetMsgId ctrl) data]"
    and "dispatch d (received (request_of mth (GetMsgId ctrl) data)) new_tinypb w = Inr (reply, w')"
    and "sendable [reply]" "total_len [reply] \<le> 1024"
  shows "\<exists>z' bytes out c. Start zk (\<lambda>z. z) ip port d z = Inr z' \<and>
    answer d bytes w = Some (Inr (out, w')) \<and>
    CallMethod (env\<lparr>ce_node := \<lambda>p. Option.bind (tree z' p) id, ce_recv := Some out\<rparr>) mth (Some ctrl) cnl ids =
      Some (Inr \<lparr>cr_controller = Some ctrl, cr_channel = c, cr_ids = ids, cr_sent = Some bytes,
        cr_response = ce_parse env (m_pb_data reply)\<rparr>)"
  using service_call [OF assms] by blast


text \<open>The order service, its client and the server they share in the witnesses.\<close>

lemma order_registered:
  "names_ok (registerService order_service [])"
  "(''Order'', order_service) \<in> set (registerService order_service [])"
  "order_method \<in> set (sd_methods order_service)" "md_name order_method = ''makeOrder''"
  by (simp_all add: registerService_def order_service_def order_method_def names_ok_def name_ok_def)

lemma order_client:
  "ce_junk (order_env None) = replicate 64 NUL" "ce_pton (order_env None) ''127.0.0.1''"
  "ce_attempts (order_env None) = [(True, False)]" "ce_serialize (order_env None) = Some ''apple''"
  "ce_parse (order_env None) = Some" "mth_service_name order_descriptor = ''Order''"
  "mth_name order_descriptor = ''makeOrder''" "ch_init order_channel"
  "connect_send [(True, False)] (order_channel\<lparr>ch_ip := i, ch_port := q\<rparr>) =
     Some (True, order_channel\<lparr>ch_ip := i, ch_port := q, ch_connected := True\<rparr>)"
  "m_pb_data makeOrder_reply = ''9912312998888apple''" "dec_str 7 = ''7''"
  by (simp_all add: order_env_def order_descriptor_def order_channel_def Init_def new_rpc_channel_def
      makeOrder_reply_def dec_str.simps digit_eqI)

theorem registered_service_called_witness:
  "\<exists>z' bytes out c. Start map_zk (\<lambda>z. z) ''127.0.0.1'' 7 (registerService order_service []) (\<lambda>_. None) = Inr z' \<and>
     answer (registerService order_service []) bytes 0 = Some (Inr (out, 1)) \<and>
     CallMethod ((order_env None)\<lparr>ce_node := \<lambda>p. Option.bind (z' p) id, ce_recv := Some out\<rparr>) order_descriptor
       (Some order_controller) order_channel new_msg_id_state =
       Some (Inr \<lparr>cr_controller = Some order_controller, cr_channel = c, cr_ids = new_msg_id_state,
         cr_sent = Some bytes, cr_response = Some ''9912312998888apple''\<rparr>)"
proof -
  from registered_service_called [OF map_zk_spec order_registered(1-3), of "\<lambda>_. None" "''127.0.0.1''" 7 "order_env None"
      order_descriptor order_channel _ order_controller "''apple''" 0 makeOrder_reply 1 new_msg_id_state]
  show ?thesis
    by (simp add: order_registered(4) order_client order_call_served del: Start.simps encode.simps)
qed


end
